(* ===== verification/Prelude.thy ===== *)
theory Prelude
  imports Main "HOL-Library.Word"
begin

text \<open>
  Shared vocabulary of the development: the Go machine types, the result of a Go
  statement that may panic or block, errors as values, Go channels, Go map iteration,
  and the interface every transition system of the library is proved through.
  Nothing in this theory is specific to one component.
\<close>

section \<open>Machine types\<close>

text \<open>
  Go's \<open>uint32\<close> is \<open>32 word\<close>; \<open>uint\<close> is \<open>64 word\<close> (the supported platforms are
  64-bit); \<open>time.Duration\<close> is a signed 64-bit count of nanoseconds, kept as an
  \<open>int\<close> with the wrap-around written out by \<open>to_int64\<close>.
\<close>

type_synonym u32 = "32 word"
type_synonym uint = "64 word"
type_synonym duration = int

lemma unat_u32: "unat (q :: u32) < 2 ^ 32"
  using unsigned_less [of q, where 'a = nat] by simp

lemma unat_u32_max: "unat (- 1 :: u32) = 4294967295"
  by (simp add: unsigned_minus_1_eq_mask mask_eq_exp_minus_1)

lemma unat_uint: "unat (n :: uint) < 2 ^ 64"
  using unsigned_less [of n, where 'a = nat] by simp

definition to_int64 :: "int \<Rightarrow> int" where
  "to_int64 x = (x + 2 ^ 63) mod 2 ^ 64 - 2 ^ 63"

lemma to_int64_id: "- (2 ^ 63) \<le> x \<Longrightarrow> x < 2 ^ 63 \<Longrightarrow> to_int64 x = x"
  by (simp add: to_int64_def mod_pos_pos_trivial)

lemma to_int64_range: "- (2 ^ 63) \<le> to_int64 x \<and> to_int64 x < 2 ^ 63"
  by (simp add: to_int64_def pos_mod_bound [of "2 ^ 64" "x + 2 ^ 63", simplified])

text \<open>Go's remainder truncates towards zero: it has the sign of the dividend.\<close>

definition go_rem :: "int \<Rightarrow> int \<Rightarrow> int" where
  "go_rem a b = sgn a * (\<bar>a\<bar> mod \<bar>b\<bar>)"

lemma go_rem_nonneg: "0 \<le> a \<Longrightarrow> 0 < b \<Longrightarrow> go_rem a b = a mod b"
  by (cases "a = 0") (simp_all add: go_rem_def)

definition dur_add :: "duration \<Rightarrow> duration \<Rightarrow> duration" where
  "dur_add a b = to_int64 (a + b)"

definition dur_sub :: "duration \<Rightarrow> duration \<Rightarrow> duration" where
  "dur_sub a b = to_int64 (a - b)"

definition dur_mul :: "duration \<Rightarrow> duration \<Rightarrow> duration" where
  "dur_mul a b = to_int64 (a * b)"

abbreviation millisecond :: duration where "millisecond \<equiv> 1000000"
abbreviation second :: duration where "second \<equiv> 1000000000"
abbreviation minute :: duration where "minute \<equiv> 60000000000"

section \<open>Errors\<close>

text \<open>
  Sentinel errors are constructors (Go compares them by identity); an error built by
  \<open>fmt.Errorf\<close> or an inline \<open>errors.New\<close> is \<open>Errorf\<close> with its text; an error that
  comes from outside the program (the network, the server, the file system) is
  \<open>ExtError\<close> with a code.
\<close>

datatype go_error =
    PClientConnectionClosed
  | IngestConnectionClosed
  | InvalidUID
  | MissingUsername
  | MissingPassword
  | SystemdCredentialsNotSet
  | InvalidScheme
  | Errorf string
  | ExtError nat

section \<open>Collections\<close>

text \<open>The steps of the components, which invariant proofs unfold.\<close>

named_theorems step_defs

section \<open>Outcomes of a statement\<close>

text \<open>
  A Go statement completes, panics, or blocks its goroutine (a send on a full channel).
  \<open>obind\<close> sequences statements: a panic or a block ends the sequence.
\<close>

datatype 'a outcome = Completes 'a | Panics string | Blocks

primrec obind :: "'a outcome \<Rightarrow> ('a \<Rightarrow> 'b outcome) \<Rightarrow> 'b outcome" where
  "obind (Completes x) f = f x"
| "obind (Panics m) f = Panics m"
| "obind Blocks f = Blocks"

lemma obind_eq_Completes:
  "obind x f = Completes y \<longleftrightarrow> (\<exists>z. x = Completes z \<and> f z = Completes y)"
  by (cases x) auto

lemma obind_assoc: "obind (obind x f) g = obind x (\<lambda>y. obind (f y) g)"
  by (cases x) auto

primrec orepeat :: "nat \<Rightarrow> ('a \<Rightarrow> 'a outcome) \<Rightarrow> 'a \<Rightarrow> 'a outcome" where
  "orepeat 0 f x = Completes x"
| "orepeat (Suc n) f x = obind (f x) (orepeat n f)"

text \<open>\<open>holds_after x P\<close>: the statement completes, in a state that satisfies \<open>P\<close>.\<close>

primrec holds_after :: "'a outcome \<Rightarrow> ('a \<Rightarrow> bool) \<Rightarrow> bool" where
  "holds_after (Completes x) P = P x"
| "holds_after (Panics m) P = False"
| "holds_after Blocks P = False"

lemma holds_after_bind:
  "holds_after x (\<lambda>y. holds_after (f y) P) \<Longrightarrow> holds_after (obind x f) P"
  by (cases x) auto

lemma holds_after_mono: "holds_after x P \<Longrightarrow> (\<And>y. P y \<Longrightarrow> Q y) \<Longrightarrow> holds_after x Q"
  by (cases x) auto

lemma holds_afterD: "holds_after x P \<Longrightarrow> \<exists>y. x = Completes y \<and> P y"
  by (cases x) auto

section \<open>Zero values and defaults\<close>

text \<open>The idiom \<open>x := cfg.X; if x == 0 { x = def }\<close>.\<close>

definition or_default :: "'a::zero \<Rightarrow> 'a \<Rightarrow> 'a" where
  "or_default d x = (if x = 0 then d else x)"

lemma or_default_nonzero: "d \<noteq> 0 \<Longrightarrow> or_default d x \<noteq> 0"
  by (simp add: or_default_def)

lemma or_default_idem: "or_default d (or_default d x) = or_default d x"
  by (simp add: or_default_def)

lemma or_default_id: "x \<noteq> 0 \<Longrightarrow> or_default d x = x"
  by (simp add: or_default_def)

section \<open>Go map iteration\<close>

text \<open>
  A Go map is a partial function. \<open>range\<close> visits every key once, in an order the
  language leaves open: code that iterates takes the order as an argument, a list that
  is one possible iteration of the map.
\<close>

definition map_iteration :: "('k \<rightharpoonup> 'v) \<Rightarrow> 'k list \<Rightarrow> bool" where
  "map_iteration m ks \<longleftrightarrow> distinct ks \<and> set ks = dom m"

lemma map_iterationD:
  assumes "map_iteration m ks"
  shows "distinct ks" and "set ks = dom m"
  using assms by (simp_all add: map_iteration_def)

lemma map_iteration_sort:
  fixes m :: "'k::linorder \<rightharpoonup> 'v"
  assumes "map_iteration m ks"
  shows "sort ks = sorted_list_of_set (dom m)"
proof -
  from assms have "distinct ks" and dom: "set ks = dom m"
    by (simp_all add: map_iteration_def)
  have "sorted_list_of_set (set ks) = sort (remdups ks)"
    by (rule sorted_list_of_set_sort_remdups)
  with \<open>distinct ks\<close> have "sort ks = sorted_list_of_set (set ks)"
    by (simp add: distinct_remdups_id)
  with dom show ?thesis by simp
qed

section \<open>Buffered channels\<close>

text \<open>
  A channel of the language: a FIFO buffer of bounded capacity that can be closed once.
  A send on a closed channel and a second close panic; a send on a full channel blocks.
\<close>

record 'a chan =
  cbuf :: "'a list"
  ccap :: nat
  cclosed :: bool

definition make_chan :: "nat \<Rightarrow> 'a chan" where
  "make_chan n = \<lparr>cbuf = [], ccap = n, cclosed = False\<rparr>"

definition chan_send :: "'a \<Rightarrow> 'a chan \<Rightarrow> 'a chan outcome" where
  "chan_send x c =
     (if cclosed c then Panics ''send on closed channel''
      else if length (cbuf c) < ccap c then Completes (c\<lparr>cbuf := cbuf c @ [x]\<rparr>)
      else Blocks)"

definition chan_recv :: "'a chan \<Rightarrow> ('a option \<times> 'a chan) outcome" where
  "chan_recv c =
     (case cbuf c of
        x # xs \<Rightarrow> Completes (Some x, c\<lparr>cbuf := xs\<rparr>)
      | [] \<Rightarrow> (if cclosed c then Completes (None, c) else Blocks))"

definition chan_close :: "'a chan \<Rightarrow> 'a chan outcome" where
  "chan_close c =
     (if cclosed c then Panics ''close of closed channel''
      else Completes (c\<lparr>cclosed := True\<rparr>))"

definition chan_ok :: "'a chan \<Rightarrow> bool" where
  "chan_ok c \<longleftrightarrow> length (cbuf c) \<le> ccap c"

lemma chan_ok_make [simp]: "chan_ok (make_chan n)"
  by (simp add: chan_ok_def make_chan_def)

lemma chan_ok_send: "chan_send x c = Completes c' \<Longrightarrow> chan_ok c'"
  by (auto simp: chan_ok_def chan_send_def split: if_splits)

section \<open>Transition systems\<close>

text \<open>
  The reachable states of a system given by its start states and its step relation, and
  the interface an invariant has to meet: it holds at the start and every step keeps it.
\<close>

inductive reachable :: "('s \<Rightarrow> bool) \<Rightarrow> ('s \<Rightarrow> 's \<Rightarrow> bool) \<Rightarrow> 's \<Rightarrow> bool"
  for init :: "'s \<Rightarrow> bool" and step :: "'s \<Rightarrow> 's \<Rightarrow> bool" where
  reach_init: "init s \<Longrightarrow> reachable init step s"
| reach_step: "reachable init step s \<Longrightarrow> step s t \<Longrightarrow> reachable init step t"

lemma reachable_steps:
  assumes "reachable init step s" and "step\<^sup>*\<^sup>* s t"
  shows "reachable init step t"
  using assms(2,1) by (induction rule: rtranclp_induct) (auto intro: reachable.reach_step)

locale invariant_system =
  fixes init :: "'s \<Rightarrow> bool"
    and step :: "'s \<Rightarrow> 's \<Rightarrow> bool"
    and inv :: "'s \<Rightarrow> bool"
  assumes inv_init: "init s \<Longrightarrow> inv s"
    and inv_step: "inv s \<Longrightarrow> step s t \<Longrightarrow> inv t"
begin

lemma reachable_inv: "reachable init step s \<Longrightarrow> inv s"
  by (induction rule: reachable.induct) (auto intro: inv_init inv_step)

lemma steps_inv:
  assumes "step\<^sup>*\<^sup>* s t" and "inv s"
  shows "inv t"
  using assms by (induction rule: rtranclp_induct) (auto intro: inv_step)

end

end
