(* ===== verification/SeqSet.thy ===== *)
theory SeqSet
  imports Prelude
begin

text \<open>
  The IMAP sequence sets of the vendored go-imap library (\<open>seqset.go\<close>), which the
  receiver builds to say what it fetches and deletes. A set is a slice of ranges, kept
  sorted and merged; a lookup is a binary search. The theory translates the operations
  the receiver uses and shows that they implement sets of numbers.
  In a range the number 0 stands for \<open>*\<close>, the largest number of the mailbox.
\<close>

section \<open>Ranges\<close>

record Seq =
  Start :: u32
  Stop :: u32

type_synonym SeqSet = "Seq list"

definition mk_seq :: "u32 \<Rightarrow> u32 \<Rightarrow> Seq" where
  "mk_seq a b = \<lparr>Start = a, Stop = b\<rparr>"

definition Seq_Contains :: "Seq \<Rightarrow> u32 \<Rightarrow> bool" where
  "Seq_Contains s q =
     (if q = 0 then Stop s = 0
      else Start s \<noteq> 0 \<and> Start s \<le> q \<and> (q \<le> Stop s \<or> Stop s = 0))"

definition Seq_Less :: "Seq \<Rightarrow> u32 \<Rightarrow> bool" where
  "Seq_Less s q \<longleftrightarrow> (Stop s < q \<or> q = 0) \<and> Stop s \<noteq> 0"

definition Seq_Merge :: "Seq \<Rightarrow> Seq \<Rightarrow> Seq \<times> bool" where
  "Seq_Merge s t =
     (if s = t then (s, True)
      else if Start s \<noteq> 0 \<and> Start t \<noteq> 0 then
        (let (s', t') = (if Start s > Start t then (t, s) else (s, t)) in
         if (Stop s' \<ge> Stop t' \<and> Stop t' \<noteq> 0) \<or> Stop s' = 0 then (s', True)
         else if Stop s' + 1 \<ge> Start t' \<or> Stop s' = - 1 then (mk_seq (Start s') (Stop t'), True)
         else (s, False))
      else if Start s = 0 then (if Stop t = 0 then (t, True) else (s, False))
      else if Stop s = 0 then (s, True)
      else (s, False))"

section \<open>Sets\<close>

function search_loop :: "SeqSet \<Rightarrow> u32 \<Rightarrow> int \<Rightarrow> int \<Rightarrow> int \<times> int" where
  "search_loop xs q mn mx =
     (if mn < mx then
        (let mid = (mn + mx) div 2 in
         if Seq_Less (xs ! nat mid) q then search_loop xs q (mid + 1) mx
         else search_loop xs q mn mid)
      else (mn, mx))"
  by pat_completeness auto
termination
  by (relation "measure (\<lambda>(xs, q, mn, mx). nat (mx - mn))") auto

definition search :: "SeqSet \<Rightarrow> u32 \<Rightarrow> nat \<times> bool" where
  "search xs q =
     (let (mn, mx) = search_loop xs q 0 (int (length xs) - 1) in
      if mx < 0 \<or> Seq_Less (xs ! nat mn) q then (length xs, False)
      else (nat mn, Seq_Contains (xs ! nat mn) q))"

definition SeqSet_Contains :: "SeqSet \<Rightarrow> u32 \<Rightarrow> bool" where
  "SeqSet_Contains xs q = (if snd (search xs q) then q \<noteq> 0 else False)"

definition SeqSet_Empty :: "SeqSet \<Rightarrow> bool" where
  "SeqSet_Empty xs \<longleftrightarrow> length xs = 0"

definition SeqSet_Dynamic :: "SeqSet \<Rightarrow> bool" where
  "SeqSet_Dynamic xs \<longleftrightarrow> length xs > 0 \<and> Stop (xs ! (length xs - 1)) = 0"

definition insertAt :: "nat \<Rightarrow> Seq \<Rightarrow> SeqSet \<Rightarrow> SeqSet" where
  "insertAt i v xs = (if i = length xs then xs @ [v] else take i xs @ v # drop i xs)"

text \<open>
  The final loop of \<open>insert\<close>: the entry at index \<open>i\<close> swallows its successors while
  they merge; the rest of the slice is kept.
\<close>

fun absorb :: "Seq \<Rightarrow> SeqSet \<Rightarrow> Seq \<times> SeqSet" where
  "absorb s [] = (s, [])"
| "absorb s (t # ts) =
     (case Seq_Merge s t of (u, merged) \<Rightarrow> if merged then absorb u ts else (u, t # ts))"

definition absorb_at :: "nat \<Rightarrow> SeqSet \<Rightarrow> SeqSet" where
  "absorb_at i xs =
     (case absorb (xs ! i) (drop (Suc i) xs) of (u, rest) \<Rightarrow> take i xs @ u # rest)"

definition SeqSet_insert :: "Seq \<Rightarrow> SeqSet \<Rightarrow> SeqSet" where
  "SeqSet_insert v xs =
     (let i = fst (search xs (Start v));
          (xs1, merged) =
            (if i > 0 then (case Seq_Merge (xs ! (i - 1)) v of (u, m) \<Rightarrow> (xs[i - 1 := u], m))
             else (xs, False))
      in if i = length xs1 then (if merged then xs1 else insertAt i v xs1)
         else if merged then absorb_at (i - 1) xs1
         else (case Seq_Merge (xs1 ! i) v of (u, m) \<Rightarrow>
                 if m then absorb_at i (xs1[i := u]) else insertAt i v (xs1[i := u])))"

definition AddNum :: "u32 list \<Rightarrow> SeqSet \<Rightarrow> SeqSet" where
  "AddNum qs xs = foldl (\<lambda>s v. SeqSet_insert (mk_seq v v) s) xs qs"

definition AddRange :: "u32 \<Rightarrow> u32 \<Rightarrow> SeqSet \<Rightarrow> SeqSet" where
  "AddRange a b xs =
     (if (b < a \<and> b \<noteq> 0) \<or> a = 0 then SeqSet_insert (mk_seq b a) xs
      else SeqSet_insert (mk_seq a b) xs)"

definition AddSet :: "SeqSet \<Rightarrow> SeqSet \<Rightarrow> SeqSet" where
  "AddSet ts xs = foldl (\<lambda>s v. SeqSet_insert v s) xs ts"

definition SeqSet_Clear :: "SeqSet \<Rightarrow> SeqSet" where
  "SeqSet_Clear xs = take 0 xs"

section \<open>The numbers a range stands for\<close>

text \<open>
  With \<open>*\<close> read as a number above every other, a range is an interval and the three
  tests of the code are comparisons of its ends.
\<close>

definition seq_ord :: "u32 \<Rightarrow> nat" where
  "seq_ord q = (if q = 0 then 2 ^ 32 else unat q)"

definition seq_wf :: "Seq \<Rightarrow> bool" where
  "seq_wf s \<longleftrightarrow> seq_ord (Start s) \<le> seq_ord (Stop s)"

definition seq_den :: "Seq \<Rightarrow> u32 set" where
  "seq_den s = {q. seq_ord (Start s) \<le> seq_ord q \<and> seq_ord q \<le> seq_ord (Stop s)}"

definition apart :: "Seq \<Rightarrow> Seq \<Rightarrow> bool" where
  "apart s t \<longleftrightarrow> seq_ord (Stop s) < seq_ord (Start t) \<and>
     (Start t = 0 \<or> seq_ord (Stop s) + 1 < seq_ord (Start t))"

definition set_wf :: "SeqSet \<Rightarrow> bool" where
  "set_wf xs \<longleftrightarrow> sorted_wrt apart xs \<and> (\<forall>s\<in>set xs. seq_wf s)"

definition set_den :: "SeqSet \<Rightarrow> u32 set" where
  "set_den xs = (\<Union>s\<in>set xs. seq_den s)"

lemma seq_ord_le: "seq_ord q \<le> 2 ^ 32"
  using unat_u32 [of q] by (simp add: seq_ord_def)

lemma seq_ord_inj: "seq_ord a = seq_ord b \<longleftrightarrow> a = b"
  using unat_u32 [of a] unat_u32 [of b] by (auto simp: seq_ord_def word_unat_eq_iff)

lemma seq_ord_less: "a \<noteq> 0 \<Longrightarrow> seq_ord a < seq_ord b \<longleftrightarrow> b = 0 \<or> a < b"
  using unat_u32 [of a] by (auto simp: seq_ord_def word_less_nat_alt)

lemma seq_ord_le_iff: "b \<noteq> 0 \<Longrightarrow> seq_ord a \<le> seq_ord b \<longleftrightarrow> a \<noteq> 0 \<and> a \<le> b"
  using unat_u32 [of b] by (auto simp: seq_ord_def word_le_nat_alt)

lemma seq_ord_0 [simp]: "seq_ord 0 = 2 ^ 32"
  by (simp add: seq_ord_def)

lemma Seq_Contains_iff: "Seq_Contains s q \<longleftrightarrow> q \<in> seq_den s"
proof (cases "q = 0")
  case True
  then show ?thesis
    using seq_ord_le [of "Start s"] seq_ord_le [of "Stop s"] seq_ord_inj [of "Stop s" 0]
    by (auto simp: Seq_Contains_def seq_den_def)
next
  case False
  then show ?thesis
    using seq_ord_le [of q]
    by (cases "Stop s = 0") (auto simp: Seq_Contains_def seq_den_def seq_ord_le_iff)
qed

lemma Seq_Less_iff: "Seq_Less s q \<longleftrightarrow> seq_ord (Stop s) < seq_ord q"
proof (cases "Stop s = 0")
  case True
  then show ?thesis using seq_ord_le [of q] by (simp add: Seq_Less_def)
next
  case False
  then show ?thesis by (auto simp: Seq_Less_def seq_ord_less)
qed

section \<open>Merging\<close>

lemma touches_iff:
  assumes "m \<noteq> 0" and "a \<noteq> 0"
  shows "m + 1 \<ge> a \<or> m = - 1 \<longleftrightarrow> seq_ord a \<le> seq_ord m + 1"
proof (cases "m = - 1")
  case True
  then show ?thesis
    using assms unat_u32 [of a] by (simp add: seq_ord_def unat_u32_max)
next
  case False
  then have "1 + m \<noteq> 0" by (metis add.commute eq_neg_iff_add_eq_0)
  then have "unat (m + 1) = Suc (unat m)" by (metis add.commute unatSuc)
  with False assms show ?thesis by (simp add: seq_ord_def word_le_nat_alt)
qed

text \<open>The two outcomes of a merge, on the ends of the ranges.\<close>

definition merge_spec :: "Seq \<Rightarrow> Seq \<Rightarrow> Seq \<times> bool \<Rightarrow> bool" where
  "merge_spec s t r \<longleftrightarrow>
     (if snd r then \<not> apart s t \<and> \<not> apart t s
        \<and> seq_ord (Start (fst r)) = min (seq_ord (Start s)) (seq_ord (Start t))
        \<and> seq_ord (Stop (fst r)) = max (seq_ord (Stop s)) (seq_ord (Stop t))
      else fst r = s \<and> (apart s t \<or> apart t s))"

lemma merge_ordered:
  assumes wf: "seq_wf s" "seq_wf t" and nz: "Start s \<noteq> 0" "Start t \<noteq> 0"
    and ord: "Start s \<le> Start t"
  shows "if (Stop s \<ge> Stop t \<and> Stop t \<noteq> 0) \<or> Stop s = 0 then merge_spec s t (s, True)
    else if Stop s + 1 \<ge> Start t \<or> Stop s = - 1
    then merge_spec s t (mk_seq (Start s) (Stop t), True)
    else merge_spec s t (w, False) \<longleftrightarrow> w = s"
proof -
  have o: "seq_ord (Start s) \<le> seq_ord (Start t)" using nz ord by (simp add: seq_ord_le_iff)
  have w: "seq_ord (Start s) \<le> seq_ord (Stop s)" "seq_ord (Start t) \<le> seq_ord (Stop t)"
    using wf by (simp_all add: seq_wf_def)
  show ?thesis
  proof (cases "(Stop s \<ge> Stop t \<and> Stop t \<noteq> 0) \<or> Stop s = 0")
    case True
    then have "seq_ord (Stop t) \<le> seq_ord (Stop s)"
      using seq_ord_le [of "Stop t"] by (cases "Stop s = 0") (auto simp: seq_ord_le_iff)
    with True o w show ?thesis by (auto simp: merge_spec_def apart_def min_def max_def)
  next
    case False
    then have "Stop s \<noteq> 0" and "seq_ord (Stop s) \<le> seq_ord (Stop t)"
      using seq_ord_le [of "Stop s"] by (cases "Stop t = 0"; auto simp: seq_ord_le_iff)+
    with False o w nz touches_iff [of "Stop s" "Start t"] show ?thesis
      by (auto simp: merge_spec_def apart_def mk_seq_def min_def max_def)
  qed
qed

lemma merge_spec_swap: "merge_spec s t (u, True) \<longleftrightarrow> merge_spec t s (u, True)"
  by (auto simp: merge_spec_def min.commute max.commute)

lemma star_wf: "seq_wf s \<Longrightarrow> Start s = 0 \<Longrightarrow> Stop s = 0"
  using seq_ord_le [of "Stop s"] seq_ord_inj [of "Stop s" 0] by (simp add: seq_wf_def)

lemma merge_star:
  fixes star :: Seq
  defines "star \<equiv> \<lparr>Start = 0, Stop = 0\<rparr>"
  assumes "seq_wf t" and "Start t \<noteq> 0"
  shows "Stop t = 0 \<Longrightarrow> merge_spec star t (t, True)"
    and "Stop t \<noteq> 0 \<Longrightarrow> merge_spec star t (star, False)"
    and "Stop t \<noteq> 0 \<Longrightarrow> merge_spec t star (t, False)"
  using assms seq_ord_le [of "Start t"] seq_ord_less [of "Stop t" 0]
  by (auto simp: merge_spec_def apart_def seq_wf_def)

lemma Seq_Merge_spec:
  assumes wf: "seq_wf s" "seq_wf t"
  shows "merge_spec s t (Seq_Merge s t)"
proof (cases "s = t")
  case True
  then show ?thesis using wf by (auto simp: Seq_Merge_def merge_spec_def apart_def seq_wf_def)
next
  case ne: False
  show ?thesis
  proof (cases "Start s \<noteq> 0 \<and> Start t \<noteq> 0")
    case nz: True
    show ?thesis
    proof (cases "Start s > Start t")
      case True
      then have "Start t \<le> Start s" by simp
      with merge_ordered [OF wf(2,1), of t] nz True ne show ?thesis
        by (auto simp: Seq_Merge_def merge_spec_swap [of s t] split: if_splits)
          (auto simp: merge_spec_def)
    next
      case False
      then have "Start s \<le> Start t" by simp
      with merge_ordered [OF wf, of s] nz False ne show ?thesis
        by (auto simp: Seq_Merge_def split: if_splits)
    qed
  next
    case z: False
    have stars: "r = \<lparr>Start = 0, Stop = 0\<rparr>" if "seq_wf r" "Start r = 0" for r :: Seq
      using that star_wf [of r] by (cases r) simp
    show ?thesis
    proof (cases "Start s = 0")
      case True
      then have s: "s = \<lparr>Start = 0, Stop = 0\<rparr>" using stars wf(1) by blast
      then have "Start t \<noteq> 0" using stars [OF wf(2)] ne by blast
      with s show ?thesis
        using merge_star [OF wf(2)] by (auto simp: Seq_Merge_def)
    next
      case False
      with z have t: "t = \<lparr>Start = 0, Stop = 0\<rparr>" using stars wf(2) by blast
      with False show ?thesis
        using merge_star [OF wf(1)] by (auto simp: Seq_Merge_def merge_spec_swap [of s])
    qed
  qed
qed

text \<open>On well-formed ranges, a merged range stands for the union.\<close>

lemma merge_wf: "seq_wf s \<Longrightarrow> seq_wf t \<Longrightarrow> merge_spec s t (u, m) \<Longrightarrow> seq_wf u"
  by (auto simp: merge_spec_def seq_wf_def split: if_splits)

lemma merge_den:
  assumes "seq_wf s" "seq_wf t" "merge_spec s t (u, True)"
  shows "seq_den u = seq_den s \<union> seq_den t"
proof -
  have cover: "q \<in> seq_den s \<union> seq_den t" if "q \<in> seq_den u" for q
  proof (rule ccontr)
    assume "q \<notin> seq_den s \<union> seq_den t"
    with that assms consider
        "seq_ord (Stop s) < seq_ord q" "seq_ord q < seq_ord (Start t)"
      | "seq_ord (Stop t) < seq_ord q" "seq_ord q < seq_ord (Start s)"
      by (fastforce simp: merge_spec_def seq_den_def min_def max_def split: if_splits)
    then have "apart s t \<or> apart t s" by cases (auto simp: apart_def)
    with assms show False by (simp add: merge_spec_def)
  qed
  have "seq_den s \<union> seq_den t \<subseteq> seq_den u"
    using assms by (auto simp: merge_spec_def seq_den_def)
  with cover show ?thesis by blast
qed

section \<open>Well-formed sets and the binary search\<close>

lemma apart_trans: "apart s t \<Longrightarrow> seq_wf t \<Longrightarrow> apart t u \<Longrightarrow> apart s u"
  by (auto simp: apart_def seq_wf_def)

lemma set_wf_Nil [simp]: "set_wf []"
  by (simp add: set_wf_def)

lemma set_wf_append:
  "set_wf (xs @ ys) \<longleftrightarrow> set_wf xs \<and> set_wf ys \<and> (\<forall>x\<in>set xs. \<forall>y\<in>set ys. apart x y)"
  by (auto simp: set_wf_def sorted_wrt_append)

lemma set_wf_Cons:
  "set_wf (x # xs) \<longleftrightarrow> seq_wf x \<and> set_wf xs \<and> (\<forall>y\<in>set xs. apart x y)"
  by (auto simp: set_wf_def)

lemma set_den_simps [simp]:
  "set_den [] = {}"
  "set_den (x # xs) = seq_den x \<union> set_den xs"
  "set_den (xs @ ys) = set_den xs \<union> set_den ys"
  by (auto simp: set_den_def)

lemma Less_antitone:
  assumes "set_wf xs" "i < j" "j < length xs" "Seq_Less (xs ! j) q"
  shows "Seq_Less (xs ! i) q"
proof -
  from assms have "apart (xs ! i) (xs ! j)" "seq_wf (xs ! j)"
    by (auto simp: set_wf_def sorted_wrt_nth_less)
  with assms(4) show ?thesis by (simp add: Seq_Less_iff apart_def seq_wf_def)
qed

declare search_loop.simps [simp del]

text \<open>
  The loop keeps: every entry below \<open>mn\<close> is less than \<open>q\<close>, and \<open>mx\<close> is the last
  index or one whose entry is not.
\<close>

lemma search_loop_spec:
  assumes "set_wf xs" "0 \<le> mn" "mn \<le> mx" "mx < int (length xs)"
    and "\<forall>k < nat mn. Seq_Less (xs ! k) q"
    and "Suc (nat mx) = length xs \<or> \<not> Seq_Less (xs ! nat mx) q"
  shows "\<exists>m. search_loop xs q mn mx = (int m, int m) \<and> m < length xs
    \<and> (\<forall>k < m. Seq_Less (xs ! k) q)
    \<and> (Suc m = length xs \<or> \<not> Seq_Less (xs ! m) q)"
  using assms
proof (induction xs q mn mx rule: search_loop.induct)
  case (1 xs q mn mx)
  show ?case
  proof (cases "mn < mx")
    case False
    with "1.prems" show ?thesis
      by (intro exI [of _ "nat mn"]) (auto simp: search_loop.simps [of xs q mx mx])
  next
    case True
    define mid where "mid = (mn + mx) div 2"
    have mid: "mn \<le> mid" "mid < mx" using True by (auto simp: mid_def)
    show ?thesis
    proof (cases "Seq_Less (xs ! nat mid) q")
      case less: True
      have "\<forall>k < nat (mid + 1). Seq_Less (xs ! k) q"
        using Less_antitone [of xs _ "nat mid" q] less "1.prems" mid
        by (auto simp: less_Suc_eq nat_add_distrib)
      with "1.IH"(1) [OF True mid_def less] "1.prems" mid True less show ?thesis
        by (simp add: search_loop.simps [of xs q mn mx] mid_def)
    next
      case ge: False
      with "1.IH"(2) [OF True mid_def ge] "1.prems" mid True show ?thesis
        by (simp add: search_loop.simps [of xs q mn mx] mid_def)
    qed
  qed
qed

text \<open>
  The search splits the set at the first range that does not end below \<open>q\<close>.
\<close>

lemma search_spec:
  assumes "set_wf xs"
  obtains pre post where "xs = pre @ post" and "fst (search xs q) = length pre"
    and "\<forall>s\<in>set pre. seq_ord (Stop s) < seq_ord q"
    and "\<forall>s\<in>set post. seq_ord q \<le> seq_ord (Stop s)"
    and "snd (search xs q) \<longleftrightarrow> post \<noteq> [] \<and> q \<in> seq_den (hd post)"
proof (cases "xs = []")
  case True
  then show ?thesis
    by (intro that [of "[]" "[]"]) (auto simp: search_def search_loop.simps)
next
  case False
  have nonempty: "0 \<le> int (length xs) - 1"
    using False by (cases xs) simp_all
  have "\<exists>m. search_loop xs q 0 (int (length xs) - 1) = (int m, int m) \<and> m < length xs
      \<and> (\<forall>k < m. Seq_Less (xs ! k) q) \<and> (Suc m = length xs \<or> \<not> Seq_Less (xs ! m) q)"
  proof (rule search_loop_spec [OF assms order_refl nonempty])
    show "Suc (nat (int (length xs) - 1)) = length xs
        \<or> \<not> Seq_Less (xs ! nat (int (length xs) - 1)) q"
      using False by (simp add: Suc_nat_eq_nat_zadd1)
  qed simp_all
  then obtain m where m: "search_loop xs q 0 (int (length xs) - 1) = (int m, int m)"
    "m < length xs" "\<forall>k < m. Seq_Less (xs ! k) q" "Suc m = length xs \<or> \<not> Seq_Less (xs ! m) q"
    by blast
  show ?thesis
  proof (cases "Seq_Less (xs ! m) q")
    case True
    with m(4) have "Suc m = length xs" by blast
    with m(3) True have "Seq_Less (xs ! k) q" if "k < length xs" for k
      using that by (cases "k = m") auto
    then have "\<forall>s\<in>set xs. Seq_Less s q"
      by (auto simp: in_set_conv_nth)
    moreover have "search xs q = (length xs, False)"
      by (simp add: search_def m(1) True)
    ultimately show ?thesis
      by (intro that [of xs "[]"]) (simp_all add: Seq_Less_iff)
  next
    case ge: False
    have at: "search xs q = (m, Seq_Contains (xs ! m) q)"
      using False by (simp add: search_def m(1) ge)
    have "\<forall>s\<in>set (take m xs). Seq_Less s q"
      using m by (auto simp: in_set_conv_nth)
    moreover have "\<not> Seq_Less s q" if s: "s \<in> set (drop m xs)" for s
    proof -
      from s obtain k where "s = xs ! (m + k)" "m + k < length xs"
        by (auto simp: in_set_conv_nth)
      with Less_antitone [OF assms, of m "m + k" q] ge show ?thesis by (cases "k = 0") auto
    qed
    ultimately show ?thesis
      using m(2) by (intro that [of "take m xs" "drop m xs"])
        (simp_all add: at Seq_Less_iff Seq_Contains_iff hd_drop_conv_nth not_less)
  qed
qed

section \<open>Insertion\<close>

lemma absorb_spec:
  assumes "absorb s ts = (u, rest)" "seq_wf s" "set_wf ts"
    and "\<forall>t\<in>set ts. seq_ord (Start s) \<le> seq_ord (Start t)"
  shows "set_wf (u # rest) \<and> Start u = Start s
    \<and> seq_den u \<union> set_den rest = seq_den s \<union> set_den ts"
  using assms
proof (induction s ts arbitrary: u rest rule: absorb.induct)
  case (1 s)
  then show ?case by (simp add: set_wf_Cons)
next
  case (2 s t ts)
  obtain v m where v: "Seq_Merge s t = (v, m)" by fastforce
  have wf: "seq_wf s" "seq_wf t" "set_wf ts" using "2.prems" by (auto simp: set_wf_Cons)
  note spec = Seq_Merge_spec [OF wf(1,2), unfolded v]
  show ?case
  proof (cases m)
    case True
    with v have "Seq_Merge s t = (v, True)" by simp
    then have start: "Start v = Start s"
      using spec "2.prems"(4) True by (auto simp: merge_spec_def min_def seq_ord_inj split: if_splits)
    from v True "2.prems" have "absorb v ts = (u, rest)" by simp
    with "2.IH" [OF v [symmetric] True] wf merge_wf [OF wf(1,2) spec] "2.prems"(4) start
      merge_den [OF wf(1,2), of v] spec True
    show ?thesis by auto
  next
    case False
    with spec have "v = s" "apart s t \<or> apart t s" by (auto simp: merge_spec_def)
    moreover have "\<not> apart t s"
      using wf "2.prems"(4) by (auto simp: apart_def seq_wf_def)
    ultimately have "apart s t" by blast
    with "2.prems" wf have "set_wf (s # t # ts)"
      by (auto simp: set_wf_Cons intro: apart_trans)
    with v False \<open>v = s\<close> "2.prems"(1) show ?thesis by auto
  qed
qed

text \<open>What an insertion has to deliver.\<close>

definition insert_ok :: "Seq \<Rightarrow> SeqSet \<Rightarrow> SeqSet \<Rightarrow> bool" where
  "insert_ok v xs ys \<longleftrightarrow> set_wf ys \<and> set_den ys = seq_den v \<union> set_den xs"

lemma absorb_at_ok:
  assumes xs: "set_wf (pre @ t # post)" and u: "seq_wf u" "seq_den u = seq_den v \<union> seq_den t"
    and "\<forall>p\<in>set pre. apart p u" "seq_ord (Start u) \<le> seq_ord (Start t)"
  shows "insert_ok v (pre @ t # post) (absorb_at (length pre) (pre @ u # post))"
proof -
  obtain w rest where w: "absorb u post = (w, rest)" by fastforce
  have post: "set_wf post" "\<forall>x\<in>set post. apart t x" "seq_wf t"
    using xs by (auto simp: set_wf_append set_wf_Cons)
  then have "\<forall>x\<in>set post. seq_ord (Start u) \<le> seq_ord (Start x)"
    using assms(5) by (fastforce simp: apart_def seq_wf_def)
  note spec = absorb_spec [OF w u(1) post(1) this]
  have "apart p x" if "p \<in> set pre" "x \<in> set (w # rest)" for p x
  proof -
    have "apart p w" using assms(4) spec that(1) by (auto simp: apart_def)
    with spec that(2) show ?thesis by (auto simp: set_wf_Cons intro: apart_trans)
  qed
  with spec xs have "set_wf (pre @ w # rest)" by (simp add: set_wf_append)
  moreover have "set_den (pre @ w # rest) = seq_den v \<union> set_den (pre @ t # post)"
    using spec u(2) by auto
  ultimately show ?thesis by (simp add: insert_ok_def absorb_at_def w)
qed

lemma insertAt_ok:
  assumes "set_wf (pre @ post)" "seq_wf v" "\<forall>p\<in>set pre. apart p v" "\<forall>p\<in>set post. apart v p"
  shows "insert_ok v (pre @ post) (insertAt (length pre) v (pre @ post))"
  using assms by (auto simp: insert_ok_def insertAt_def set_wf_append set_wf_Cons)

lemma last_apart:
  assumes "set_wf (pre @ [p])" "apart p v \<or> (seq_wf p \<and> Start v = Start p)"
  shows "\<forall>x\<in>set pre. apart x v"
proof
  fix x
  assume "x \<in> set pre"
  with assms(1) have "apart x p" "seq_wf p" by (auto simp: set_wf_append set_wf_Cons)
  with assms(2) show "apart x v" using apart_trans [of x p v] by (auto simp: apart_def)
qed

text \<open>
  The entry before the insertion point ends below the new range: a merge with it keeps
  its start, and a failed merge leaves it apart from the range.
\<close>

lemma merge_pred:
  assumes "seq_wf p" "seq_wf v" "seq_ord (Stop p) < seq_ord (Start v)"
    and "Seq_Merge p v = (u, m)"
  shows "if m then Start u = Start p \<and> seq_wf u \<and> seq_den u = seq_den v \<union> seq_den p
    \<and> seq_ord (Stop u) = seq_ord (Stop v) else u = p \<and> apart p v"
proof -
  note spec = Seq_Merge_spec [OF assms(1,2), unfolded assms(4)]
  show ?thesis
    using assms spec merge_wf [OF assms(1,2) spec] merge_den [OF assms(1,2), of u]
    by (auto simp: merge_spec_def seq_wf_def apart_def min_def max_def seq_ord_inj
        split: if_splits)
qed

lemma merge_succ:
  assumes "seq_wf t" "seq_wf v" "seq_ord (Start v) \<le> seq_ord (Stop t)"
    and "Seq_Merge t v = (u, m)"
  shows "if m then seq_ord (Start u) = min (seq_ord (Start t)) (seq_ord (Start v)) \<and> seq_wf u
    \<and> seq_den u = seq_den v \<union> seq_den t else u = t \<and> apart v t"
proof -
  note spec = Seq_Merge_spec [OF assms(1,2), unfolded assms(4)]
  show ?thesis
    using assms spec merge_wf [OF assms(1,2) spec] merge_den [OF assms(1,2), of u]
    by (auto simp: merge_spec_def seq_wf_def apart_def split: if_splits)
qed

text \<open>Inserting in front of the entries that end at or above the new range.\<close>

lemma insert_front_ok:
  assumes xs: "set_wf (pre @ post)" and v: "seq_wf v"
    and post: "\<forall>s\<in>set post. seq_ord (Start v) \<le> seq_ord (Stop s)"
    and pre: "\<forall>p\<in>set pre. apart p v"
  shows "post = [] \<Longrightarrow> insert_ok v (pre @ post) (insertAt (length pre) v (pre @ post))"
    and "post = t # ts \<Longrightarrow> Seq_Merge t v = (u, False) \<Longrightarrow>
      insert_ok v (pre @ post) (insertAt (length pre) v (pre @ u # ts))"
    and "post = t # ts \<Longrightarrow> Seq_Merge t v = (u, True) \<Longrightarrow>
      insert_ok v (pre @ post) (absorb_at (length pre) (pre @ u # ts))"
proof -
  show "insert_ok v (pre @ post) (insertAt (length pre) v (pre @ post))" if "post = []"
    using insertAt_ok [OF xs v pre] that by simp
next
  assume p: "post = t # ts" and m: "Seq_Merge t v = (u, False)"
  with xs have t: "seq_wf t" "\<forall>x\<in>set ts. apart t x" by (auto simp: set_wf_append set_wf_Cons)
  have "u = t" "apart v t" using merge_succ [OF t(1) v _ m] post p by auto
  then have "\<forall>x\<in>set post. apart v x" using t p by (auto intro: apart_trans)
  from insertAt_ok [OF xs v pre this] p \<open>u = t\<close>
  show "insert_ok v (pre @ post) (insertAt (length pre) v (pre @ u # ts))" by simp
next
  assume p: "post = t # ts" and m: "Seq_Merge t v = (u, True)"
  with xs have t: "seq_wf t" "\<forall>x\<in>set pre. apart x t"
    by (auto simp: set_wf_append set_wf_Cons)
  have u: "seq_ord (Start u) = min (seq_ord (Start t)) (seq_ord (Start v))" "seq_wf u"
    "seq_den u = seq_den v \<union> seq_den t"
    using merge_succ [OF t(1) v _ m] post p by auto
  have "Start u = Start t \<or> Start u = Start v"
    using u(1) by (auto simp: min_def seq_ord_inj split: if_splits)
  with t(2) pre have "\<forall>x\<in>set pre. apart x u" by (auto simp: apart_def)
  with absorb_at_ok [of pre t ts u v] xs p u
  show "insert_ok v (pre @ post) (absorb_at (length pre) (pre @ u # ts))" by simp
qed

lemma SeqSet_insert_ok:
  assumes xs: "set_wf xs" and v: "seq_wf v"
  shows "insert_ok v xs (SeqSet_insert v xs)"
proof -
  obtain pre post where split: "xs = pre @ post" and i: "fst (search xs (Start v)) = length pre"
    and pre: "\<forall>s\<in>set pre. seq_ord (Stop s) < seq_ord (Start v)"
    and post: "\<forall>s\<in>set post. seq_ord (Start v) \<le> seq_ord (Stop s)"
    using search_spec [OF xs, of "Start v"] by metis
  show ?thesis
  proof (cases pre rule: rev_cases)
    case Nil
    then have front: "\<forall>p\<in>set pre. apart p v" by simp
    note ok = insert_front_ok [OF xs [unfolded split] v post front]
    show ?thesis
    proof (cases post)
      case Nil
      with ok(1) \<open>pre = []\<close> i split show ?thesis by (simp add: SeqSet_insert_def)
    next
      case (Cons t ts)
      obtain u m where "Seq_Merge t v = (u, m)" by fastforce
      with ok(2,3) [OF Cons] \<open>pre = []\<close> i split Cons show ?thesis
        by (cases m) (simp_all add: SeqSet_insert_def)
    qed
  next
    case (snoc pre' p)
    obtain w n where w: "Seq_Merge p v = (w, n)" by fastforce
    have p: "seq_wf p" "seq_ord (Stop p) < seq_ord (Start v)" "set_wf (pre' @ [p])"
      using xs pre by (auto simp: split snoc set_wf_append set_wf_Cons)
    note pred = merge_pred [OF p(1) v p(2) w]
    show ?thesis
    proof (cases n)
      case True
      then have wu: "Start w = Start p" "seq_wf w" "seq_den w = seq_den v \<union> seq_den p"
        using pred by auto
      have before: "\<forall>x\<in>set pre'. apart x w" by (rule last_apart [OF p(3)]) (use wu p in auto)
      have "insert_ok v (pre' @ p # post) (absorb_at (length pre') (pre' @ w # post))"
        by (rule absorb_at_ok) (use xs split snoc wu before in auto)
      moreover have "post = [] \<Longrightarrow> absorb_at (length pre') (pre' @ [w]) = pre' @ [w]"
        by (simp add: absorb_at_def)
      ultimately show ?thesis
        using i split snoc w True
        by (cases "post = []") (auto simp: SeqSet_insert_def nth_append list_update_append)
    next
      case False
      with pred have "w = p" "apart p v" by auto
      then have front: "\<forall>x\<in>set pre. apart x v"
        using last_apart [OF p(3), of v] snoc by auto
      note ok = insert_front_ok [OF xs [unfolded split] v post front]
      have same: "xs[length pre - 1 := p] = xs" "xs ! (length pre - 1) = p" "length pre > 0"
        using split snoc by (simp_all add: nth_append list_update_append)
      show ?thesis
      proof (cases post)
        case Nil
        with ok(1) i split same w \<open>w = p\<close> False show ?thesis
          by (simp add: SeqSet_insert_def)
      next
        case (Cons t ts)
        obtain u m where "Seq_Merge t v = (u, m)" by fastforce
        with ok(2,3) [OF Cons] i split same Cons w \<open>w = p\<close> False show ?thesis
          by (cases m) (simp_all add: SeqSet_insert_def)
      qed
    qed
  qed
qed

lemma SeqSet_Contains_iff:
  assumes "set_wf xs"
  shows "SeqSet_Contains xs q \<longleftrightarrow> q \<noteq> 0 \<and> q \<in> set_den xs"
proof -
  obtain pre post where split: "xs = pre @ post"
    and pre: "\<forall>s\<in>set pre. seq_ord (Stop s) < seq_ord q"
    and post: "\<forall>s\<in>set post. seq_ord q \<le> seq_ord (Stop s)"
    and ok: "snd (search xs q) \<longleftrightarrow> post \<noteq> [] \<and> q \<in> seq_den (hd post)"
    using search_spec [OF assms, of q] by metis
  have "q \<notin> set_den pre" using pre by (fastforce simp: set_den_def seq_den_def)
  moreover have "q \<in> seq_den (hd post)" if "q \<in> set_den post"
  proof (cases post)
    case Nil
    with that show ?thesis by simp
  next
    case (Cons t ts)
    with that post assms split show ?thesis
      by (fastforce simp: set_wf_append set_wf_Cons apart_def set_den_def seq_den_def)
  qed
  moreover have "post \<noteq> [] \<Longrightarrow> q \<in> seq_den (hd post) \<Longrightarrow> q \<in> set_den post"
    by (cases post) auto
  ultimately show ?thesis
    using ok split by (cases "post = []") (auto simp: SeqSet_Contains_def)
qed

section \<open>Sets of numbers\<close>

lemma seq_den_single [simp]: "seq_den (mk_seq v v) = {v}"
  using seq_ord_inj by (auto simp: seq_den_def mk_seq_def)

lemma seq_wf_single [simp]: "seq_wf (mk_seq v v)"
  by (simp add: seq_wf_def mk_seq_def)

text \<open>
  What a client of the sets relies on: a way to add one number and to ask for one.
\<close>

locale number_set =
  fixes empty :: 's
    and add :: "u32 \<Rightarrow> 's \<Rightarrow> 's"
    and contains :: "'s \<Rightarrow> u32 \<Rightarrow> bool"
    and valid :: "'s \<Rightarrow> bool"
    and elems :: "'s \<Rightarrow> u32 set"
  assumes valid_empty: "valid empty"
    and elems_empty: "elems empty = {}"
    and valid_add: "valid s \<Longrightarrow> valid (add q s)"
    and elems_add: "valid s \<Longrightarrow> elems (add q s) = insert q (elems s)"
    and contains_iff: "valid s \<Longrightarrow> contains s q \<longleftrightarrow> q \<noteq> 0 \<and> q \<in> elems s"
begin

lemma valid_adds: "valid s \<Longrightarrow> valid (foldl (\<lambda>s q. add q s) s qs)"
  by (induction qs arbitrary: s) (simp_all add: valid_add)

lemma elems_adds: "valid s \<Longrightarrow> elems (foldl (\<lambda>s q. add q s) s qs) = elems s \<union> set qs"
  by (induction qs arbitrary: s) (simp_all add: valid_add elems_add)

lemma contains_adds:
  "contains (foldl (\<lambda>s q. add q s) empty qs) q \<longleftrightarrow> q \<noteq> 0 \<and> q \<in> set qs"
  by (simp add: contains_iff valid_adds valid_empty elems_adds elems_empty)

end

lemma AddNum_foldl: "AddNum qs xs = foldl (\<lambda>s q. AddNum [q] s) xs qs"
  by (simp add: AddNum_def)

interpretation seqset: number_set "[]" "\<lambda>q. AddNum [q]" SeqSet_Contains set_wf set_den
proof
  show "set_wf (AddNum [q] s)" if "set_wf s" for q s
    using SeqSet_insert_ok [OF that, of "mk_seq q q"] by (simp add: AddNum_def insert_ok_def)
  show "set_den (AddNum [q] s) = insert q (set_den s)" if "set_wf s" for q s
    using SeqSet_insert_ok [OF that, of "mk_seq q q"] by (simp add: AddNum_def insert_ok_def)
qed (simp_all add: SeqSet_Contains_iff)

lemma AddNum_wf: "set_wf xs \<Longrightarrow> set_wf (AddNum qs xs)"
  by (subst AddNum_foldl) (rule seqset.valid_adds)

lemma AddNum_den: "set_wf xs \<Longrightarrow> set_den (AddNum qs xs) = set_den xs \<union> set qs"
  by (subst AddNum_foldl) (rule seqset.elems_adds)

lemma Contains_AddNum: "SeqSet_Contains (AddNum qs []) q \<longleftrightarrow> q \<noteq> 0 \<and> q \<in> set qs"
  by (subst AddNum_foldl) (rule seqset.contains_adds)

lemma set_den_empty_iff: "set_wf xs \<Longrightarrow> set_den xs = {} \<longleftrightarrow> xs = []"
  by (cases xs) (auto simp: set_wf_Cons seq_wf_def seq_den_def)

lemma SeqSet_Empty_iff: "set_wf xs \<Longrightarrow> SeqSet_Empty xs \<longleftrightarrow> set_den xs = {}"
  by (simp add: SeqSet_Empty_def set_den_empty_iff)

text \<open>A set without \<open>*\<close> is not dynamic.\<close>

lemma not_Dynamic:
  assumes "set_wf xs" "0 \<notin> set_den xs"
  shows "\<not> SeqSet_Dynamic xs"
proof
  assume "SeqSet_Dynamic xs"
  then have "last xs \<in> set xs" "Stop (last xs) = 0"
    by (auto simp: SeqSet_Dynamic_def last_conv_nth)
  then have "0 \<in> set_den xs"
    using seq_ord_le by (force simp: set_den_def seq_den_def)
  with assms show False by blast
qed

section \<open>Properties\<close>

text \<open>
  A set built by adding numbers one by one, in any order and with repetitions, is a
  sorted slice of disjoint, merged ranges, and the binary search answers yes for exactly
  the non-zero numbers that were added.
\<close>

theorem seqset_of_numbers:
  "set_wf (AddNum qs [])
    \<and> (\<forall>q. SeqSet_Contains (AddNum qs []) q = (q \<noteq> 0 \<and> q \<in> set qs))
    \<and> SeqSet_Empty (AddNum qs []) = (qs = [])"
  by (simp add: Contains_AddNum AddNum_wf AddNum_den SeqSet_Empty_iff)

text \<open>
  Inserting a range, static or ending in \<open>*\<close>, into a sorted and merged set keeps it
  sorted and merged, whatever neighbours the range touches or swallows, and afterwards
  the set contains what it contained before and the numbers of the range.
\<close>

theorem insert_range:
  assumes "set_wf xs" and "seq_wf v"
  shows "set_wf (SeqSet_insert v xs) \<and>
    (\<forall>q. SeqSet_Contains (SeqSet_insert v xs) q =
      (SeqSet_Contains xs q \<or> (q \<noteq> 0 \<and> Seq_Contains v q)))"
  using SeqSet_insert_ok [OF assms] SeqSet_Contains_iff [OF assms(1)]
  by (auto simp: insert_ok_def SeqSet_Contains_iff Seq_Contains_iff)

theorem insert_range_witness:
  "set_wf [mk_seq 1 3, mk_seq 8 0] \<and> seq_wf (mk_seq 4 7)
    \<and> SeqSet_insert (mk_seq 4 7) [mk_seq 1 3, mk_seq 8 0] = [mk_seq 1 0]
    \<and> SeqSet_Contains (SeqSet_insert (mk_seq 4 7) [mk_seq 1 3, mk_seq 8 0]) 5"
proof -
  have wf: "set_wf [mk_seq 1 3, mk_seq 8 0]" "seq_wf (mk_seq 4 7)"
    by (simp_all add: set_wf_def seq_wf_def apart_def seq_ord_def mk_seq_def)
  have "SeqSet_insert (mk_seq 4 7) [mk_seq 1 3, mk_seq 8 0] = [mk_seq 1 0]"
    by (simp add: SeqSet_insert_def search_def search_loop.simps Seq_Less_def Seq_Merge_def
        Seq_Contains_def absorb_at_def mk_seq_def)
  with insert_range [OF wf] wf show ?thesis by (simp add: Seq_Contains_def mk_seq_def)
qed

end
