(* ===== verification/Imap.thy ===== *)
theory Imap
  imports SeqSet
begin

text \<open>
  The IMAP vocabulary of MailPump: the messages and mailbox status of the vendored go-imap
  library as far as the program reads them, the \<open>Client\<close> interface of \<open>imap/types.go\<close>
  as calls, what go-imap answers to a fetch or a store, the authenticators of
  \<open>imap/authenticator.go\<close> and the plain client of \<open>imap/client/client.go\<close>.
\<close>

section \<open>Messages and mailboxes\<close>

text \<open>
  \<open>time.Time\<close> is a number of nanoseconds, 0 for the zero time. A literal (a message
  body) is a string; a body the server sent as nil is \<open>None\<close> inside the section list.
\<close>

type_synonym time = int
type_synonym literal = string

record imap_message =
  SeqNum :: u32
  Uid :: u32
  Flags :: "string list"
  InternalDate :: time
  Body :: "(string \<times> literal option) list"

definition GetBody :: "imap_message \<Rightarrow> string \<Rightarrow> literal option" where
  "GetBody m section =
     (case map_of (Body m) section of
        None \<Rightarrow> None
      | Some None \<Rightarrow> Some []
      | Some (Some b) \<Rightarrow> Some b)"

record MailboxStatus =
  mb_Name :: string
  mb_Messages :: u32

definition DeletedFlag :: string where
  "DeletedFlag = [CHR 0x5C] @ ''Deleted''"

datatype FetchItem = FetchUid | FetchFlags | FetchRFC822 | FetchInternalDate

datatype FlagsOp = SetFlags | AddFlags | RemoveFlags

definition FormatFlagsOp :: "FlagsOp \<Rightarrow> bool \<Rightarrow> string" where
  "FormatFlagsOp opn silent =
     (case opn of SetFlags \<Rightarrow> '''' | AddFlags \<Rightarrow> ''+'' | RemoveFlags \<Rightarrow> ''-'')
       @ ''FLAGS'' @ (if silent then ''.SILENT'' else '''')"

section \<open>What go-imap delivers of a server's answers\<close>

text \<open>
  \<open>responses.Fetch.Handle\<close> looks at every FETCH answer that arrives while a command
  runs, unilateral ones included, and forwards to the caller only those the command asked
  for. A command answers the forwarded messages and an error, if there was one.
\<close>

definition Fetch_Handle :: "bool \<Rightarrow> SeqSet \<Rightarrow> imap_message \<Rightarrow> bool" where
  "Fetch_Handle uid seqset m =
     (if uid \<and> Uid m = 0 then False
      else (let num = (if uid then Uid m else SeqNum m) in
        \<not> (\<not> SeqSet_Contains seqset num \<and> (\<not> uid \<or> \<not> SeqSet_Dynamic seqset))))"

definition goimap_command ::
  "bool \<Rightarrow> SeqSet \<Rightarrow> imap_message list \<times> go_error option \<Rightarrow> imap_message list \<times> go_error option"
where
  "goimap_command uid seqset answer = (filter (Fetch_Handle uid seqset) (fst answer), snd answer)"

text \<open>
  The answers one goroutine of the receiver gets from its client: the status of the
  mailbox (nil when none is selected), and for a fetch or a store whatever the server
  sends, an arbitrary function of the command.
\<close>

record server_answers =
  sv_Mailbox :: "MailboxStatus option"
  sv_Fetch :: "SeqSet \<Rightarrow> FetchItem list \<Rightarrow> imap_message list \<times> go_error option"
  sv_UidStore :: "SeqSet \<Rightarrow> string \<Rightarrow> string list \<Rightarrow> imap_message list \<times> go_error option"
  sv_Expunge :: "go_error option"

definition cl_Fetch ::
  "server_answers \<Rightarrow> SeqSet \<Rightarrow> FetchItem list \<Rightarrow> imap_message list \<times> go_error option"
where
  "cl_Fetch sv seqset items = goimap_command False seqset (sv_Fetch sv seqset items)"

definition cl_UidStore ::
  "server_answers \<Rightarrow> SeqSet \<Rightarrow> string \<Rightarrow> string list \<Rightarrow> imap_message list \<times> go_error option"
where
  "cl_UidStore sv seqset item value = goimap_command True seqset (sv_UidStore sv seqset item value)"

lemma UidStore_requested:
  assumes "set_wf seqset" "0 \<notin> set_den seqset" "m \<in> set (fst (cl_UidStore sv seqset item value))"
  shows "Uid m \<noteq> 0 \<and> Uid m \<in> set_den seqset"
  using assms not_Dynamic [OF assms(1,2)]
  by (auto simp: cl_UidStore_def goimap_command_def Fetch_Handle_def Let_def
      SeqSet_Contains_iff split: if_splits)

lemma Fetch_requested:
  assumes "set_wf seqset" "m \<in> set (fst (cl_Fetch sv seqset items))"
  shows "SeqNum m \<noteq> 0 \<and> SeqNum m \<in> set_den seqset"
  using assms by (auto simp: cl_Fetch_def goimap_command_def Fetch_Handle_def Let_def
      SeqSet_Contains_iff split: if_splits)

section \<open>Authenticators\<close>

datatype sasl_client =
    PlainClient (pc_identity: string) (pc_username: string) (pc_password: string)
  | OAuthBearerClient (ob_username: string) (ob_token: string)

text \<open>The two calls of \<open>Authenticatable\<close>, answered by the server.\<close>

datatype auth_call = Login string string | Authenticate_SASL sasl_client

datatype authenticator =
    PlainAuthenticator (pa_username: string) (pa_password: string)
  | SASLAuthenticator (sa_client: sasl_client)
  | OAuthBearerAuthenticator (oa_username: string) (oa_token: string)

definition NewNormalAuthenticator :: "string \<Rightarrow> string \<Rightarrow> authenticator" where
  "NewNormalAuthenticator username password = PlainAuthenticator username password"

definition NewSASLAuthenticator :: "sasl_client \<Rightarrow> authenticator" where
  "NewSASLAuthenticator client = SASLAuthenticator client"

definition NewOAuthBearerAuthenticator :: "string \<Rightarrow> authenticator" where
  "NewOAuthBearerAuthenticator username = OAuthBearerAuthenticator username []"

text \<open>
  \<open>Authenticate\<close> gets the answer of the token source (an error or an access token) and
  the server's answer to a call; it returns the authenticator, whose stored token the
  OAuth case overwrites, the calls made, and the error.
\<close>

fun Authenticate ::
  "authenticator \<Rightarrow> go_error + string \<Rightarrow> (auth_call \<Rightarrow> go_error option) \<Rightarrow>
    authenticator \<times> auth_call list \<times> go_error option"
where
  "Authenticate (PlainAuthenticator u p) tok c =
     (PlainAuthenticator u p, [Login u p], c (Login u p))"
| "Authenticate (SASLAuthenticator cl) tok c =
     (SASLAuthenticator cl, [Authenticate_SASL cl], c (Authenticate_SASL cl))"
| "Authenticate (OAuthBearerAuthenticator u old) tok c =
     (case tok of
        Inl err \<Rightarrow> (OAuthBearerAuthenticator u old, [], Some err)
      | Inr t \<Rightarrow>
          (let call = Authenticate_SASL (OAuthBearerClient u t) in
           (OAuthBearerAuthenticator u t, [call], c call)))"

section \<open>Connections\<close>

text \<open>
  A TLS configuration is the one bit the program sets, \<open>InsecureSkipVerify\<close>.
\<close>

record ConnectionConfig =
  HostPort :: string
  Auth :: authenticator
  cc_Mailbox :: string
  TLS :: bool
  TLSConfig :: "bool option"
  cc_Debug :: bool

text \<open>
  What \<open>client.NewClient\<close> does to the outside: dialling (with the TLS configuration when
  it dials TLS), switching debug output on, the authentication calls, logging out.
\<close>

datatype conn_effect =
    DialTLS string "bool option"
  | DialPlain string
  | SetDebug
  | AuthCall auth_call
  | ConnLogout

text \<open>
  The deferred clean-up runs on every return after the dial: it logs out unless
  \<open>wantCleanup\<close> was cleared by a successful authentication.
\<close>

definition client_NewClient ::
  "ConnectionConfig \<Rightarrow> (conn_effect \<Rightarrow> go_error option) \<Rightarrow> go_error + string \<Rightarrow>
    (auth_call \<Rightarrow> go_error option) \<Rightarrow> (go_error + unit) \<times> conn_effect list"
where
  "client_NewClient cfg dial tok srv =
     (let d = (if TLS cfg then DialTLS (HostPort cfg) (TLSConfig cfg) else DialPlain (HostPort cfg)) in
      case dial d of
        Some err \<Rightarrow> (Inl err, [d])
      | None \<Rightarrow>
          (let debug = (if cc_Debug cfg then [SetDebug] else []) in
           case Authenticate (Auth cfg) tok srv of
             (_, calls, Some err) \<Rightarrow> (Inl err, [d] @ debug @ map AuthCall calls @ [ConnLogout])
           | (_, calls, None) \<Rightarrow> (Inr (), [d] @ debug @ map AuthCall calls)))"

section \<open>The calls of a client\<close>

text \<open>
  The methods of the \<open>Client\<close> interface that reach the server, as values. A plain client
  forwards each to the go-imap connection, \<open>FlagQuit\<close> apart, which does nothing there.
\<close>

datatype imap_call =
    CSelect string bool
  | CIdle
  | CFetch SeqSet "FetchItem list"
  | CExpunge
  | CUidStore SeqSet string "string list"
  | CAppend string "string list" time "literal option"
  | CMailbox
  | CLogout
  | CLoggedOut
  | CFlagQuit

fun standard_call :: "imap_call \<Rightarrow> imap_call list" where
  "standard_call CFlagQuit = []"
| "standard_call c = [c]"

section \<open>Properties\<close>

text \<open>
  Whatever the server sends while a UID STORE over a set of explicit UIDs runs,
  answers about other messages included, the program only sees messages whose UID it
  asked for; and a FETCH by sequence numbers only yields the numbers asked for.
\<close>

theorem answers_were_requested:
  assumes "0 \<notin> set uids"
  shows "set (map Uid (fst (cl_UidStore sv (AddNum uids []) item value))) \<subseteq> set uids
    \<and> set (map SeqNum (fst (cl_Fetch sv (AddNum uids []) items))) \<subseteq> set uids"
  using assms UidStore_requested [of "AddNum uids []"] Fetch_requested [of "AddNum uids []"]
  by (auto simp: AddNum_wf AddNum_den)

theorem answers_were_requested_witness:
  "set (map Uid (fst (cl_UidStore
      \<lparr>sv_Mailbox = None, sv_Fetch = \<lambda>_ _. ([], None), sv_UidStore = \<lambda>_ _ _.
        ([\<lparr>SeqNum = 1, Uid = 7, Flags = [], InternalDate = 0, Body = []\<rparr>,
          \<lparr>SeqNum = 2, Uid = 8, Flags = [], InternalDate = 0, Body = []\<rparr>], None),
       sv_Expunge = None\<rparr> (AddNum [7] []) ''+FLAGS'' []))) \<subseteq> {7}"
  using answers_were_requested [of "[7]"] by simp

text \<open>
  A connection that \<open>NewClient\<close> dialled but does not return is closed: after a
  failed authentication the log-out is the last thing it does and happens once; a client
  that is returned is never logged out; a failed dial is followed by nothing.
\<close>

theorem new_client_cleanup:
  "case client_NewClient cfg dial tok srv of
     (Inl err, effs) \<Rightarrow> (\<exists>d. effs = [d] \<and> dial d = Some err)
        \<or> (last effs = ConnLogout \<and> count_list effs ConnLogout = 1
           \<and> snd (snd (Authenticate (Auth cfg) tok srv)) = Some err)
   | (Inr _, effs) \<Rightarrow> ConnLogout \<notin> set effs
        \<and> snd (snd (Authenticate (Auth cfg) tok srv)) = None"
proof -
  have none: "count_list (map AuthCall calls) ConnLogout = 0" for calls
    by (induction calls) auto
  show ?thesis
    by (auto simp: client_NewClient_def Let_def none split: option.splits prod.splits if_splits)
qed

text \<open>
  An OAuth authenticator asks its token source on every attempt: when the source
  fails nothing is sent to the server and the source's error is returned; otherwise the
  one call made carries the fresh token, whatever token an earlier attempt stored.
\<close>

theorem oauth_uses_fresh_token:
  "Authenticate (OAuthBearerAuthenticator u old) (Inl err) srv
      = (OAuthBearerAuthenticator u old, [], Some err)
   \<and> Authenticate (fst (Authenticate (OAuthBearerAuthenticator u old) (Inr t) srv)) (Inr t') srv
      = (OAuthBearerAuthenticator u t', [Authenticate_SASL (OAuthBearerClient u t')],
         srv (Authenticate_SASL (OAuthBearerClient u t')))"
  by (simp add: Let_def)

end
