(* ===== verification/ReceiverImap.thy ===== *)
theory ReceiverImap
  imports Imap
begin

text \<open>
  The states and results of \<open>receiver/types.go\<close> and the work the receiver's goroutines do
  on the server (\<open>receiver/imap.go\<close>, \<open>receiver/util.go\<close>): choosing what to fetch, reading
  the messages, flagging acknowledged messages as deleted and expunging them.
\<close>

section \<open>States and operations\<close>

datatype state = StateUnacked | StateAcked | StateDeleted

fun state_String :: "state \<Rightarrow> string" where
  "state_String StateUnacked = ''StateUnacked''"
| "state_String StateAcked = ''StateAcked''"
| "state_String StateDeleted = ''StateDeleted''"

datatype operation =
    OperationNone | OperationIDLEFinish | OperationFetchFinish | OperationDeleteFinish
  | OperationTimeout

fun operation_String :: "operation \<Rightarrow> string" where
  "operation_String OperationNone = ''none''"
| "operation_String OperationIDLEFinish = ''idle_finish''"
| "operation_String OperationFetchFinish = ''fetch_finish''"
| "operation_String OperationDeleteFinish = ''delete_finish''"
| "operation_String OperationTimeout = ''timeout''"

datatype sstate = StateNone | StateInIDLE | StateInFetch | StateInDelete

fun sstate_String :: "sstate \<Rightarrow> string" where
  "sstate_String StateNone = ''none''"
| "sstate_String StateInIDLE = ''in_idle''"
| "sstate_String StateInFetch = ''in_fetch''"
| "sstate_String StateInDelete = ''in_delete''"

record messageState =
  ms_UID :: u32
  ms_SeqNum :: u32
  ms_Message :: imap_message
  ms_State :: state

record fetchResult =
  fr_UIDs :: "u32 list"
  fr_Messages :: "u32 \<rightharpoonup> imap_message"

record deleteResult =
  dr_UID :: u32
  dr_State :: state

section \<open>What to fetch\<close>

text \<open>
  The sequence numbers of the known messages, collected in the order the map is visited.
\<close>

definition buildCurrentSequence :: "(u32 \<rightharpoonup> messageState) \<Rightarrow> u32 list \<Rightarrow> SeqSet" where
  "buildCurrentSequence known order =
     foldl (\<lambda>existing k. AddNum [ms_SeqNum (the (known k))] existing) [] order"

lemma Contains_nonzero: "SeqSet_Contains xs q \<Longrightarrow> q \<noteq> 0"
  by (simp add: SeqSet_Contains_def split: if_splits)

lemma unat_add_1:
  "unat (q + 1 :: 'a::len word) = (if q = - 1 then 0 else Suc (unat q))"
proof (cases "q = - 1")
  case False
  then have "1 + q \<noteq> 0" by (metis add.commute eq_neg_iff_add_eq_0)
  then have "unat (1 + q) = Suc (unat q)" by (rule unatSuc)
  with False show ?thesis by (simp add: add.commute)
qed simp

text \<open>
  The loop counter is a \<open>uint32\<close> and wraps after its largest value. It stops all the
  same: 0 is never contained in a set, so a wrapped counter adds to the result.
\<close>

function buildSeqSet_loop ::
  "SeqSet \<Rightarrow> u32 \<Rightarrow> uint \<Rightarrow> uint \<Rightarrow> u32 \<Rightarrow> SeqSet \<Rightarrow> SeqSet"
where
  "buildSeqSet_loop existing messages maxSize i next seq =
     (if i < maxSize \<and> next \<le> messages then
        (if SeqSet_Contains existing next
         then buildSeqSet_loop existing messages maxSize i (next + 1) seq
         else buildSeqSet_loop existing messages maxSize (i + 1) (next + 1) (AddNum [next] seq))
      else seq)"
  by pat_completeness auto

termination
proof (relation "measures [\<lambda>(_, _, mx, i, _, _). unat mx - unat i,
    \<lambda>(_, _, _, _, n, _). if n = 0 then 0 else 2 ^ 32 - unat n]", goal_cases)
  case 1
  show ?case by simp
next
  case (2 existing messages maxSize i "next" seq)
  then have "next \<noteq> 0" by (auto dest: Contains_nonzero)
  with unat_u32 [of "next"] show ?case
    by (auto simp: unat_add_1 unat_eq_zero)
next
  case (3 existing messages maxSize i "next" seq)
  then have "i \<noteq> - 1" by (metis word_not_simps(3))
  with 3 have "unat maxSize - unat (i + 1) < unat maxSize - unat i"
    by (simp add: unat_add_1 word_less_nat_alt diff_less_mono2)
  then show ?case by simp
qed

definition buildSeqSet :: "SeqSet \<Rightarrow> MailboxStatus \<Rightarrow> uint \<Rightarrow> SeqSet" where
  "buildSeqSet existing mbStatus maxSize =
     buildSeqSet_loop existing (mb_Messages mbStatus) maxSize 0 1 []"

section \<open>Reading messages\<close>

definition readMessages ::
  "imap_message list \<Rightarrow> u32 list \<Rightarrow> u32 list \<times> (u32 \<rightharpoonup> imap_message)"
where
  "readMessages ch order =
     (let unique = foldl (\<lambda>m msg. m(Uid msg \<mapsto> msg)) Map.empty ch in (sort order, unique))"

section \<open>The fetch and delete goroutines\<close>

text \<open>
  \<open>doFetch\<close> returns what it writes to its result channel: nothing, or one fetch result.
\<close>

definition doFetch ::
  "server_answers \<Rightarrow> SeqSet \<Rightarrow> uint \<Rightarrow> u32 list \<Rightarrow> bool \<times> fetchResult list"
where
  "doFetch sv existing maxSize order =
     (case sv_Mailbox sv of
        None \<Rightarrow> (False, [])
      | Some mbStatus \<Rightarrow>
          if mb_Messages mbStatus = 0 then (False, [])
          else
            (let seqset = buildSeqSet existing mbStatus maxSize in
             if SeqSet_Empty seqset then (False, [])
             else
               (let (ch, err) = cl_Fetch sv seqset [FetchUid, FetchFlags, FetchRFC822];
                    (uids, messages) = readMessages ch order
                in case err of
                     Some _ \<Rightarrow> (False, [])
                   | None \<Rightarrow> (False, [\<lparr>fr_UIDs = uids, fr_Messages = messages\<rparr>]))))"

text \<open>
  \<open>doDelete\<close> first walks over the messages it was given, in map order: acknowledged ones
  are collected, already deleted ones are answered at once. The collected messages are a
  Go map of which only the size is read; its keys are those of the visited map, each once,
  so an association list in the order of insertion stands for it.
\<close>

fun collect_deletions ::
  "(u32 \<rightharpoonup> messageState) \<Rightarrow> u32 list \<Rightarrow> (u32 \<times> imap_message) list \<Rightarrow> SeqSet \<Rightarrow>
    deleteResult list \<Rightarrow> (u32 \<times> imap_message) list \<times> SeqSet \<times> deleteResult list"
where
  "collect_deletions toProcess [] toDelete deleteSet sent = (toDelete, deleteSet, sent)"
| "collect_deletions toProcess (uid # uids) toDelete deleteSet sent =
     (let msg = the (toProcess uid) in
      if ms_State msg = StateAcked
      then collect_deletions toProcess uids (toDelete @ [(uid, ms_Message msg)])
             (AddNum [uid] deleteSet) sent
      else if ms_State msg = StateDeleted
      then collect_deletions toProcess uids toDelete deleteSet
             (sent @ [\<lparr>dr_UID = ms_UID msg, dr_State = StateDeleted\<rparr>])
      else collect_deletions toProcess uids toDelete deleteSet sent)"

definition delete_answer :: "imap_message \<Rightarrow> deleteResult" where
  "delete_answer msg =
     (let found = list_ex (\<lambda>f. f = DeletedFlag) (Flags msg) in
      if found then \<lparr>dr_UID = Uid msg, dr_State = StateDeleted\<rparr>
      else \<lparr>dr_UID = Uid msg, dr_State = StateAcked\<rparr>)"

text \<open>
  It returns what it writes to the result channel and the calls it makes. Errors of the
  store and of the expunge are logged only.
\<close>

definition doDelete ::
  "server_answers \<Rightarrow> (u32 \<rightharpoonup> messageState) \<Rightarrow> u32 list \<Rightarrow> deleteResult list \<times> imap_call list"
where
  "doDelete sv toProcess order =
     (let (toDelete, deleteSet, sent) = collect_deletions toProcess order [] [] [];
          item = FormatFlagsOp AddFlags False;
          (answers, calls) =
            (if length toDelete > 0
             then (map delete_answer (fst (cl_UidStore sv deleteSet item [DeletedFlag])),
                   [CUidStore deleteSet item [DeletedFlag]])
             else ([], []))
      in (sent @ answers, calls @ [CExpunge]))"

section \<open>What the goroutines compute\<close>

declare buildSeqSet_loop.simps [simp del]

lemma buildCurrentSequence_eq:
  "buildCurrentSequence known order = AddNum (map (\<lambda>k. ms_SeqNum (the (known k))) order) []"
proof -
  have "foldl (\<lambda>s k. AddNum [f k] s) xs order = AddNum (map f order) xs" for f xs
    by (induction order arbitrary: xs) (simp_all add: AddNum_def)
  then show ?thesis by (simp add: buildCurrentSequence_def)
qed

text \<open>The sequence numbers of a mailbox, and the unknown ones among them.\<close>

definition mailbox_numbers :: "u32 \<Rightarrow> u32 list" where
  "mailbox_numbers n = map word_of_nat [1..<Suc (unat n)]"

definition fetch_numbers :: "SeqSet \<Rightarrow> u32 \<Rightarrow> uint \<Rightarrow> u32 list" where
  "fetch_numbers existing n maxSize =
     take (unat maxSize) (filter (\<lambda>q. \<not> SeqSet_Contains existing q) (mailbox_numbers n))"

lemma set_mailbox_numbers: "set (mailbox_numbers n) = {q. 1 \<le> q \<and> q \<le> n}"
proof -
  have "q \<in> word_of_nat ` {1..<Suc (unat n)}" if "1 \<le> q" "q \<le> n" for q
    using that by (intro image_eqI [of _ _ "unat q"]) (auto simp: word_le_nat_alt)
  moreover have "1 \<le> (word_of_nat k :: u32) \<and> (word_of_nat k :: u32) \<le> n"
    if "1 \<le> k" "k < Suc (unat n)" for k
  proof -
    have "unat (word_of_nat k :: u32) = k"
      using that unat_u32 [of n] by (simp add: unsigned_of_nat take_bit_nat_eq_self)
    with that show ?thesis by (simp add: word_le_nat_alt)
  qed
  ultimately have "word_of_nat ` {1..<Suc (unat n)} = {q :: u32. 1 \<le> q \<and> q \<le> n}"
    by fastforce
  then show ?thesis by (simp add: mailbox_numbers_def del: upt_Suc)
qed

lemma buildSeqSet_loop_eq:
  assumes "n \<noteq> - 1" "1 \<le> next" "unat next \<le> Suc (unat n)"
  shows "buildSeqSet_loop existing n maxSize i next seq =
    AddNum (take (unat maxSize - unat i) (filter (\<lambda>q. \<not> SeqSet_Contains existing q)
      (map word_of_nat [unat next..<Suc (unat n)]))) seq"
  using assms
proof (induction existing n maxSize i "next" seq rule: buildSeqSet_loop.induct)
  case (1 existing n maxSize i "next" seq)
  show ?case
  proof (cases "i < maxSize \<and> next \<le> n")
    case False
    then have "unat maxSize - unat i = 0 \<or> [unat next..<Suc (unat n)] = []"
      by (auto simp: word_less_nat_alt word_le_nat_alt)
    with False show ?thesis 
      by (auto simp: buildSeqSet_loop.simps [of existing n maxSize i "next" seq] AddNum_def)
  next
    case True
    have last: "next \<noteq> - 1"
    proof
      assume "next = - 1"
      with True have "n = - 1" by (metis word_order.extremum_unique)
      with "1.prems"(1) show False by simp
    qed
    from True have step: "unat (next + 1) = Suc (unat next)" "1 \<le> next + 1"
        "unat (next + 1) \<le> Suc (unat n)" "unat next < Suc (unat n)"
      using "1.prems" last by (auto simp: unat_add_1 word_le_nat_alt)
    have upt: "[unat next..<Suc (unat n)] = unat next # [Suc (unat next)..<Suc (unat n)]"
      using step(4) by (simp add: upt_conv_Cons)
    have "i \<noteq> - 1" using True by (metis word_not_simps(3))
    then have i: "unat maxSize - unat i = Suc (unat maxSize - unat (i + 1))"
      using True by (simp add: unat_add_1 word_less_nat_alt Suc_diff_Suc)
    have eq: "buildSeqSet_loop existing n maxSize i next seq =
        (if SeqSet_Contains existing next
         then buildSeqSet_loop existing n maxSize i (next + 1) seq
         else buildSeqSet_loop existing n maxSize (i + 1) (next + 1) (AddNum [next] seq))"
      using True by (subst buildSeqSet_loop.simps) simp
    show ?thesis
    proof (cases "SeqSet_Contains existing next")
      case c: True
      note "1.IH"(1) [OF True c "1.prems"(1) step(2,3)]
      with c show ?thesis by (simp add: eq upt step(1) del: upt_Suc)
    next
      case c: False
      note "1.IH"(2) [OF True c "1.prems"(1) step(2,3)]
      with c show ?thesis
        by (simp add: eq upt step(1) i AddNum_def del: upt_Suc)
    qed
  qed
qed

lemma buildSeqSet_eq:
  assumes "mb_Messages mb \<noteq> - 1"
  shows "buildSeqSet existing mb maxSize =
    AddNum (fetch_numbers existing (mb_Messages mb) maxSize) []"
  using buildSeqSet_loop_eq [OF assms, of 1 existing maxSize 0 "[]"]
  by (simp add: buildSeqSet_def fetch_numbers_def mailbox_numbers_def)

lemma fetch_numbers_sorted: "sorted_wrt (<) (mailbox_numbers n)"
proof -
  have "sorted_wrt (<) (map (word_of_nat :: nat \<Rightarrow> u32) xs)"
    if "sorted_wrt (<) xs" "\<forall>k\<in>set xs. k < 2 ^ 32" for xs
    using that
    by (induction xs) (auto simp: word_less_nat_alt unsigned_of_nat take_bit_nat_eq_self)
  moreover have "\<forall>k\<in>set [1..<Suc (unat n)]. k < 2 ^ 32"
    using unat_u32 [of n] by auto
  ultimately show ?thesis by (simp add: mailbox_numbers_def sorted_wrt_upt del: upt_Suc)
qed

lemma sorted_take_lowest:
  assumes "sorted_wrt (<) (xs :: 'a::linorder list)" "p \<in> set (take k xs)" "q \<in> set xs" "q < p"
  shows "q \<in> set (take k xs)"
proof (rule ccontr)
  assume "q \<notin> set (take k xs)"
  with assms(3) have "q \<in> set (drop k xs)"
    by (metis UnE append_take_drop_id set_append)
  with assms(1,2) have "p < q"
    by (metis append_take_drop_id sorted_wrt_append)
  with assms(4) show False by simp
qed

definition unknown_numbers :: "SeqSet \<Rightarrow> MailboxStatus \<Rightarrow> u32 set" where
  "unknown_numbers existing mb =
     {q. 1 \<le> q \<and> q \<le> mb_Messages mb \<and> \<not> SeqSet_Contains existing q}"

lemma fetch_numbers_spec:
  fixes existing mb maxSize
  defines "P \<equiv> set (fetch_numbers existing (mb_Messages mb) maxSize)"
  shows "P \<subseteq> unknown_numbers existing mb"
    and "card P = min (unat maxSize) (card (unknown_numbers existing mb))"
    and "\<forall>p\<in>P. \<forall>q\<in>unknown_numbers existing mb. q < p \<longrightarrow> q \<in> P"
    and "0 \<notin> P"
proof -
  let ?f = "filter (\<lambda>q. \<not> SeqSet_Contains existing q) (mailbox_numbers (mb_Messages mb))"
  have sorted: "sorted_wrt (<) ?f" by (rule sorted_wrt_filter [OF fetch_numbers_sorted])
  then have "distinct ?f" by (simp add: strict_sorted_iff)
  have f: "set ?f = unknown_numbers existing mb"
    by (auto simp: set_mailbox_numbers unknown_numbers_def)
  show sub: "P \<subseteq> unknown_numbers existing mb"
    unfolding P_def fetch_numbers_def f [symmetric] by (rule set_take_subset)
  then show "0 \<notin> P" by (auto simp: unknown_numbers_def)
  show "card P = min (unat maxSize) (card (unknown_numbers existing mb))"
    using \<open>distinct ?f\<close> distinct_card [of "take (unat maxSize) ?f"] distinct_card [of ?f]
    by (simp add: P_def fetch_numbers_def f [symmetric])
  show "\<forall>p\<in>P. \<forall>q\<in>unknown_numbers existing mb. q < p \<longrightarrow> q \<in> P"
    using sorted_take_lowest [OF sorted] by (auto simp: P_def fetch_numbers_def f [symmetric])
qed

lemma readMessages_lookup:
  assumes "foldl (\<lambda>m msg. m(Uid msg \<mapsto> msg)) m0 ch uid = Some msg" "m0 uid \<noteq> Some msg"
  shows "msg \<in> set ch \<and> Uid msg = uid"
  using assms
  by (induction ch arbitrary: m0) (fastforce split: if_splits)+

lemma readMessages_last:
  "foldl (\<lambda>m msg. m(Uid msg \<mapsto> msg)) m0 ch uid =
    (case filter (\<lambda>m. Uid m = uid) ch of [] \<Rightarrow> m0 uid | ms \<Rightarrow> Some (last ms))"
  by (induction ch arbitrary: m0) (auto split: list.splits)

lemma readMessages_dom: "dom (snd (readMessages ch order)) = Uid ` set ch"
proof -
  have "dom (foldl (\<lambda>m msg. m(Uid msg \<mapsto> msg)) m0 ch) = dom m0 \<union> Uid ` set ch" for m0
    by (induction ch arbitrary: m0) auto
  then show ?thesis by (simp add: readMessages_def Let_def)
qed

lemma collect_deletions_eq:
  "collect_deletions toProcess uids toDelete deleteSet sent =
    (toDelete @ map (\<lambda>u. (u, ms_Message (the (toProcess u))))
       (filter (\<lambda>u. ms_State (the (toProcess u)) = StateAcked) uids),
     AddNum (filter (\<lambda>u. ms_State (the (toProcess u)) = StateAcked) uids) deleteSet,
     sent @ map (\<lambda>u. \<lparr>dr_UID = ms_UID (the (toProcess u)), dr_State = StateDeleted\<rparr>)
       (filter (\<lambda>u. ms_State (the (toProcess u)) = StateDeleted) uids))"
  by (induction uids arbitrary: toDelete deleteSet sent) (auto simp: Let_def AddNum_def)

definition acked_uids :: "(u32 \<rightharpoonup> messageState) \<Rightarrow> u32 list \<Rightarrow> u32 list" where
  "acked_uids toProcess order =
     filter (\<lambda>u. ms_State (the (toProcess u)) = StateAcked) order"

lemma doDelete_calls:
  "snd (doDelete sv toProcess order) =
    (if acked_uids toProcess order = [] then [CExpunge]
     else [CUidStore (AddNum (acked_uids toProcess order) []) (FormatFlagsOp AddFlags False)
             [DeletedFlag], CExpunge])"
  by (simp add: doDelete_def collect_deletions_eq Let_def acked_uids_def)

lemma delete_answer_UID [simp]: "dr_UID (delete_answer m) = Uid m"
  by (simp add: delete_answer_def Let_def)

lemma delete_answer_State: "dr_State (delete_answer m) \<noteq> StateUnacked"
  by (simp add: delete_answer_def Let_def)

lemma doDelete_results:
  assumes "r \<in> set (fst (doDelete sv toProcess order))"
    and "0 \<notin> set (acked_uids toProcess order)"
  shows "(\<exists>u\<in>set order. ms_State (the (toProcess u)) = StateDeleted
      \<and> r = \<lparr>dr_UID = ms_UID (the (toProcess u)), dr_State = StateDeleted\<rparr>)
    \<or> (dr_UID r \<in> set (acked_uids toProcess order) \<and> dr_State r \<noteq> StateUnacked)"
proof -
  have "Uid m \<in> set (acked_uids toProcess order)"
    if "m \<in> set (fst (cl_UidStore sv (AddNum (acked_uids toProcess order) []) item val))" for m item val
    using UidStore_requested [OF _ _ that] assms(2) by (simp add: AddNum_wf AddNum_den)
  with assms(1) show ?thesis
    by (auto simp: doDelete_def collect_deletions_eq Let_def acked_uids_def delete_answer_State
        split: if_splits)
qed

section \<open>Properties\<close>

text \<open>
  C36: the set to fetch holds the lowest sequence numbers of the mailbox that are not known
  yet, as many as there are up to the buffer size: each is a number of the mailbox that is
  not in the known set, there are the smaller of the buffer size and the number of unknown
  messages of them, and no unknown number below a chosen one is left out. (The one mailbox
  size excluded is the largest \<open>uint32\<close>, where the loop counter wraps.)
\<close>

theorem build_seq_set_lowest_unknown:
  assumes "mb_Messages mb \<noteq> - 1"
  shows "let picked = {q. SeqSet_Contains (buildSeqSet existing mb maxSize) q};
             unknown = {q. 1 \<le> q \<and> q \<le> mb_Messages mb \<and> \<not> SeqSet_Contains existing q}
    in set_wf (buildSeqSet existing mb maxSize) \<and> picked \<subseteq> unknown
      \<and> card picked = min (unat maxSize) (card unknown)
      \<and> (\<forall>p\<in>picked. \<forall>q\<in>unknown. q < p \<longrightarrow> q \<in> picked)"
proof -
  have "{q. SeqSet_Contains (buildSeqSet existing mb maxSize) q} =
      set (fetch_numbers existing (mb_Messages mb) maxSize)"
    using fetch_numbers_spec(4) [of existing mb maxSize]
    by (auto simp: buildSeqSet_eq [OF assms] Contains_AddNum)
  then show ?thesis
    using fetch_numbers_spec [of existing mb maxSize]
    by (simp add: Let_def buildSeqSet_eq [OF assms] AddNum_wf flip: unknown_numbers_def)
qed

theorem build_seq_set_lowest_unknown_witness:
  "mb_Messages \<lparr>mb_Name = ''INBOX'', mb_Messages = 6\<rparr> \<noteq> - 1 \<and>
   buildSeqSet [mk_seq 1 2, mk_seq 4 4] \<lparr>mb_Name = ''INBOX'', mb_Messages = 6\<rparr> 2
     = [mk_seq 3 3, mk_seq 5 5] \<and>
   set_wf (buildSeqSet [mk_seq 1 2, mk_seq 4 4] \<lparr>mb_Name = ''INBOX'', mb_Messages = 6\<rparr> 2)"
proof -
  have ne: "mb_Messages \<lparr>mb_Name = ''INBOX'', mb_Messages = 6\<rparr> \<noteq> - 1" by simp
  have "buildSeqSet [mk_seq 1 2, mk_seq 4 4] \<lparr>mb_Name = ''INBOX'', mb_Messages = 6\<rparr> 2
     = [mk_seq 3 3, mk_seq 5 5]"
    by (simp add: buildSeqSet_def buildSeqSet_loop.simps SeqSet_Contains_def AddNum_def
        SeqSet_insert_def search_def search_loop.simps Seq_Less_def Seq_Merge_def
        Seq_Contains_def insertAt_def mk_seq_def)
  with build_seq_set_lowest_unknown [OF ne, of "[mk_seq 1 2, mk_seq 4 4]" 2] ne
  show ?thesis by (simp add: Let_def)
qed

text \<open>
  Reading a batch of messages drops duplicates: whatever order the map is visited in,
  the UIDs come out strictly increasing and are those of the batch, and of several
  messages with one UID the last one received is kept.
\<close>

theorem read_messages_unique_sorted:
  assumes "map_iteration (snd (readMessages ch order)) order"
  shows "sorted_wrt (<) (fst (readMessages ch order))
    \<and> set (fst (readMessages ch order)) = Uid ` set ch
    \<and> (\<forall>uid \<in> Uid ` set ch. snd (readMessages ch order) uid =
          Some (last (filter (\<lambda>m. Uid m = uid) ch)))"
proof -
  have "fst (readMessages ch order) = sorted_list_of_set (Uid ` set ch)"
    using map_iteration_sort [OF assms] by (simp add: readMessages_dom) (simp add: readMessages_def Let_def)
  moreover have "snd (readMessages ch order) uid = Some (last (filter (\<lambda>m. Uid m = uid) ch))"
    if "uid \<in> Uid ` set ch" for uid
  proof -
    have "filter (\<lambda>m. Uid m = uid) ch \<noteq> []" using that by (auto simp: filter_empty_conv)
    then show ?thesis
      by (simp add: readMessages_def Let_def readMessages_last split: list.splits)
  qed
  ultimately show ?thesis by simp
qed

theorem read_messages_unique_sorted_witness:
  "let m1 = \<lparr>SeqNum = 1, Uid = 9, Flags = [], InternalDate = 0, Body = []\<rparr>;
       m2 = \<lparr>SeqNum = 2, Uid = 4, Flags = [], InternalDate = 0, Body = []\<rparr>;
       m3 = \<lparr>SeqNum = 1, Uid = 9, Flags = [''x''], InternalDate = 0, Body = []\<rparr>
   in map_iteration (snd (readMessages [m1, m2, m3] [9, 4])) [9, 4]
     \<and> fst (readMessages [m1, m2, m3] [9, 4]) = [4, 9]
     \<and> set (fst (readMessages [m1, m2, m3] [9, 4])) = {9, 4}"
proof -
  let ?m1 = "\<lparr>SeqNum = 1, Uid = 9, Flags = [], InternalDate = 0, Body = []\<rparr>"
  let ?m2 = "\<lparr>SeqNum = 2, Uid = 4, Flags = [], InternalDate = 0, Body = []\<rparr>"
  let ?m3 = "\<lparr>SeqNum = 1, Uid = 9, Flags = [''x''], InternalDate = 0, Body = []\<rparr>"
  have it: "map_iteration (snd (readMessages [?m1, ?m2, ?m3] [9, 4])) [9, 4]"
    by (auto simp: map_iteration_def readMessages_def)
  from read_messages_unique_sorted [OF this] it show ?thesis
    by (simp add: Let_def readMessages_def insert_commute)
qed

text \<open>
  C35: a fetch never returns a message that is already known: every message a finished
  fetch writes to its channel is filed under its own UID and carries a sequence number of
  the mailbox that was asked for, hence not one of the known messages. A failed fetch and
  one with nothing to ask for write nothing.
\<close>

theorem do_fetch_only_unknown:
  assumes "sv_Mailbox sv = Some mb" and "mb_Messages mb \<noteq> - 1"
    and "r \<in> set (snd (doFetch sv existing maxSize order))"
    and "fr_Messages r uid = Some m"
  shows "Uid m = uid \<and> SeqNum m \<in> {q. 1 \<le> q \<and> q \<le> mb_Messages mb
      \<and> \<not> SeqSet_Contains existing q}"
proof -
  let ?set = "buildSeqSet existing mb maxSize"
  have "m \<in> set (fst (cl_Fetch sv ?set [FetchUid, FetchFlags, FetchRFC822]))" "Uid m = uid"
    using assms readMessages_lookup [of Map.empty _ uid m]
    by (auto simp: doFetch_def readMessages_def Let_def split: if_splits option.splits prod.splits)
  moreover have "set_wf ?set" by (simp add: buildSeqSet_eq assms(2) AddNum_wf)
  ultimately have "SeqNum m \<in> set_den ?set" "Uid m = uid"
    using Fetch_requested by blast+
  then show ?thesis
    using fetch_numbers_spec(1) [of existing mb maxSize]
    by (auto simp: buildSeqSet_eq assms(2) AddNum_den unknown_numbers_def)
qed

theorem do_fetch_only_unknown_witness:
  "let m = \<lparr>SeqNum = 2, Uid = 9, Flags = [], InternalDate = 0, Body = []\<rparr>;
       mb = \<lparr>mb_Name = ''INBOX'', mb_Messages = 2\<rparr>;
       sv = \<lparr>sv_Mailbox = Some mb, sv_Fetch = \<lambda>_ _. ([m], None),
             sv_UidStore = \<lambda>_ _ _. ([], None), sv_Expunge = None\<rparr>
   in snd (doFetch sv [mk_seq 1 1] 20 [9]) = [\<lparr>fr_UIDs = [9], fr_Messages = [9 \<mapsto> m]\<rparr>]
     \<and> SeqNum m \<in> {q. 1 \<le> q \<and> q \<le> 2 \<and> \<not> SeqSet_Contains [mk_seq 1 1] q}"
proof -
  let ?m = "\<lparr>SeqNum = 2, Uid = 9, Flags = [], InternalDate = 0, Body = []\<rparr>"
  let ?mb = "\<lparr>mb_Name = ''INBOX'', mb_Messages = 2\<rparr>"
  let ?sv = "\<lparr>sv_Mailbox = Some ?mb, sv_Fetch = \<lambda>_ _. ([?m], None),
             sv_UidStore = \<lambda>_ _ _. ([], None), sv_Expunge = None\<rparr>"
  let ?r = "\<lparr>fr_UIDs = [9], fr_Messages = [9 \<mapsto> ?m]\<rparr>"
  have "buildSeqSet [mk_seq 1 1] ?mb 20 = [mk_seq 2 2]"
    by (simp add: buildSeqSet_def buildSeqSet_loop.simps SeqSet_Contains_def AddNum_def
        SeqSet_insert_def search_def search_loop.simps Seq_Less_def Seq_Contains_def
        insertAt_def mk_seq_def)
  then have r: "snd (doFetch ?sv [mk_seq 1 1] 20 [9]) = [?r]"
    by (simp add: doFetch_def SeqSet_Empty_def cl_Fetch_def goimap_command_def Fetch_Handle_def
        SeqSet_Contains_def search_def search_loop.simps Seq_Less_def Seq_Contains_def
        readMessages_def mk_seq_def Let_def)
  have "SeqNum ?m \<in> {q. 1 \<le> q \<and> q \<le> mb_Messages ?mb \<and> \<not> SeqSet_Contains [mk_seq 1 1] q}"
    by (rule do_fetch_only_unknown [of ?sv ?mb ?r "[mk_seq 1 1]" 20 "[9]" 9, THEN conjunct2])
      (simp_all add: r)
  with r show ?thesis by (simp add: Let_def)
qed

text \<open>
  C21: a deletion run flags exactly the acknowledged messages it was given and expunges
  afterwards, in that order; without an acknowledged message it sends no store. Every
  result it reports is about a message it was given: one that was already deleted, or an
  acknowledged one, reported as deleted or as still to be deleted.
\<close>

theorem do_delete_only_acked:
  fixes sv toProcess order
  defines "acked \<equiv> filter (\<lambda>u. ms_State (the (toProcess u)) = StateAcked) order"
  assumes "map_iteration toProcess order" and "toProcess 0 = None"
  shows "snd (doDelete sv toProcess order) =
      (if acked = [] then [CExpunge]
       else [CUidStore (AddNum acked []) ''+FLAGS'' [DeletedFlag], CExpunge])
    \<and> (\<forall>q. SeqSet_Contains (AddNum acked []) q =
         (\<exists>msg. toProcess q = Some msg \<and> ms_State msg = StateAcked))
    \<and> (\<forall>r\<in>set (fst (doDelete sv toProcess order)).
         (\<exists>u msg. toProcess u = Some msg \<and> ms_State msg = StateDeleted
            \<and> r = \<lparr>dr_UID = ms_UID msg, dr_State = StateDeleted\<rparr>)
         \<or> (\<exists>msg. toProcess (dr_UID r) = Some msg \<and> ms_State msg = StateAcked))"
proof (intro conjI ballI)
  note it = map_iterationD [OF assms(2)]
  have "0 \<notin> set order" using it(2) assms(3) by auto
  then have zero: "0 \<notin> set (acked_uids toProcess order)"
    by (simp add: acked_uids_def)
  have dom: "\<exists>msg. toProcess u = Some msg" if "u \<in> set order" for u
    using it(2) that by blast
  show "snd (doDelete sv toProcess order) =
      (if acked = [] then [CExpunge]
       else [CUidStore (AddNum acked []) ''+FLAGS'' [DeletedFlag], CExpunge])"
    using doDelete_calls [of sv toProcess order]
    by (simp add: acked_def acked_uids_def FormatFlagsOp_def)
  have "q \<in> set acked \<longleftrightarrow> (\<exists>msg. toProcess q = Some msg \<and> ms_State msg = StateAcked)" for q
    using it(2) by (force simp: acked_def)
  then show "\<forall>q. SeqSet_Contains (AddNum acked []) q =
      (\<exists>msg. toProcess q = Some msg \<and> ms_State msg = StateAcked)"
    using assms(3) by (auto simp: Contains_AddNum)
  fix r
  assume "r \<in> set (fst (doDelete sv toProcess order))"
  from doDelete_results [OF this zero]
  show "(\<exists>u msg. toProcess u = Some msg \<and> ms_State msg = StateDeleted
            \<and> r = \<lparr>dr_UID = ms_UID msg, dr_State = StateDeleted\<rparr>)
         \<or> (\<exists>msg. toProcess (dr_UID r) = Some msg \<and> ms_State msg = StateAcked)"
    using dom by (fastforce simp: acked_uids_def)
qed

theorem do_delete_only_acked_witness:
  "let m = \<lparr>SeqNum = 2, Uid = 9, Flags = [DeletedFlag], InternalDate = 0, Body = []\<rparr>;
       tp = [9 \<mapsto> \<lparr>ms_UID = 9, ms_SeqNum = 2, ms_Message = m, ms_State = StateAcked\<rparr>];
       sv = \<lparr>sv_Mailbox = None, sv_Fetch = \<lambda>_ _. ([], None),
             sv_UidStore = \<lambda>_ _ _. ([m], None), sv_Expunge = None\<rparr>
   in map_iteration tp [9] \<and> tp 0 = None
     \<and> fst (doDelete sv tp [9]) = [\<lparr>dr_UID = 9, dr_State = StateDeleted\<rparr>]
     \<and> snd (doDelete sv tp [9]) = [CUidStore (AddNum [9] []) ''+FLAGS'' [DeletedFlag], CExpunge]"
proof -
  let ?m = "\<lparr>SeqNum = 2, Uid = 9, Flags = [DeletedFlag], InternalDate = 0, Body = []\<rparr>"
  let ?tp = "[9 :: u32 \<mapsto> \<lparr>ms_UID = 9, ms_SeqNum = 2, ms_Message = ?m, ms_State = StateAcked\<rparr>]"
  let ?sv = "\<lparr>sv_Mailbox = None, sv_Fetch = \<lambda>_ _. ([], None),
             sv_UidStore = \<lambda>_ _ _. ([?m], None), sv_Expunge = None\<rparr>"
  have h: "map_iteration ?tp [9]" "?tp 0 = None" by (simp_all add: map_iteration_def)
  have "fst (doDelete ?sv ?tp [9]) = [\<lparr>dr_UID = 9, dr_State = StateDeleted\<rparr>]"
    by (simp add: doDelete_def Let_def cl_UidStore_def goimap_command_def Fetch_Handle_def
        delete_answer_def AddNum_def SeqSet_insert_def search_def search_loop.simps
        insertAt_def mk_seq_def SeqSet_Contains_def Seq_Less_def Seq_Contains_def)
  moreover have acked: "filter (\<lambda>u. ms_State (the (?tp u)) = StateAcked) [9] = [9]"
    by simp
  moreover have "snd (doDelete ?sv ?tp [9]) =
      [CUidStore (AddNum [9] []) ''+FLAGS'' [DeletedFlag], CExpunge]"
    using do_delete_only_acked [OF h, of ?sv, THEN conjunct1]
    by (simp only: acked if_False list.distinct)
  ultimately show ?thesis using h by (simp add: Let_def)
qed

end
