(* ===== verification/FlagCounter.thy ===== *)
theory FlagCounter
  imports Prelude
begin

text \<open>
  \<open>receiver/flagcounter.go\<close>: a counter that is also a flag. Raising it from zero closes
  an internal channel, so that others can wait for the flag; a reset makes a new channel.
  A channel without values is a name in a store that knows which names are closed.
\<close>

section \<open>Signal channels\<close>

record sigstore =
  next_sig :: nat
  closed_sigs :: "nat set"

definition empty_sigs :: sigstore where
  "empty_sigs = \<lparr>next_sig = 0, closed_sigs = {}\<rparr>"

definition make_sig :: "sigstore \<Rightarrow> nat \<times> sigstore" where
  "make_sig st = (next_sig st, st\<lparr>next_sig := Suc (next_sig st)\<rparr>)"

definition close_sig :: "nat \<Rightarrow> sigstore \<Rightarrow> sigstore outcome" where
  "close_sig c st =
     (if c \<in> closed_sigs st then Panics ''close of closed channel''
      else Completes (st\<lparr>closed_sigs := insert c (closed_sigs st)\<rparr>))"

definition sigs_ok :: "sigstore \<Rightarrow> bool" where
  "sigs_ok st \<longleftrightarrow> (\<forall>c\<in>closed_sigs st. c < next_sig st)"

section \<open>The counter\<close>

record FlagCounter =
  counter :: uint
  channel :: nat

definition FC_Reset :: "FlagCounter \<Rightarrow> sigstore \<Rightarrow> FlagCounter \<times> sigstore" where
  "FC_Reset c st =
     (case make_sig st of (ch, st') \<Rightarrow> (c\<lparr>counter := 0, channel := ch\<rparr>, st'))"

definition NewCounter :: "sigstore \<Rightarrow> FlagCounter \<times> sigstore" where
  "NewCounter st = FC_Reset \<lparr>counter = 0, channel = 0\<rparr> st"

definition FC_Flag :: "FlagCounter \<Rightarrow> sigstore \<Rightarrow> (FlagCounter \<times> sigstore) outcome" where
  "FC_Flag c st =
     (let c' = c\<lparr>counter := counter c + 1\<rparr> in
      if counter c' = 1 then obind (close_sig (channel c') st) (\<lambda>st'. Completes (c', st'))
      else Completes (c', st))"

definition FC_FlagIf :: "bool \<Rightarrow> FlagCounter \<Rightarrow> sigstore \<Rightarrow> (FlagCounter \<times> sigstore) outcome" where
  "FC_FlagIf b c st = (if b then FC_Flag c st else Completes (c, st))"

definition FC_FlagMany :: "uint \<Rightarrow> FlagCounter \<Rightarrow> sigstore \<Rightarrow> (FlagCounter \<times> sigstore) outcome" where
  "FC_FlagMany count c st =
     (let old = counter c; c' = c\<lparr>counter := counter c + count\<rparr> in
      if old = 0 \<and> count \<noteq> 0
      then obind (close_sig (channel c') st) (\<lambda>st'. Completes (c', st'))
      else Completes (c', st))"

definition FC_IsFlagged :: "FlagCounter \<Rightarrow> bool" where
  "FC_IsFlagged c \<longleftrightarrow> counter c > 0"

definition FC_Channel :: "FlagCounter \<Rightarrow> nat" where
  "FC_Channel c = channel c"

definition FC_Count :: "FlagCounter \<Rightarrow> uint" where
  "FC_Count c = counter c"

section \<open>The counter and its channel agree\<close>

definition fc_ok :: "FlagCounter \<Rightarrow> sigstore \<Rightarrow> bool" where
  "fc_ok c st \<longleftrightarrow> sigs_ok st \<and> channel c < next_sig st
     \<and> (channel c \<in> closed_sigs st \<longleftrightarrow> counter c \<noteq> 0)"

lemma uint_incr:
  assumes "unat (n :: uint) + 1 < 2 ^ 64"
  shows "unat (n + 1) = unat n + 1" and "n + 1 \<noteq> 0"
proof -
  show u: "unat (n + 1) = unat n + 1"
    using assms by (simp add: unat_word_ariths)
  then show "n + 1 \<noteq> 0" by (metis add_is_0 one_neq_zero unat_0)
qed

lemma FC_Flag_ok:
  assumes "fc_ok c st" and "unat (counter c) + 1 < 2 ^ 64"
  shows "FC_Flag c st = Completes (c\<lparr>counter := counter c + 1\<rparr>,
      st\<lparr>closed_sigs := insert (channel c) (closed_sigs st)\<rparr>)"
    and "fc_ok (c\<lparr>counter := counter c + 1\<rparr>)
      (st\<lparr>closed_sigs := insert (channel c) (closed_sigs st)\<rparr>)"
  using assms uint_incr [OF assms(2)]
  by (auto simp: FC_Flag_def fc_ok_def sigs_ok_def close_sig_def Let_def insert_absorb)

lemma FC_Reset_ok:
  assumes "sigs_ok st" and "FC_Reset c st = (c', st')"
  shows "fc_ok c' st'" and "counter c' = 0" and "channel c' = next_sig st"
    and "closed_sigs st' = closed_sigs st" and "next_sig st' = Suc (next_sig st)"
  using assms by (auto simp: FC_Reset_def make_sig_def fc_ok_def sigs_ok_def less_Suc_eq)

lemma fc_ok_sigs: "fc_ok c st \<Longrightarrow> sigs_ok st"
  by (simp add: fc_ok_def)

lemma FC_IsFlagged_iff: "FC_IsFlagged c \<longleftrightarrow> counter c \<noteq> 0"
  by (simp add: FC_IsFlagged_def word_gt_0)

section \<open>The contract of a flag\<close>

text \<open>
  What the receiver's main loop relies on: a flag that can be raised a bounded number of
  times between two resets, counts the times, and signals when it was raised at all.
\<close>

locale flag_contract =
  fixes valid :: "'f \<Rightarrow> bool"
    and raise :: "'f \<Rightarrow> 'f outcome"
    and reset :: "'f \<Rightarrow> 'f"
    and times :: "'f \<Rightarrow> nat"
    and flagged :: "'f \<Rightarrow> bool"
    and signalled :: "'f \<Rightarrow> bool"
    and limit :: nat
  assumes reset_valid: "valid f \<Longrightarrow> valid (reset f)"
    and reset_times: "valid f \<Longrightarrow> times (reset f) = 0"
    and raise_valid: "valid f \<Longrightarrow> times f + 1 < limit \<Longrightarrow>
      holds_after (raise f) (\<lambda>g. valid g \<and> times g = times f + 1)"
    and flagged_iff: "valid f \<Longrightarrow> flagged f \<longleftrightarrow> times f > 0"
    and signalled_iff: "valid f \<Longrightarrow> signalled f \<longleftrightarrow> times f > 0"
begin

lemma raises_spec:
  "valid f \<Longrightarrow> times f + n < limit \<Longrightarrow>
    holds_after (orepeat n raise f) (\<lambda>g. valid g \<and> times g = times f + n)"
proof (induction n arbitrary: f)
  case 0
  then show ?case by simp
next
  case (Suc n)
  then have "holds_after (raise f) (\<lambda>g. valid g \<and> times g = times f + 1)"
    by (intro raise_valid) simp_all
  then have "holds_after (raise f) (\<lambda>g. holds_after (orepeat n raise g)
      (\<lambda>h. valid h \<and> times h = times f + Suc n))"
    by (rule holds_after_mono) (use Suc in \<open>fastforce dest: Suc.IH\<close>)
  then show ?case by (simp add: holds_after_bind)
qed

lemma raises_signal:
  assumes "valid f" and "n < limit"
  shows "holds_after (orepeat n raise (reset f))
    (\<lambda>g. times g = n \<and> flagged g = (n > 0) \<and> signalled g = (n > 0))"
  using raises_spec [of "reset f" n] assms
  by (auto intro: holds_after_mono simp: reset_valid reset_times flagged_iff signalled_iff)

end

definition fc_signalled :: "FlagCounter \<times> sigstore \<Rightarrow> bool" where
  "fc_signalled f \<longleftrightarrow> channel (fst f) \<in> closed_sigs (snd f)"

interpretation flag: flag_contract
  "\<lambda>(c, st). fc_ok c st" "\<lambda>(c, st). FC_Flag c st" "\<lambda>(c, st). FC_Reset c st"
  "\<lambda>(c, st). unat (counter c)" "\<lambda>(c, st). FC_IsFlagged c" fc_signalled "2 ^ 64"
proof (unfold_locales, goal_cases)
  case (1 f)
  then show ?case by (cases f) (auto dest: fc_ok_sigs intro: FC_Reset_ok(1))
next
  case (2 f)
  then show ?case by (cases f) (auto dest: fc_ok_sigs simp: FC_Reset_ok(2) split: prod.splits)
next
  case (3 f)
  then show ?case by (cases f) (auto simp: FC_Flag_ok uint_incr)
next
  case (4 f)
  then show ?case by (cases f) (auto simp: FC_IsFlagged_iff unat_gt_0)
next
  case (5 f)
  then show ?case by (cases f) (auto simp: fc_signalled_def fc_ok_def unat_gt_0)
qed

section \<open>Properties\<close>

text \<open>
  After a reset, raising the flag \<open>n\<close> times never panics as long as \<open>n\<close> stays below
  2 to the 64, counts to \<open>n\<close>, and leaves the flag raised and its channel closed exactly
  when \<open>n\<close> is positive.
\<close>

theorem flag_counts_and_signals:
  assumes "fc_ok c st" and "n < 2 ^ 64"
  shows "holds_after (orepeat n (\<lambda>(c, st). FC_Flag c st) (FC_Reset c st))
    (\<lambda>(c', st'). unat (FC_Count c') = n \<and> FC_IsFlagged c' = (n > 0)
      \<and> (FC_Channel c' \<in> closed_sigs st') = (n > 0))"
  using flag.raises_signal [of "(c, st)" n] assms
  by (simp add: split_def fc_signalled_def FC_Count_def FC_Channel_def)

theorem flag_counts_and_signals_witness:
  "fc_ok (fst (NewCounter empty_sigs)) (snd (NewCounter empty_sigs)) \<and>
   holds_after (orepeat 2 (\<lambda>(c, st). FC_Flag c st)
      (FC_Reset (fst (NewCounter empty_sigs)) (snd (NewCounter empty_sigs))))
    (\<lambda>(c', st'). unat (FC_Count c') = 2 \<and> FC_IsFlagged c'
      \<and> FC_Channel c' \<in> closed_sigs st')"
proof -
  have "fc_ok (fst (NewCounter empty_sigs)) (snd (NewCounter empty_sigs))"
    by (simp add: NewCounter_def FC_Reset_def make_sig_def empty_sigs_def fc_ok_def sigs_ok_def)
  from flag_counts_and_signals [OF this, of 2] this show ?thesis by simp
qed

text \<open>
  \<open>FlagMany n\<close> is \<open>n\<close> calls of \<open>Flag\<close>, the channel included, as long as the count
  does not overflow.
\<close>

theorem flag_many_is_repeated_flag:
  assumes "fc_ok c st" and "unat (counter c) + unat n < 2 ^ 64"
  shows "FC_FlagMany n c st = orepeat (unat n) (\<lambda>(c, st). FC_Flag c st) (c, st)"
proof -
  have flags: "orepeat k (\<lambda>(c, st). FC_Flag c st) (c, st) =
      Completes (c\<lparr>counter := counter c + of_nat k\<rparr>,
        if k = 0 then st else st\<lparr>closed_sigs := insert (channel c) (closed_sigs st)\<rparr>)"
    if "fc_ok c st" "unat (counter c) + k < 2 ^ 64" for k c st
    using that
  proof (induction k arbitrary: c st)
    case (Suc k)
    then have "unat (counter c) + 1 < 2 ^ 64" by simp
    note step = FC_Flag_ok [OF Suc.prems(1) this] uint_incr [OF this]
    have "unat (counter c + 1) + k < 2 ^ 64" using Suc.prems(2) step(3) by simp
    with Suc.IH [OF step(2)] step show ?case by (simp add: algebra_simps)
  qed simp
  show ?thesis
    using assms flags [OF assms] by (auto simp: FC_FlagMany_def Let_def close_sig_def fc_ok_def
        insert_absorb unat_eq_zero)
qed

theorem flag_many_is_repeated_flag_witness:
  "fc_ok \<lparr>counter = 0, channel = 0\<rparr> \<lparr>next_sig = 1, closed_sigs = {}\<rparr> \<and>
   FC_FlagMany 3 \<lparr>counter = 0, channel = 0\<rparr> \<lparr>next_sig = 1, closed_sigs = {}\<rparr> =
     Completes (\<lparr>counter = 3, channel = 0\<rparr>, \<lparr>next_sig = 1, closed_sigs = {0}\<rparr>)"
proof -
  have ok: "fc_ok \<lparr>counter = 0, channel = 0\<rparr> \<lparr>next_sig = 1, closed_sigs = {}\<rparr>"
    by (simp add: fc_ok_def sigs_ok_def)
  have three: "unat (3 :: uint) = Suc (Suc (Suc 0))" by simp
  have "orepeat (Suc (Suc (Suc 0))) (\<lambda>(c, st). FC_Flag c st)
      (\<lparr>counter = 0, channel = 0\<rparr>, \<lparr>next_sig = 1, closed_sigs = {}\<rparr>) =
    Completes (\<lparr>counter = 3, channel = 0\<rparr>, \<lparr>next_sig = 1, closed_sigs = {0}\<rparr>)"
    by (simp add: FC_Flag_def close_sig_def Let_def)
  moreover have "FC_FlagMany 3 \<lparr>counter = 0, channel = 0\<rparr> \<lparr>next_sig = 1, closed_sigs = {}\<rparr> =
    orepeat (unat (3 :: uint)) (\<lambda>(c, st). FC_Flag c st)
      (\<lparr>counter = 0, channel = 0\<rparr>, \<lparr>next_sig = 1, closed_sigs = {}\<rparr>)"
    by (rule flag_many_is_repeated_flag [OF ok]) simp
  ultimately show ?thesis using ok three by metis
qed

text \<open>
  The counter is a 64-bit \<open>uint\<close>: at its largest value one more \<open>Flag\<close> wraps it to
  zero with its channel still closed, and the next \<open>Flag\<close> closes that channel again, a
  panic.
\<close>

theorem flag_wraps_then_panics:
  assumes "channel c \<in> closed_sigs st" and "counter c = - 1"
  shows "obind (FC_Flag c st) (\<lambda>(c', st'). FC_Flag c' st') = Panics ''close of closed channel''
    \<and> FC_Flag c st = Completes (c\<lparr>counter := 0\<rparr>, st)"
  using assms by (simp add: FC_Flag_def close_sig_def Let_def)

theorem flag_wraps_then_panics_witness:
  "obind (FC_Flag \<lparr>counter = - 1, channel = 0\<rparr> \<lparr>next_sig = 1, closed_sigs = {0}\<rparr>)
     (\<lambda>(c', st'). FC_Flag c' st') = Panics ''close of closed channel''"
  by (rule flag_wraps_then_panics [THEN conjunct1]) simp_all

end
