(* ===== verification/Receiver.thy ===== *)
theory Receiver
  imports ReceiverImap FlagCounter
begin

text \<open>
  \<open>receiver/receiver.go\<close>: the state of a receiver, its handlers, and one iteration of its
  main loop \<open>run\<close>, a \<open>select\<close> over events followed by a \<open>switch\<close> over the loop's state.
  Message states are shared through pointers (the map of known messages and the maps of
  messages to delete alias them), so they live in a heap, a list indexed by pointers.
\<close>

section \<open>State\<close>

record ReceiverConfig =
  rc_Connection :: ConnectionConfig
  rc_IDLEFallbackInterval :: duration
  rc_BatchSize :: uint
  rc_FetchBufferSize :: uint
  rc_FetchMaxInterval :: duration
  rc_DisableDeletions :: bool

text \<open>\<open>outSent\<close> lists the messages written to the outgoing channel so far.\<close>

record mailReceiver =
  messages :: "u32 \<rightharpoonup> nat"
  heap :: "messageState list"
  outSent :: "imap_message list"
  batchSize :: uint
  idleFallbackInterval :: duration
  fetchBufferSize :: uint
  fetchMaxInterval :: duration
  disableDeletions :: bool

definition deref :: "mailReceiver \<Rightarrow> (u32 \<rightharpoonup> nat) \<Rightarrow> (u32 \<rightharpoonup> messageState)" where
  "deref mr m = (\<lambda>uid. map_option (\<lambda>p. heap mr ! p) (m uid))"

record ackRequest =
  ar_UID :: u32
  ar_Error :: "go_error option"

section \<open>Construction and acknowledgement\<close>

text \<open>The first argument is the factory's answer to \<open>NewClient\<close>.\<close>

definition NewReceiver :: "go_error option \<Rightarrow> ReceiverConfig \<Rightarrow> go_error + mailReceiver" where
  "NewReceiver dialled cfg =
     (case dialled of
        Some err \<Rightarrow> Inl err
      | None \<Rightarrow> Inr
          \<lparr>messages = Map.empty, heap = [], outSent = [],
           batchSize = or_default 15 (rc_BatchSize cfg),
           idleFallbackInterval = or_default (1 * minute) (rc_IDLEFallbackInterval cfg),
           fetchBufferSize = or_default 20 (rc_FetchBufferSize cfg),
           fetchMaxInterval = or_default (5 * minute) (rc_FetchMaxInterval cfg),
           disableDeletions = rc_DisableDeletions cfg\<rparr>)"

definition Ack :: "u32 \<Rightarrow> go_error option \<Rightarrow> ackRequest chan \<Rightarrow> ackRequest chan outcome" where
  "Ack uid err ackChannel =
     (if uid = 0 then Completes ackChannel
      else chan_send \<lparr>ar_UID = uid, ar_Error = err\<rparr> ackChannel)"

section \<open>Handlers\<close>

fun handleFetch_loop ::
  "(u32 \<rightharpoonup> imap_message) \<Rightarrow> u32 list \<Rightarrow> mailReceiver \<Rightarrow> uint \<Rightarrow> mailReceiver \<times> uint"
where
  "handleFetch_loop fetched [] mr num = (mr, num)"
| "handleFetch_loop fetched (uid # uids) mr num =
     (if messages mr uid = None then
        (let msg = the (fetched uid);
             mstate = \<lparr>ms_UID = uid, ms_SeqNum = SeqNum msg, ms_Message = msg,
                       ms_State = StateUnacked\<rparr>
         in handleFetch_loop fetched uids
              (mr\<lparr>messages := (messages mr)(uid \<mapsto> length (heap mr)),
                  heap := heap mr @ [mstate],
                  outSent := outSent mr @ [ms_Message mstate]\<rparr>) (num + 1))
      else handleFetch_loop fetched uids mr num)"

definition handleFetch :: "fetchResult \<Rightarrow> u32 list \<Rightarrow> mailReceiver \<Rightarrow> mailReceiver \<times> uint" where
  "handleFetch r order mr = handleFetch_loop (fr_Messages r) order mr 0"

definition set_state :: "nat \<Rightarrow> state \<Rightarrow> mailReceiver \<Rightarrow> mailReceiver" where
  "set_state p st mr = mr\<lparr>heap := (heap mr)[p := (heap mr ! p)\<lparr>ms_State := st\<rparr>]\<rparr>"

definition handleDelete :: "deleteResult \<Rightarrow> mailReceiver \<Rightarrow> mailReceiver \<times> nat option" where
  "handleDelete r mr =
     (if dr_State r = StateDeleted
      then (mr\<lparr>messages := (messages mr)(dr_UID r := None)\<rparr>, None)
      else case messages mr (dr_UID r) of
             Some p \<Rightarrow> (set_state p (dr_State r) mr, Some p)
           | None \<Rightarrow> (mr, None))"

definition handleAck :: "ackRequest \<Rightarrow> mailReceiver \<Rightarrow> mailReceiver \<times> nat option" where
  "handleAck r mr =
     (if ar_Error r \<noteq> None then (mr, None)
      else case messages mr (ar_UID r) of
             Some p \<Rightarrow> (if ms_State (heap mr ! p) = StateUnacked
                        then (set_state p StateAcked mr, Some p) else (mr, None))
           | None \<Rightarrow> (mr, None))"

datatype client_update =
    StatusUpdate | ExpungeUpdate u32 | MailboxUpdate MailboxStatus | MessageUpdate imap_message

fun handleMessageUpdate :: "client_update \<Rightarrow> bool" where
  "handleMessageUpdate StatusUpdate = False"
| "handleMessageUpdate (ExpungeUpdate seq) = False"
| "handleMessageUpdate (MailboxUpdate mb) = True"
| "handleMessageUpdate (MessageUpdate m) = False"

section \<open>The main loop\<close>

datatype loop_flag = WantQuit | WantStopIdle | WantFetch | WantDelete

text \<open>
  The local variables of \<open>run\<close>; \<open>flagQuits\<close> counts the calls of the client's
  \<open>FlagQuit\<close>.
\<close>

record run_state =
  rcv :: mailReceiver
  rs_state :: sstate
  nextToProcess :: "u32 \<rightharpoonup> nat"
  flags :: "loop_flag \<Rightarrow> FlagCounter"
  sigs :: sigstore
  opChan :: "operation chan"
  flagQuits :: nat

text \<open>The cases of the \<open>select\<close>, each with the value received.\<close>

datatype loop_event =
    EvQuit
  | EvUpdate client_update
  | EvFetchResult fetchResult "u32 list"
  | EvDeleteResult deleteResult
  | EvOtherResult
  | EvAck ackRequest
  | EvTimeout
  | EvOp

datatype spawn = SpawnFetch SeqSet | SpawnDelete "u32 \<rightharpoonup> nat" | SpawnIdle nat

datatype loop_next = Continue run_state "spawn option" | Done run_state

definition run_flag :: "loop_flag \<Rightarrow> run_state \<Rightarrow> run_state outcome" where
  "run_flag f s =
     obind (FC_Flag (flags s f) (sigs s))
       (\<lambda>(c, st). Completes (s\<lparr>flags := (flags s)(f := c), sigs := st\<rparr>))"

definition run_flag_if :: "bool \<Rightarrow> loop_flag \<Rightarrow> run_state \<Rightarrow> run_state outcome" where
  "run_flag_if b f s =
     obind (FC_FlagIf b (flags s f) (sigs s))
       (\<lambda>(c, st). Completes (s\<lparr>flags := (flags s)(f := c), sigs := st\<rparr>))"

definition run_reset :: "loop_flag \<Rightarrow> run_state \<Rightarrow> run_state" where
  "run_reset f s =
     (case FC_Reset (flags s f) (sigs s) of
        (c, st) \<Rightarrow> s\<lparr>flags := (flags s)(f := c), sigs := st\<rparr>)"

definition flagged :: "loop_flag \<Rightarrow> run_state \<Rightarrow> bool" where
  "flagged f s \<longleftrightarrow> FC_IsFlagged (flags s f)"

definition map_len :: "('k \<rightharpoonup> 'v) \<Rightarrow> nat" where
  "map_len m = card (dom m)"

definition deletions_on :: "run_state \<Rightarrow> bool" where
  "deletions_on s \<longleftrightarrow> \<not> disableDeletions (rcv s)"

text \<open>The variables before the first iteration.\<close>

definition run_init :: "mailReceiver \<Rightarrow> run_state" where
  "run_init mr =
     (let (quit, st1) = NewCounter empty_sigs;
          (stopIdle, st2) = NewCounter st1;
          (fetch, st3) = NewCounter st2;
          (del, st4) = NewCounter st3
      in \<lparr>rcv = mr, rs_state = StateNone, nextToProcess = Map.empty,
          flags = (\<lambda>f. case f of WantQuit \<Rightarrow> quit | WantStopIdle \<Rightarrow> stopIdle
                    | WantFetch \<Rightarrow> fetch | WantDelete \<Rightarrow> del),
          sigs = st4, opChan = make_chan 1, flagQuits = 0\<rparr>)"

text \<open>A message to delete is scheduled.\<close>

definition schedule :: "nat option \<Rightarrow> run_state \<Rightarrow> run_state outcome" where
  "schedule msg s =
     (case msg of
        None \<Rightarrow> Completes s
      | Some p \<Rightarrow>
          run_flag_if (deletions_on s) WantDelete
            (s\<lparr>nextToProcess := (nextToProcess s)(ms_UID (heap (rcv s) ! p) \<mapsto> p)\<rparr>))"

fun select_event :: "loop_event \<Rightarrow> run_state \<Rightarrow> (operation \<times> run_state) outcome" where
  "select_event EvQuit s =
     obind (run_flag WantQuit s)
       (\<lambda>s. Completes (OperationNone, s\<lparr>flagQuits := Suc (flagQuits s)\<rparr>))"
| "select_event (EvUpdate upd) s =
     (if handleMessageUpdate upd
      then obind (run_flag WantFetch s) (\<lambda>s. Completes (OperationNone, s))
      else Completes (OperationNone, s))"
| "select_event (EvFetchResult r order) s =
     (if rs_state s \<noteq> StateInFetch then Panics ''receiver_fetch_outside_fetch''
      else if flagged WantQuit s then Completes (OperationNone, s)
      else Completes (OperationNone, s\<lparr>rcv := fst (handleFetch r order (rcv s))\<rparr>))"
| "select_event (EvDeleteResult r) s =
     (if rs_state s \<noteq> StateInDelete then Panics ''receiver_delete_outside_delete''
      else case handleDelete r (rcv s) of (mr, msg) \<Rightarrow>
        obind (schedule msg (s\<lparr>rcv := mr\<rparr>)) (\<lambda>s. Completes (OperationNone, s)))"
| "select_event EvOtherResult s = Panics ''receiver_invalid_result''"
| "select_event (EvAck ack) s =
     (case handleAck ack (rcv s) of (mr, msg) \<Rightarrow>
        obind (schedule msg (s\<lparr>rcv := mr\<rparr>)) (\<lambda>s. Completes (OperationNone, s)))"
| "select_event EvTimeout s = Completes (OperationTimeout, s)"
| "select_event EvOp s =
     (case chan_recv (opChan s) of
        Completes (Some opn, ch) \<Rightarrow> Completes (opn, s\<lparr>opChan := ch\<rparr>)
      | Completes (None, ch) \<Rightarrow> Completes (OperationNone, s\<lparr>opChan := ch\<rparr>)
      | Panics m \<Rightarrow> Panics m
      | Blocks \<Rightarrow> Blocks)"

text \<open>The end of the \<open>StateNone\<close> case, when no deletion was started.\<close>

definition start_fetch_or_idle :: "u32 list \<Rightarrow> run_state \<Rightarrow> loop_next" where
  "start_fetch_or_idle order s =
     (if flagged WantFetch s then
        (let s = run_reset WantFetch s in
         Continue (s\<lparr>rs_state := StateInFetch\<rparr>)
           (Some (SpawnFetch (buildCurrentSequence (deref (rcv s) (messages (rcv s))) order))))
      else if \<not> flagged WantQuit s then
        Continue (s\<lparr>rs_state := StateInIDLE\<rparr>)
          (Some (SpawnIdle (FC_Channel (flags s WantStopIdle))))
      else Done s)"

definition start_work :: "u32 list \<Rightarrow> run_state \<Rightarrow> loop_next" where
  "start_work order s =
     (if flagged WantDelete s then
        (let s = run_reset WantDelete s in
         if map_len (nextToProcess s) > 0
         then Continue (s\<lparr>rs_state := StateInDelete, nextToProcess := Map.empty\<rparr>)
                (Some (SpawnDelete (nextToProcess s)))
         else start_fetch_or_idle order s)
      else start_fetch_or_idle order s)"

definition none_operation :: "operation \<Rightarrow> run_state \<Rightarrow> run_state outcome" where
  "none_operation opn s =
     (case opn of
        OperationNone \<Rightarrow> Completes s
      | OperationTimeout \<Rightarrow>
          obind (run_flag WantFetch s) (\<lambda>s. run_flag_if (deletions_on s) WantDelete s)
      | _ \<Rightarrow> Panics ''invalid_operation_for_state'')"

definition switch_none :: "u32 list \<Rightarrow> operation \<Rightarrow> run_state \<Rightarrow> loop_next outcome" where
  "switch_none order opn s =
     obind (none_operation opn s) (\<lambda>s.
       let s = (if flagged WantQuit s then run_reset WantFetch s else s) in
       obind (if word_of_nat (map_len (nextToProcess s)) \<ge> batchSize (rcv s)
              then run_flag_if (deletions_on s) WantDelete s else Completes s)
         (\<lambda>s. Completes (start_work order s)))"

definition finish_operation :: "run_state \<Rightarrow> loop_next outcome" where
  "finish_operation s =
     obind (chan_send OperationNone (opChan s))
       (\<lambda>ch. Completes (Continue (s\<lparr>rs_state := StateNone, opChan := ch\<rparr>) None))"

definition switch_idle :: "operation \<Rightarrow> run_state \<Rightarrow> loop_next outcome" where
  "switch_idle opn s =
     (if opn = OperationNone \<or> opn = OperationTimeout then
        obind (run_flag WantFetch s) (\<lambda>s.
          obind (run_flag WantStopIdle s) (\<lambda>s. Completes (Continue s None)))
      else if opn = OperationIDLEFinish then finish_operation (run_reset WantStopIdle s)
      else Panics ''invalid_operation_for_state'')"

definition switch_fetch :: "operation \<Rightarrow> run_state \<Rightarrow> loop_next outcome" where
  "switch_fetch opn s =
     (case opn of
        OperationNone \<Rightarrow> Completes (Continue s None)
      | OperationFetchFinish \<Rightarrow> finish_operation s
      | OperationTimeout \<Rightarrow> Completes (Continue s None)
      | _ \<Rightarrow> Panics ''invalid_operation_for_state'')"

definition switch_delete :: "operation \<Rightarrow> run_state \<Rightarrow> loop_next outcome" where
  "switch_delete opn s =
     (case opn of
        OperationNone \<Rightarrow> Completes (Continue s None)
      | OperationDeleteFinish \<Rightarrow> finish_operation s
      | OperationTimeout \<Rightarrow> obind (run_flag WantFetch s) (\<lambda>s. Completes (Continue s None))
      | _ \<Rightarrow> Panics ''invalid_operation_for_state'')"

text \<open>
  One iteration. \<open>order\<close> is the order in which the map of known messages is visited,
  should the iteration start a fetch.
\<close>

definition tick :: "u32 list \<Rightarrow> loop_event \<Rightarrow> run_state \<Rightarrow> loop_next outcome" where
  "tick order ev s =
     obind (select_event ev s) (\<lambda>(opn, s).
       case rs_state s of
         StateNone \<Rightarrow> switch_none order opn s
       | StateInIDLE \<Rightarrow> switch_idle opn s
       | StateInFetch \<Rightarrow> switch_fetch opn s
       | StateInDelete \<Rightarrow> switch_delete opn s)"

section \<open>What the handlers do\<close>

lemma set_state_simps [simp]:
  "messages (set_state p st mr) = messages mr"
  "outSent (set_state p st mr) = outSent mr"
  "batchSize (set_state p st mr) = batchSize mr"
  "fetchBufferSize (set_state p st mr) = fetchBufferSize mr"
  "disableDeletions (set_state p st mr) = disableDeletions mr"
  "length (heap (set_state p st mr)) = length (heap mr)"
  by (simp_all add: set_state_def)

lemma heap_set_state:
  "q < length (heap mr) \<Longrightarrow> heap (set_state p st mr) ! q =
    (if q = p then (heap mr ! p)\<lparr>ms_State := st\<rparr> else heap mr ! q)"
  by (simp add: set_state_def nth_list_update)

text \<open>
  Known messages are filed under their UID, are not deleted, and are acknowledged only
  if their UID is in \<open>A\<close>, the UIDs a nil acknowledgement arrived for; a map of messages
  to delete holds acknowledged messages only.
\<close>

definition known_ok :: "u32 set \<Rightarrow> mailReceiver \<Rightarrow> bool" where
  "known_ok A mr \<longleftrightarrow> finite (dom (messages mr)) \<and>
     (\<forall>uid p. messages mr uid = Some p \<longrightarrow> p < length (heap mr) \<and> ms_UID (heap mr ! p) = uid
       \<and> ms_State (heap mr ! p) \<noteq> StateDeleted
       \<and> (ms_State (heap mr ! p) = StateAcked \<longrightarrow> uid \<in> A))"

definition ptrs_ok :: "u32 set \<Rightarrow> mailReceiver \<Rightarrow> (u32 \<rightharpoonup> nat) \<Rightarrow> bool" where
  "ptrs_ok A mr m \<longleftrightarrow> finite (dom m) \<and>
     (\<forall>uid p. m uid = Some p \<longrightarrow> p < length (heap mr) \<and> ms_UID (heap mr ! p) = uid
       \<and> ms_State (heap mr ! p) = StateAcked \<and> uid \<in> A)"

text \<open>The heap only grows, and an acknowledged message stays acknowledged.\<close>

definition heap_le :: "mailReceiver \<Rightarrow> mailReceiver \<Rightarrow> bool" where
  "heap_le mr mr' \<longleftrightarrow> length (heap mr) \<le> length (heap mr') \<and>
     (\<forall>p < length (heap mr). ms_UID (heap mr' ! p) = ms_UID (heap mr ! p)
       \<and> (ms_State (heap mr ! p) = StateAcked \<longrightarrow> ms_State (heap mr' ! p) = StateAcked))"

lemma ptrs_ok_mono: "ptrs_ok A mr m \<Longrightarrow> heap_le mr mr' \<Longrightarrow> A \<subseteq> A' \<Longrightarrow> ptrs_ok A' mr' m"
  by (fastforce simp: ptrs_ok_def heap_le_def)

lemma ptrs_ok_empty [simp]: "ptrs_ok A mr Map.empty"
  by (simp add: ptrs_ok_def)

lemma ptrs_ok_upd:
  assumes "ptrs_ok A mr m" and "p < length (heap mr)" and "ms_State (heap mr ! p) = StateAcked"
    and "ms_UID (heap mr ! p) \<in> A"
  shows "ptrs_ok A mr (m(ms_UID (heap mr ! p) \<mapsto> p))"
  using assms by (auto simp: ptrs_ok_def)

lemma heap_le_refl [simp]: "heap_le mr mr"
  by (simp add: heap_le_def)

lemma heap_le_trans: "heap_le a b \<Longrightarrow> heap_le b c \<Longrightarrow> heap_le a c"
  by (auto simp: heap_le_def)

lemma heap_le_set_acked: "heap_le mr (set_state p StateAcked mr)"
  by (auto simp: heap_le_def heap_set_state)

lemma handleFetch_loop_keeps:
  assumes "known_ok A mr" and "handleFetch_loop fetched uids mr num = (mr', num')"
  shows "known_ok A mr' \<and> heap_le mr mr' \<and> disableDeletions mr' = disableDeletions mr
    \<and> batchSize mr' = batchSize mr \<and> fetchBufferSize mr' = fetchBufferSize mr"
  using assms
proof (induction fetched uids mr num rule: handleFetch_loop.induct)
  case (2 fetched uid uids mr num)
  show ?case
  proof (cases "messages mr uid = None")
    case False
    with 2 show ?thesis by auto
  next
    case True
    define msg where "msg = the (fetched uid)"
    define mstate where "mstate = \<lparr>ms_UID = uid, ms_SeqNum = SeqNum msg, ms_Message = msg,
        ms_State = StateUnacked\<rparr>"
    define mr1 where "mr1 = mr\<lparr>messages := (messages mr)(uid \<mapsto> length (heap mr)),
        heap := heap mr @ [mstate], outSent := outSent mr @ [ms_Message mstate]\<rparr>"
    have "known_ok A mr1"
      using "2.prems"(1) by (auto simp: known_ok_def mr1_def mstate_def nth_append less_Suc_eq)
    moreover have "heap_le mr mr1"
      by (simp add: heap_le_def mr1_def nth_append)
    moreover have "handleFetch_loop fetched uids mr1 (num + 1) = (mr', num')"
      using "2.prems"(2) True by (simp add: Let_def mr1_def mstate_def msg_def)
    ultimately show ?thesis
      using "2.IH"(1) [OF True msg_def mstate_def] by (auto simp: mr1_def intro: heap_le_trans)
  qed
qed simp

lemma handleFetch_keeps:
  assumes "known_ok A mr"
  shows "known_ok A (fst (handleFetch r order mr))" "heap_le mr (fst (handleFetch r order mr))"
    "disableDeletions (fst (handleFetch r order mr)) = disableDeletions mr"
  using handleFetch_loop_keeps [OF assms, of "fr_Messages r" order 0]
  by (cases "handleFetch_loop (fr_Messages r) order mr 0"; auto simp: handleFetch_def)+

text \<open>
  What a handler hands to the scheduler: a pointer to an acknowledged message.
\<close>

definition handler_ok ::
  "u32 set \<Rightarrow> mailReceiver \<Rightarrow> mailReceiver \<times> nat option \<Rightarrow> bool"
where
  "handler_ok A mr r \<longleftrightarrow> known_ok A (fst r) \<and> heap_le mr (fst r)
     \<and> disableDeletions (fst r) = disableDeletions mr
     \<and> (\<forall>p. snd r = Some p \<longrightarrow> p < length (heap (fst r))
         \<and> ms_State (heap (fst r) ! p) = StateAcked \<and> ms_UID (heap (fst r) ! p) \<in> A)"

lemma known_ok_mono: "known_ok A mr \<Longrightarrow> A \<subseteq> B \<Longrightarrow> known_ok B mr"
  by (fastforce simp: known_ok_def)

lemma known_ok_set_acked:
  assumes "known_ok A mr" "messages mr uid = Some p" "uid \<in> A"
  shows "handler_ok A mr (set_state p StateAcked mr, Some p)"
proof -
  have p: "p < length (heap mr)" "ms_UID (heap mr ! p) = uid"
    using assms(1,2) by (auto simp: known_ok_def)
  have "known_ok A (set_state p StateAcked mr)"
    using assms p by (auto simp: known_ok_def heap_set_state)
  with p assms(3) show ?thesis by (simp add: handler_ok_def heap_le_set_acked heap_set_state)
qed

lemma handleDelete_keeps:
  assumes "known_ok A mr" and "dr_State r = StateDeleted \<or> dr_State r = StateAcked \<and> dr_UID r \<in> A"
  shows "handler_ok A mr (handleDelete r mr)"
proof (cases "dr_State r = StateDeleted")
  case True
  then show ?thesis
    using assms(1) by (auto simp: handleDelete_def handler_ok_def known_ok_def heap_le_def
        split: if_splits)
next
  case False
  with assms known_ok_set_acked [OF assms(1)] show ?thesis
    by (auto simp: handleDelete_def split: option.splits) (simp add: handler_ok_def)
qed

lemma handleAck_keeps:
  assumes "known_ok A mr"
  shows "handler_ok (A \<union> (if ar_Error r = None then {ar_UID r} else {})) mr (handleAck r mr)"
proof -
  have known: "known_ok (insert (ar_UID r) A) mr"
    using assms by (rule known_ok_mono) auto
  with assms known_ok_set_acked [OF known] show ?thesis
    by (auto simp: handleAck_def split: option.splits) (simp_all add: handler_ok_def)
qed

section \<open>The flags of the loop\<close>

text \<open>
  The four counters are well formed and have channels of their own; \<open>room k\<close>: none of
  them overflows in the next \<open>k\<close> raises.
\<close>

definition flags_ok :: "run_state \<Rightarrow> bool" where
  "flags_ok s \<longleftrightarrow> inj (\<lambda>f. channel (flags s f)) \<and> (\<forall>f. fc_ok (flags s f) (sigs s))"

definition room :: "nat \<Rightarrow> run_state \<Rightarrow> bool" where
  "room k s \<longleftrightarrow> (\<forall>f. unat (counter (flags s f)) + k < 2 ^ 64)"

text \<open>The effect of a raise and a reset that do not panic.\<close>

definition raised :: "loop_flag \<Rightarrow> run_state \<Rightarrow> run_state" where
  "raised f s = s\<lparr>flags := (flags s)(f := (flags s f)\<lparr>counter := counter (flags s f) + 1\<rparr>),
     sigs := (sigs s)\<lparr>closed_sigs := insert (channel (flags s f)) (closed_sigs (sigs s))\<rparr>\<rparr>"

lemma raised_simps [simp]:
  "rcv (raised f s) = rcv s" "rs_state (raised f s) = rs_state s"
  "nextToProcess (raised f s) = nextToProcess s" "opChan (raised f s) = opChan s"
  "flagQuits (raised f s) = flagQuits s" "deletions_on (raised f s) = deletions_on s"
  by (simp_all add: raised_def deletions_on_def)

lemma run_reset_simps [simp]:
  "rcv (run_reset f s) = rcv s" "rs_state (run_reset f s) = rs_state s"
  "nextToProcess (run_reset f s) = nextToProcess s" "opChan (run_reset f s) = opChan s"
  "flagQuits (run_reset f s) = flagQuits s" "deletions_on (run_reset f s) = deletions_on s"
  by (simp_all add: run_reset_def deletions_on_def split: prod.splits)

lemma room_mono: "room k s \<Longrightarrow> j \<le> k \<Longrightarrow> room j s"
  unfolding room_def by (meson add_left_mono order_le_less_trans)

lemma run_flag_raised:
  assumes "flags_ok s" and "room (Suc k) s"
  shows "run_flag f s = Completes (raised f s)"
    and "flags_ok (raised f s)" and "room k (raised f s)"
    and "flagged g (raised f s) \<longleftrightarrow> g = f \<or> flagged g s"
    and "channel (flags (raised f s) g) = channel (flags s g)"
    and "closed_sigs (sigs (raised f s)) = insert (channel (flags s f)) (closed_sigs (sigs s))"
proof -
  have c: "fc_ok (flags s f) (sigs s)" "unat (counter (flags s f)) + 1 < 2 ^ 64"
    using assms room_mono [OF assms(2), of 1] by (auto simp: flags_ok_def room_def)
  note flag = FC_Flag_ok [OF c] uint_incr [OF c(2)]
  show "run_flag f s = Completes (raised f s)"
    by (simp add: run_flag_def flag(1) raised_def)
  have chan: "channel (flags (raised f s) h) = channel (flags s h)" for h
    by (simp add: raised_def)
  then show "channel (flags (raised f s) g) = channel (flags s g)" .
  have other: "channel (flags s h) \<noteq> channel (flags s f)" if "h \<noteq> f" for h
    using assms(1) that by (auto simp: flags_ok_def inj_def)
  have "fc_ok (flags (raised f s) h) (sigs (raised f s))" for h
  proof (cases "h = f")
    case True
    with flag(2) show ?thesis by (simp add: raised_def)
  next
    case False
    with assms(1) other [OF False] c(1) show ?thesis
      by (auto simp: raised_def flags_ok_def fc_ok_def sigs_ok_def)
  qed
  with assms(1) chan show "flags_ok (raised f s)" by (simp add: flags_ok_def)
  show "room k (raised f s)"
    using assms(2) flag(3) room_mono [OF assms(2), of k] by (auto simp: room_def raised_def)
  show "flagged g (raised f s) \<longleftrightarrow> g = f \<or> flagged g s"
    using flag(4) by (auto simp: flagged_def raised_def FC_IsFlagged_iff)
  show "closed_sigs (sigs (raised f s)) = insert (channel (flags s f)) (closed_sigs (sigs s))"
    by (simp add: raised_def)
qed

lemma run_flag_if_raised:
  assumes "flags_ok s" and "room (Suc k) s"
  shows "run_flag_if b f s = Completes (if b then raised f s else s)"
  using run_flag_raised(1) [OF assms, of f]
  by (simp add: run_flag_if_def run_flag_def FC_FlagIf_def)

lemma run_reset_ok:
  assumes "flags_ok s"
  shows "flags_ok (run_reset f s)" and "room k s \<Longrightarrow> room k (run_reset f s)"
    and "flagged g (run_reset f s) \<longleftrightarrow> g \<noteq> f \<and> flagged g s"
    and "g \<noteq> f \<Longrightarrow> flags (run_reset f s) g = flags s g"
    and "closed_sigs (sigs (run_reset f s)) = closed_sigs (sigs s)"
proof -
  obtain c st where r: "FC_Reset (flags s f) (sigs s) = (c, st)" by fastforce
  have sig: "sigs_ok (sigs s)" using assms by (auto simp: flags_ok_def dest: fc_ok_sigs)
  note new = FC_Reset_ok [OF sig r]
  have fc: "fc_ok (flags s h) (sigs s)" for h using assms by (simp add: flags_ok_def)
  then have fresh: "channel (flags s h) < channel c" for h
    by (simp add: fc_ok_def new(3))
  have sigs: "closed_sigs st = closed_sigs (sigs s)" "next_sig st = Suc (next_sig (sigs s))"
    using new by auto
  have old: "fc_ok (flags s h) st" for h
    using fc [of h] sigs new(1) by (auto simp: fc_ok_def)
  have eq: "flags (run_reset f s) = (flags s)(f := c)" "sigs (run_reset f s) = st"
    by (simp_all add: run_reset_def r)
  have "channel (((flags s)(f := c)) a) = channel (((flags s)(f := c)) b) \<Longrightarrow> a = b" for a b
    using fresh [of a] fresh [of b] assms by (auto simp: flags_ok_def inj_def split: if_splits)
  then have "inj (\<lambda>h. channel (((flags s)(f := c)) h))" by (rule injI)
  with old new(1) show "flags_ok (run_reset f s)" by (auto simp: flags_ok_def eq)
  show "room k s \<Longrightarrow> room k (run_reset f s)"
    using new(2) by (auto simp: room_def eq)
  show "flagged g (run_reset f s) \<longleftrightarrow> g \<noteq> f \<and> flagged g s"
    by (auto simp: flagged_def eq FC_IsFlagged_iff new(2))
  show "g \<noteq> f \<Longrightarrow> flags (run_reset f s) g = flags s g" by (simp add: eq)
  show "closed_sigs (sigs (run_reset f s)) = closed_sigs (sigs s)" by (simp add: eq sigs)
qed

lemma flags_ok_cong:
  "flags t = flags s \<Longrightarrow> sigs t = sigs s \<Longrightarrow> flags_ok t = flags_ok s"
  "flags t = flags s \<Longrightarrow> room k t = room k s"
  "flags t = flags s \<Longrightarrow> flagged f t = flagged f s"
  by (simp_all add: flags_ok_def room_def flagged_def)

lemma run_init_simps [simp]:
  "rcv (run_init mr) = mr" "rs_state (run_init mr) = StateNone"
  "nextToProcess (run_init mr) = Map.empty" "opChan (run_init mr) = make_chan 1"
  "flagQuits (run_init mr) = 0"
  by (simp_all add: run_init_def NewCounter_def FC_Reset_def make_sig_def empty_sigs_def Let_def)

lemma run_init_ok: "flags_ok (run_init mr)" "\<not> flagged f (run_init mr)"
    "counter (flags (run_init mr) f) = 0"
  by (auto simp: run_init_def NewCounter_def FC_Reset_def make_sig_def empty_sigs_def Let_def
      flags_ok_def fc_ok_def sigs_ok_def flagged_def FC_IsFlagged_iff inj_def
      split: loop_flag.splits)

lemmas raise4 = run_flag_raised [where k = 3, simplified] run_flag_if_raised [where k = 3, simplified]
lemmas raise3 = run_flag_raised [where k = 2, simplified] run_flag_if_raised [where k = 2, simplified]
lemmas raise2 = run_flag_raised [where k = 1, unfolded Suc_1]
  run_flag_if_raised [where k = 1, unfolded Suc_1]
lemmas raise1 = run_flag_raised [where k = 0, folded One_nat_def]
  run_flag_if_raised [where k = 0, folded One_nat_def]

section \<open>One iteration keeps the data consistent\<close>

text \<open>
  Besides the two invariants on messages: unless deletions are disabled, a message
  waiting for deletion keeps the delete flag raised.
\<close>

definition data_ok :: "u32 set \<Rightarrow> run_state \<Rightarrow> bool" where
  "data_ok A s \<longleftrightarrow> known_ok A (rcv s) \<and> ptrs_ok A (rcv s) (nextToProcess s) \<and> flags_ok s
     \<and> (deletions_on s \<longrightarrow> nextToProcess s \<noteq> Map.empty \<longrightarrow> flagged WantDelete s)"

lemma map_len_0: "finite (dom m) \<Longrightarrow> map_len m = 0 \<longleftrightarrow> m = Map.empty"
  by (simp add: map_len_def)

text \<open>The UIDs an event acknowledges.\<close>

fun ev_acks :: "loop_event \<Rightarrow> u32 set" where
  "ev_acks (EvAck r) = (if ar_Error r = None then {ar_UID r} else {})"
| "ev_acks _ = {}"

text \<open>What an event has to satisfy for the loop to take it in a state.\<close>

fun ev_ok :: "u32 set \<Rightarrow> run_state \<Rightarrow> loop_event \<Rightarrow> bool" where
  "ev_ok A s (EvFetchResult r order) = (rs_state s = StateInFetch)"
| "ev_ok A s (EvDeleteResult r) = (rs_state s = StateInDelete
     \<and> (dr_State r = StateDeleted \<or> dr_State r = StateAcked \<and> dr_UID r \<in> A))"
| "ev_ok A s EvOtherResult = False"
| "ev_ok A s EvOp = (cbuf (opChan s) \<noteq> [])"
| "ev_ok A s _ = True"

fun ev_operation :: "loop_event \<Rightarrow> run_state \<Rightarrow> operation" where
  "ev_operation EvTimeout s = OperationTimeout"
| "ev_operation EvOp s = hd (cbuf (opChan s))"
| "ev_operation _ s = OperationNone"

fun ev_chan :: "loop_event \<Rightarrow> run_state \<Rightarrow> operation chan" where
  "ev_chan EvOp s = (opChan s)\<lparr>cbuf := tl (cbuf (opChan s))\<rparr>"
| "ev_chan _ s = opChan s"

definition selected :: "u32 set \<Rightarrow> loop_event \<Rightarrow> run_state \<Rightarrow> operation \<times> run_state \<Rightarrow> bool" where
  "selected A ev s r \<longleftrightarrow> fst r = ev_operation ev s \<and> data_ok (A \<union> ev_acks ev) (snd r)
     \<and> room 3 (snd r) \<and> rs_state (snd r) = rs_state s \<and> opChan (snd r) = ev_chan ev s
     \<and> heap_le (rcv s) (rcv (snd r)) \<and> deletions_on (snd r) = deletions_on s
     \<and> channel (flags (snd r) WantStopIdle) = channel (flags s WantStopIdle)
     \<and> (flagged WantQuit (snd r) \<longleftrightarrow> ev = EvQuit \<or> flagged WantQuit s)"

lemma schedule_handled:
  assumes s: "data_ok A s" "room 4 s" and h: "handler_ok B (rcv s) (mr, msg)" and "A \<subseteq> B"
  shows "holds_after (schedule msg (s\<lparr>rcv := mr\<rparr>)) (\<lambda>t. data_ok B t \<and> room 3 t
    \<and> rs_state t = rs_state s \<and> opChan t = opChan s \<and> rcv t = mr
    \<and> deletions_on t = deletions_on s
    \<and> channel (flags t WantStopIdle) = channel (flags s WantStopIdle)
    \<and> flagged WantQuit t = flagged WantQuit s)"
proof -
  have mr: "known_ok B mr" "heap_le (rcv s) mr" "disableDeletions mr = disableDeletions (rcv s)"
    using h by (simp_all add: handler_ok_def)
  have ptrs: "ptrs_ok B mr (nextToProcess s)"
    using s(1) mr(2) \<open>A \<subseteq> B\<close> by (auto simp: data_ok_def intro: ptrs_ok_mono)
  have room3: "room 3 s" using s(2) by (rule room_mono) simp
  show ?thesis
  proof (cases msg)
    case None
    then show ?thesis
      using s(1) mr ptrs room3 by (auto simp: schedule_def data_ok_def deletions_on_def
          flags_ok_def room_def flagged_def)
  next
    case (Some p)
    define u where "u = s\<lparr>rcv := mr, nextToProcess := (nextToProcess s)(ms_UID (heap mr ! p) \<mapsto> p)\<rparr>"
    have u: "flags_ok u" "room 4 u" "room 3 u"
      using s room3 by (simp_all add: u_def data_ok_def flags_ok_def room_def)
    have "ptrs_ok B mr (nextToProcess u)"
      using h ptrs Some by (auto simp: u_def handler_ok_def intro: ptrs_ok_upd)
    with u mr show ?thesis
      using raise4 [OF u(1,2)] Some
      by (auto simp: schedule_def u_def [symmetric] data_ok_def deletions_on_def)
        (auto simp: u_def flagged_def deletions_on_def)
  qed
qed

lemma select_event_ok:
  assumes s: "data_ok A s" "room 4 s" and ev: "ev_ok A s ev"
  shows "holds_after (select_event ev s) (selected A ev s)"
proof -
  have room3: "room 3 s" using s(2) by (rule room_mono) simp
  have fl: "flags_ok s" using s(1) by (simp add: data_ok_def)
  have same: "selected A ev s (OperationNone, s)" if "ev_operation ev s = OperationNone"
    "ev_chan ev s = opChan s" "ev_acks ev = {}" "ev \<noteq> EvQuit"
    using s room3 that by (simp add: selected_def)
  show ?thesis
  proof (cases ev)
    case EvQuit
    then show ?thesis
      using s raise4 [OF fl s(2)]
      by (auto simp: selected_def data_ok_def flags_ok_def room_def flagged_def deletions_on_def)
  next
    case (EvUpdate upd)
    then show ?thesis
      using s raise4 [OF fl s(2)] same
      by (auto simp: selected_def data_ok_def)
  next
    case (EvFetchResult r order)
    have k: "known_ok A (rcv s)" using s(1) by (simp add: data_ok_def)
    note keeps = handleFetch_keeps [OF k, of r order]
    have "selected A ev s (OperationNone, s\<lparr>rcv := fst (handleFetch r order (rcv s))\<rparr>)"
      using s room3 keeps EvFetchResult
      by (auto simp: selected_def data_ok_def deletions_on_def flags_ok_def room_def flagged_def
          intro: ptrs_ok_mono)
    with EvFetchResult ev same show ?thesis by simp
  next
    case (EvDeleteResult r)
    obtain mr msg where h: "handleDelete r (rcv s) = (mr, msg)" by fastforce
    have "handler_ok A (rcv s) (mr, msg)"
      using handleDelete_keeps [of A "rcv s" r] s(1) ev EvDeleteResult h by (simp add: data_ok_def)
    from schedule_handled [OF s this order_refl] this
    show ?thesis using EvDeleteResult ev h
      by (auto simp: selected_def handler_ok_def intro!: holds_after_bind elim!: holds_after_mono)
  next
    case (EvAck r)
    obtain mr msg where h: "handleAck r (rcv s) = (mr, msg)" by fastforce
    have "handler_ok (A \<union> ev_acks ev) (rcv s) (mr, msg)"
      using handleAck_keeps [of A "rcv s" r] s(1) EvAck h by (simp add: data_ok_def)
    from schedule_handled [OF s this] this
    show ?thesis using EvAck h
      by (auto simp: selected_def handler_ok_def intro!: holds_after_bind elim!: holds_after_mono)
  next
    case EvTimeout
    then show ?thesis using s room3 by (simp add: selected_def)
  next
    case EvOp
    with ev obtain opn rest where "cbuf (opChan s) = opn # rest" by (auto simp: neq_Nil_conv)
    with EvOp s room3 show ?thesis
      by (auto simp: selected_def chan_recv_def data_ok_def flags_ok_def room_def flagged_def
          deletions_on_def)
  qed (use ev in simp)
qed

text \<open>What a turn in \<open>StateNone\<close> leads to.\<close>

definition started :: "u32 set \<Rightarrow> run_state \<Rightarrow> loop_next \<Rightarrow> bool" where
  "started A s n \<longleftrightarrow>
     (case n of
        Done t \<Rightarrow> flagged WantQuit s \<and> flagged WantQuit t \<and> rcv t = rcv s
          \<and> nextToProcess t = nextToProcess s
          \<and> (deletions_on s \<longrightarrow> nextToProcess t = Map.empty)
      | Continue t sp \<Rightarrow> data_ok A t \<and> rcv t = rcv s \<and> opChan t = opChan s
          \<and> flagged WantQuit t = flagged WantQuit s
          \<and> (case sp of
               None \<Rightarrow> False
             | Some (SpawnFetch existing) \<Rightarrow> rs_state t = StateInFetch
                 \<and> nextToProcess t = nextToProcess s \<and> \<not> flagged WantQuit s
             | Some (SpawnDelete m) \<Rightarrow> rs_state t = StateInDelete \<and> ptrs_ok A (rcv s) m
                 \<and> m = nextToProcess s \<and> m \<noteq> Map.empty \<and> nextToProcess t = Map.empty
             | Some (SpawnIdle c) \<Rightarrow> rs_state t = StateInIDLE \<and> c = channel (flags t WantStopIdle)
                 \<and> nextToProcess t = nextToProcess s \<and> \<not> flagged WantQuit s))"

lemma started_cong:
  assumes "rcv v = rcv s" "opChan v = opChan s" "nextToProcess v = nextToProcess s"
    "flagged WantQuit v = flagged WantQuit s" "started A v n"
  shows "started A s n"
  using assms(5) unfolding started_def deletions_on_def assms(1-4) .

lemma start_fetch_or_idle_ok:
  assumes "data_ok A s" "deletions_on s \<longrightarrow> nextToProcess s = Map.empty"
    and "flagged WantQuit s \<longrightarrow> \<not> flagged WantFetch s"
  shows "started A s (start_fetch_or_idle order s)"
proof -
  have fl: "flags_ok s" using assms(1) by (simp add: data_ok_def)
  show ?thesis
    using assms run_reset_ok [OF fl]
    by (auto simp: start_fetch_or_idle_def started_def Let_def data_ok_def FC_Channel_def
        flags_ok_def flagged_def deletions_on_def)
qed

lemma start_work_ok:
  assumes s: "data_ok A s" and q: "flagged WantQuit s \<longrightarrow> \<not> flagged WantFetch s"
  shows "started A s (start_work order s)"
proof (cases "flagged WantDelete s")
  case False
  with s have "deletions_on s \<longrightarrow> nextToProcess s = Map.empty" by (auto simp: data_ok_def)
  with False start_fetch_or_idle_ok [OF s _ q] show ?thesis by (simp add: start_work_def)
next
  case True
  define t where "t = run_reset WantDelete s"
  have fl: "flags_ok s" and fin: "finite (dom (nextToProcess s))"
    using s by (auto simp: data_ok_def ptrs_ok_def)
  note reset = run_reset_ok [OF fl, where f = WantDelete, folded t_def]
  have t: "rcv t = rcv s" "nextToProcess t = nextToProcess s" "opChan t = opChan s"
    "deletions_on t = deletions_on s" by (simp_all add: t_def)
  show ?thesis
  proof (cases "map_len (nextToProcess t) > 0")
    case False
    then have empty: "nextToProcess t = Map.empty" using map_len_0 [OF fin] t by simp
    with s reset t have "data_ok A t" by (simp add: data_ok_def)
    from start_fetch_or_idle_ok [OF this, of order] empty reset q
    have "started A t (start_fetch_or_idle order t)" by simp
    with False True t reset show ?thesis
      by (auto simp: start_work_def t_def [symmetric] started_def
          split: loop_next.splits option.splits spawn.splits)
  next
    case len: True
    then have "nextToProcess s \<noteq> Map.empty" using map_len_0 [OF fin] t by auto
    with len True s reset t show ?thesis
      by (auto simp: start_work_def t_def [symmetric] started_def data_ok_def flags_ok_def
          flagged_def deletions_on_def Let_def)
  qed
qed

lemma none_operation_ok:
  assumes s: "data_ok A s" "room 3 s" and opn: "opn = OperationNone \<or> opn = OperationTimeout"
  shows "holds_after (none_operation opn s) (\<lambda>t. data_ok A t \<and> room 1 t \<and> rcv t = rcv s
    \<and> opChan t = opChan s \<and> nextToProcess t = nextToProcess s
    \<and> flagged WantQuit t = flagged WantQuit s)"
proof (cases "opn = OperationNone")
  case True
  then show ?thesis using s room_mono [OF s(2), of 1] by (simp add: none_operation_def)
next
  case False
  with opn have T: "opn = OperationTimeout" by simp
  have fl: "flags_ok s" using s by (simp add: data_ok_def)
  define u where "u = raised WantFetch s"
  note u = raise3 [OF fl s(2), where f = WantFetch, folded u_def]
  have r: "room 2 u" "room 1 u" using u(3) room_mono [of 2 u 1] by auto
  note w = raise2 [OF u(2) r(1), where f = WantDelete]
  have "data_ok A u" using s u(2,4) by (auto simp: data_ok_def u_def)
  moreover have "rcv u = rcv s" "opChan u = opChan s" "nextToProcess u = nextToProcess s"
    by (simp_all add: u_def)
  ultimately show ?thesis
    using u(1,4) w r(2) by (auto simp: T none_operation_def data_ok_def)
qed

lemma quit_drops_fetch:
  assumes "data_ok A s" "room 1 s"
  defines "t \<equiv> (if flagged WantQuit s then run_reset WantFetch s else s)"
  shows "data_ok A t \<and> room 1 t \<and> rcv t = rcv s \<and> opChan t = opChan s
    \<and> nextToProcess t = nextToProcess s \<and> flagged WantQuit t = flagged WantQuit s
    \<and> (flagged WantQuit t \<longrightarrow> \<not> flagged WantFetch t)"
proof -
  have fl: "flags_ok s" using assms(1) by (simp add: data_ok_def)
  show ?thesis
    using assms run_reset_ok [OF fl, where f = WantFetch] by (auto simp: data_ok_def)
qed

lemma switch_none_ok:
  assumes s: "data_ok A s" "room 3 s" and opn: "opn = OperationNone \<or> opn = OperationTimeout"
  shows "holds_after (switch_none order opn s) (started A s)"
proof -
  obtain t where t: "none_operation opn s = Completes t" "data_ok A t" "room 1 t" "rcv t = rcv s"
    "opChan t = opChan s" "nextToProcess t = nextToProcess s"
    "flagged WantQuit t = flagged WantQuit s"
    using holds_afterD [OF none_operation_ok [OF s opn]] by blast
  define u where "u = (if flagged WantQuit t then run_reset WantFetch t else t)"
  have u: "data_ok A u" "room 1 u" "rcv u = rcv s" "opChan u = opChan s"
    "nextToProcess u = nextToProcess s" "flagged WantQuit u = flagged WantQuit s"
    "flagged WantQuit u \<longrightarrow> \<not> flagged WantFetch u"
    using quit_drops_fetch [OF t(2,3), folded u_def] t by simp_all
  have fl: "flags_ok u" using u(1) by (simp add: data_ok_def)
  define b where "b = (word_of_nat (map_len (nextToProcess u)) \<ge> batchSize (rcv u) \<and> deletions_on u)"
  define v where "v = (if b then raised WantDelete u else u)"
  note w = raise1 [OF fl u(2), where f = WantDelete]
  have "data_ok A v"
    using u(1) w(2,4) by (auto simp: v_def data_ok_def)
  moreover have "flagged WantQuit v \<longrightarrow> \<not> flagged WantFetch v"
    using u(7) w(4) by (auto simp: v_def)
  ultimately have "started A v (start_work order v)" by (rule start_work_ok)
  moreover have "rcv v = rcv s" "opChan v = opChan s" "nextToProcess v = nextToProcess s"
    "flagged WantQuit v = flagged WantQuit s"
    using u(3-6) w(4) by (auto simp: v_def)
  ultimately have "started A s (start_work order v)"
    using started_cong by blast
  moreover have "switch_none order opn s = Completes (start_work order v)"
    by (simp add: switch_none_def t(1) u_def [symmetric] Let_def w(7) v_def b_def)
  ultimately show ?thesis by simp
qed

text \<open>
  What a turn in another state leads to: it goes on in the same state, or, on the finish
  operation of the state, back to \<open>StateNone\<close> with a fresh \<open>OperationNone\<close> in the channel.
\<close>

fun finish_of :: "sstate \<Rightarrow> operation" where
  "finish_of StateInIDLE = OperationIDLEFinish"
| "finish_of StateInFetch = OperationFetchFinish"
| "finish_of StateInDelete = OperationDeleteFinish"
| "finish_of StateNone = OperationNone"

definition carried_on :: "u32 set \<Rightarrow> operation \<Rightarrow> run_state \<Rightarrow> loop_next \<Rightarrow> bool" where
  "carried_on A opn s n \<longleftrightarrow>
     (\<exists>t. n = Continue t None \<and> data_ok A t \<and> rcv t = rcv s \<and> nextToProcess t = nextToProcess s
        \<and> flagged WantQuit t = flagged WantQuit s
        \<and> (if opn = finish_of (rs_state s)
           then rs_state t = StateNone
             \<and> opChan t = (opChan s)\<lparr>cbuf := cbuf (opChan s) @ [OperationNone]\<rparr>
           else rs_state t = rs_state s \<and> opChan t = opChan s
             \<and> channel (flags t WantStopIdle) = channel (flags s WantStopIdle)
             \<and> (rs_state s = StateInIDLE \<longrightarrow> flagged WantStopIdle t \<and> flagged WantFetch t)))"

definition chan_room :: "'a chan \<Rightarrow> bool" where
  "chan_room c \<longleftrightarrow> \<not> cclosed c \<and> length (cbuf c) < ccap c"

lemma finish_operation_eq:
  "chan_room (opChan s) \<Longrightarrow> finish_operation s = Completes (Continue (s\<lparr>rs_state := StateNone,
     opChan := (opChan s)\<lparr>cbuf := cbuf (opChan s) @ [OperationNone]\<rparr>\<rparr>) None)"
  by (simp add: finish_operation_def chan_send_def chan_room_def)

lemma data_ok_cong:
  "data_ok A (s\<lparr>rs_state := st, opChan := ch\<rparr>) = data_ok A s"
  "flagged f (s\<lparr>rs_state := st, opChan := ch\<rparr>) = flagged f s"
  by (simp_all add: data_ok_def flags_ok_def flagged_def deletions_on_def)

lemma switch_busy_ok:
  assumes s: "data_ok A s" "room 3 s"
    and opn: "opn = OperationNone \<or> opn = OperationTimeout \<or> opn = finish_of (rs_state s)"
    and fin: "opn = finish_of (rs_state s) \<longrightarrow> chan_room (opChan s)"
  shows "rs_state s = StateInIDLE \<Longrightarrow> holds_after (switch_idle opn s) (carried_on A opn s)"
    and "rs_state s = StateInFetch \<Longrightarrow> holds_after (switch_fetch opn s) (carried_on A opn s)"
    and "rs_state s = StateInDelete \<Longrightarrow> holds_after (switch_delete opn s) (carried_on A opn s)"
proof -
  have fl: "flags_ok s" using s by (simp add: data_ok_def)
  note reset = run_reset_ok [OF fl, where f = WantStopIdle]
  define u where "u = raised WantFetch s"
  note u = raise3 [OF fl s(2), where f = WantFetch, folded u_def]
  note w = raise2 [OF u(2,3), where f = WantStopIdle]
  have "data_ok A u" and us: "rcv u = rcv s" "nextToProcess u = nextToProcess s"
    "rs_state u = rs_state s" "opChan u = opChan s"
    using s u(2,4) by (auto simp: data_ok_def u_def)
  then have "data_ok A (raised WantStopIdle u)" using w(2,4) by (auto simp: data_ok_def)
  have reset_ok: "data_ok A (run_reset WantStopIdle s)"
    using s reset(1,3) by (auto simp: data_ok_def)
  {
    assume st: "rs_state s = StateInIDLE"
    show "holds_after (switch_idle opn s) (carried_on A opn s)"
    proof (cases "opn = OperationIDLEFinish")
      case True
      with fin st have "chan_room (opChan (run_reset WantStopIdle s))" by simp
      with True st reset_ok reset(3) show ?thesis
        by (simp add: switch_idle_def finish_operation_eq carried_on_def data_ok_cong)
    next
      case False
      with st opn u(1,4,5) w(1,4,5) us \<open>data_ok A (raised WantStopIdle u)\<close> show ?thesis
        by (auto simp: switch_idle_def carried_on_def)
    qed
  }
  {
    assume st: "rs_state s = StateInFetch"
    then show "holds_after (switch_fetch opn s) (carried_on A opn s)"
      using opn fin s by (auto simp: switch_fetch_def finish_operation_eq carried_on_def data_ok_cong)
  }
  {
    assume st: "rs_state s = StateInDelete"
    then show "holds_after (switch_delete opn s) (carried_on A opn s)"
      using opn fin s u(1,4,5) us \<open>data_ok A u\<close>
      by (auto simp: switch_delete_def finish_operation_eq carried_on_def data_ok_cong)
  }
qed

end
