(* ===== verification/ReceiverLoop.thy ===== *)
theory ReceiverLoop
  imports Receiver
begin

text \<open>
  Facts about one iteration of the receiver's main loop that hold whatever the loop's state:
  how far it raises its flag counters, and that settings never change and switched-off
  deletions stay off.
\<close>

section \<open>How often an iteration raises a flag\<close>

definition counts_le :: "nat \<Rightarrow> run_state \<Rightarrow> run_state \<Rightarrow> bool" where
  "counts_le n s t \<longleftrightarrow> (\<forall>f. unat (counter (flags t f)) \<le> unat (counter (flags s f)) + n)"

lemma counts_le_refl [intro]: "flags t = flags s \<Longrightarrow> counts_le n s t"
  by (simp add: counts_le_def)

lemma counts_le_trans: "counts_le m s t \<Longrightarrow> counts_le n t u \<Longrightarrow> counts_le (m + n) s u"
  by (fastforce simp: counts_le_def intro: order_trans)

lemma unat_add_1_le: "unat (n + 1 :: uint) \<le> unat n + 1"
  by (simp add: unat_add_1)

lemma run_flag_counts: "run_flag f s = Completes t \<Longrightarrow> counts_le 1 s t"
  using unat_add_1_le
  by (auto simp: run_flag_def FC_Flag_def Let_def obind_eq_Completes counts_le_def
      split: if_splits)

lemma run_flag_if_counts: "run_flag_if b f s = Completes t \<Longrightarrow> counts_le 1 s t"
  using run_flag_counts [of f s t]
  by (auto simp: run_flag_if_def run_flag_def FC_FlagIf_def obind_eq_Completes split: if_splits)

lemma run_reset_counts: "counts_le 0 s (run_reset f s)"
  by (auto simp: run_reset_def FC_Reset_def make_sig_def counts_le_def)

lemma schedule_counts: "schedule msg s = Completes t \<Longrightarrow> counts_le 1 s t"
  by (auto simp: schedule_def counts_le_def split: option.splits dest!: run_flag_if_counts)

lemma select_event_counts:
  assumes "select_event ev s = Completes (opn, t)"
  shows "counts_le 1 s t"
proof (cases ev)
  case (EvAck r)
  then show ?thesis
    using assms by (auto simp: obind_eq_Completes counts_le_def split: prod.splits
        dest!: schedule_counts)
next
  case (EvDeleteResult r)
  then show ?thesis
    using assms by (auto simp: obind_eq_Completes counts_le_def split: prod.splits if_splits
        dest!: schedule_counts)
qed (use assms in \<open>auto simp: obind_eq_Completes counts_le_def
  split: if_splits outcome.splits option.splits prod.splits dest!: run_flag_counts\<close>)

lemma counts_le_mono: "counts_le m s t \<Longrightarrow> m \<le> n \<Longrightarrow> counts_le n s t"
  by (meson add_left_mono counts_le_def order_trans)

lemma none_operation_counts:
  assumes "none_operation opn s = Completes t"
  shows "counts_le 2 s t"
proof (cases opn)
  case OperationTimeout
  with assms obtain u where "run_flag WantFetch s = Completes u"
    "run_flag_if (deletions_on u) WantDelete u = Completes t"
    by (auto simp: none_operation_def obind_eq_Completes)
  from counts_le_trans [OF run_flag_counts [OF this(1)] run_flag_if_counts [OF this(2)]]
  show ?thesis by (rule counts_le_mono) simp
qed (use assms in \<open>auto simp: none_operation_def\<close>)

text \<open>The state an iteration ends in, if the loop goes on.\<close>

primrec next_counts_le :: "nat \<Rightarrow> run_state \<Rightarrow> loop_next \<Rightarrow> bool" where
  "next_counts_le n s (Continue t sp) = counts_le n s t"
| "next_counts_le n s (Done t) = counts_le n s t"

lemma next_counts_trans:
  "counts_le m s t \<Longrightarrow> next_counts_le n t r \<Longrightarrow> next_counts_le (m + n) s r"
  by (cases r) (auto intro: counts_le_trans)

lemma start_fetch_counts: "next_counts_le 0 s (start_fetch_or_idle order s)"
  using run_reset_counts [of s] by (auto simp: start_fetch_or_idle_def Let_def counts_le_def)

lemma start_work_counts: "next_counts_le 0 s (start_work order s)"
  using run_reset_counts [of s WantDelete] start_fetch_counts [of s order]
    next_counts_trans [OF run_reset_counts [of s WantDelete] start_fetch_counts [of _ order]]
  by (auto simp: start_work_def Let_def counts_le_def)

lemma switch_none_counts:
  assumes "switch_none order opn s = Completes r"
  shows "next_counts_le 3 s r"
proof -
  obtain t where t: "none_operation opn s = Completes t"
    using assms by (auto simp: switch_none_def obind_eq_Completes)
  define u where "u = (if flagged WantQuit t then run_reset WantFetch t else t)"
  have "counts_le 0 t u" using run_reset_counts by (auto simp: u_def)
  moreover obtain v where "counts_le 1 u v" and r: "r = start_work order v"
    using assms by (auto simp: switch_none_def t u_def [symmetric] obind_eq_Completes Let_def
        split: if_splits dest!: run_flag_if_counts)
  ultimately have "counts_le (2 + (0 + 1)) s v"
    using none_operation_counts [OF t] by (blast intro: counts_le_trans)
  from next_counts_trans [OF this start_work_counts, of order] r show ?thesis by simp
qed

lemma finish_operation_counts: "finish_operation s = Completes r \<Longrightarrow> next_counts_le 0 s r"
  by (auto simp: finish_operation_def obind_eq_Completes counts_le_def)

lemma next_counts_mono: "next_counts_le m s r \<Longrightarrow> m \<le> n \<Longrightarrow> next_counts_le n s r"
  by (cases r) (auto intro: counts_le_mono)

lemma switch_idle_counts:
  assumes "switch_idle opn s = Completes r"
  shows "next_counts_le 2 s r"
proof (cases "opn = OperationIDLEFinish")
  case True
  with assms have "finish_operation (run_reset WantStopIdle s) = Completes r"
    by (simp add: switch_idle_def)
  from next_counts_trans [OF run_reset_counts finish_operation_counts [OF this]]
  show ?thesis by (rule next_counts_mono) simp
next
  case False
  with assms obtain u t where "run_flag WantFetch s = Completes u"
    "run_flag WantStopIdle u = Completes t" "r = Continue t None"
    by (auto simp: switch_idle_def obind_eq_Completes split: if_splits)
  with counts_le_mono [OF counts_le_trans [OF run_flag_counts run_flag_counts], of _ _ _ _ _ 2]
  show ?thesis by simp
qed

lemma switch_fetch_counts: "switch_fetch opn s = Completes r \<Longrightarrow> next_counts_le 2 s r"
  by (auto simp: switch_fetch_def split: operation.splits
      dest!: finish_operation_counts intro: next_counts_mono)

lemma switch_delete_counts: "switch_delete opn s = Completes r \<Longrightarrow> next_counts_le 2 s r"
  by (auto simp: switch_delete_def obind_eq_Completes split: operation.splits
      dest!: finish_operation_counts run_flag_counts intro: next_counts_mono counts_le_mono)

lemmas switch_counts = switch_none_counts switch_idle_counts switch_fetch_counts
  switch_delete_counts

lemma tick_counts:
  assumes "tick order ev s = Completes r"
  shows "next_counts_le 4 s r"
proof -
  obtain opn t where t: "select_event ev s = Completes (opn, t)"
    and r: "(case rs_state t of StateNone \<Rightarrow> switch_none order opn t
       | StateInIDLE \<Rightarrow> switch_idle opn t | StateInFetch \<Rightarrow> switch_fetch opn t
       | StateInDelete \<Rightarrow> switch_delete opn t) = Completes r"
    using assms by (auto simp: tick_def obind_eq_Completes)
  have "next_counts_le 3 t r"
    using r by (auto split: sstate.splits dest!: switch_counts intro: next_counts_mono)
  from next_counts_trans [OF select_event_counts [OF t] this] show ?thesis by simp
qed

section \<open>Settings and switched-off deletions\<close>

definition settings :: "mailReceiver \<Rightarrow> uint \<times> duration \<times> uint \<times> duration \<times> bool" where
  "settings mr = (batchSize mr, idleFallbackInterval mr, fetchBufferSize mr, fetchMaxInterval mr,
     disableDeletions mr)"

text \<open>
  Settings never change, and with deletions switched off the delete flag stays down.
\<close>

definition steady :: "run_state \<Rightarrow> run_state \<Rightarrow> bool" where
  "steady s t \<longleftrightarrow> settings (rcv t) = settings (rcv s)
     \<and> (\<not> deletions_on s \<longrightarrow> \<not> flagged WantDelete s \<longrightarrow> \<not> flagged WantDelete t)"

lemma steady_refl [simp]: "steady s s"
  by (simp add: steady_def)

lemma deletions_on_settings: "settings (rcv t) = settings (rcv s) \<Longrightarrow> deletions_on t = deletions_on s"
  by (simp add: settings_def deletions_on_def)

lemma steady_trans: "steady s t \<Longrightarrow> steady t u \<Longrightarrow> steady s u"
  using deletions_on_settings [of t s] by (simp add: steady_def)

lemma steady_flag: "run_flag f s = Completes t \<Longrightarrow> f \<noteq> WantDelete \<Longrightarrow> steady s t"
  by (auto simp: run_flag_def obind_eq_Completes steady_def flagged_def)

lemma steady_flag_if:
  "run_flag_if (deletions_on s) WantDelete s = Completes t \<Longrightarrow> steady s t"
  by (cases "deletions_on s")
    (auto simp: run_flag_if_def FC_FlagIf_def obind_eq_Completes steady_def flagged_def)

lemma steady_reset: "steady s (run_reset f s)"
  by (auto simp: run_reset_def steady_def flagged_def FC_Reset_def make_sig_def FC_IsFlagged_def)

lemma steady_schedule:
  assumes "schedule msg s = Completes t"
  shows "steady s t"
proof (cases msg)
  case (Some p)
  let ?u = "s\<lparr>nextToProcess := (nextToProcess s)(ms_UID (heap (rcv s) ! p) \<mapsto> p)\<rparr>"
  have "run_flag_if (deletions_on ?u) WantDelete ?u = Completes t"
    using assms Some by (simp add: schedule_def deletions_on_def)
  then have "steady ?u t" by (rule steady_flag_if)
  then show ?thesis by (simp add: steady_def flagged_def deletions_on_def)
qed (use assms in \<open>simp add: schedule_def\<close>)

lemma settings_handlers:
  "settings (fst (handleFetch_loop fetched uids mr num)) = settings mr"
  "settings (fst (handleDelete d mr)) = settings mr"
  "settings (fst (handleAck a mr)) = settings mr"
proof -
  show "settings (fst (handleFetch_loop fetched uids mr num)) = settings mr"
    by (induction fetched uids mr num rule: handleFetch_loop.induct) (auto simp: Let_def settings_def)
qed (auto simp: handleDelete_def handleAck_def settings_def set_state_def split: option.splits)

lemma steady_rcv: "settings mr = settings (rcv s) \<Longrightarrow> steady s (s\<lparr>rcv := mr\<rparr>)"
  by (simp add: steady_def flagged_def)

lemma steady_select:
  assumes "select_event ev s = Completes (opn, t)"
  shows "steady s t"
proof (cases ev)
  case (EvAck r)
  obtain mr msg where h: "handleAck r (rcv s) = (mr, msg)" by fastforce
  with EvAck assms have "schedule msg (s\<lparr>rcv := mr\<rparr>) = Completes t"
    by (auto simp: obind_eq_Completes)
  from steady_trans [OF steady_rcv steady_schedule [OF this]] settings_handlers(3) [of r "rcv s"] h
  show ?thesis by simp
next
  case (EvDeleteResult r)
  obtain mr msg where h: "handleDelete r (rcv s) = (mr, msg)" by fastforce
  with EvDeleteResult assms have "schedule msg (s\<lparr>rcv := mr\<rparr>) = Completes t"
    by (auto simp: obind_eq_Completes split: if_splits)
  from steady_trans [OF steady_rcv steady_schedule [OF this]] settings_handlers(2) [of r "rcv s"] h
  show ?thesis by simp
next
  case (EvFetchResult r order)
  with assms show ?thesis
    by (auto simp: handleFetch_def settings_handlers intro!: steady_rcv split: if_splits)
next
  case EvQuit
  with assms obtain u where "run_flag WantQuit s = Completes u" "t = u\<lparr>flagQuits := Suc (flagQuits u)\<rparr>"
    by (auto simp: obind_eq_Completes)
  with steady_flag [of WantQuit s u] show ?thesis
    by (simp add: steady_def flagged_def)
qed (use assms in \<open>auto simp: obind_eq_Completes chan_recv_def steady_def flagged_def
  split: if_splits outcome.splits option.splits list.splits dest!: steady_flag\<close>)

lemma steady_none_operation:
  assumes "none_operation opn s = Completes t"
  shows "steady s t"
proof (cases opn)
  case OperationTimeout
  with assms obtain u where "run_flag WantFetch s = Completes u"
    "run_flag_if (deletions_on u) WantDelete u = Completes t"
    by (auto simp: none_operation_def obind_eq_Completes)
  then show ?thesis by (blast intro: steady_trans steady_flag steady_flag_if)
qed (use assms in \<open>auto simp: none_operation_def\<close>)

definition steady_next :: "run_state \<Rightarrow> loop_next \<Rightarrow> bool" where
  "steady_next s n \<longleftrightarrow> (case n of
     Continue t sp \<Rightarrow> steady s t
       \<and> (\<not> deletions_on s \<longrightarrow> \<not> flagged WantDelete s \<longrightarrow> (\<forall>m. sp \<noteq> Some (SpawnDelete m)))
   | Done t \<Rightarrow> steady s t)"

lemma steady_next_trans: "steady s t \<Longrightarrow> steady_next t n \<Longrightarrow> steady_next s n"
  using deletions_on_settings [of t s] steady_trans [of s t]
  by (auto simp: steady_next_def steady_def split: loop_next.splits)

lemma steady_rs_state:
  "steady s (t\<lparr>rs_state := st\<rparr>) = steady s t"
  "steady s (t\<lparr>rs_state := st, nextToProcess := m\<rparr>) = steady s t"
  "steady s (t\<lparr>rs_state := st, opChan := ch\<rparr>) = steady s t"
  by (simp_all add: steady_def flagged_def)

lemma steady_start_fetch: "steady_next s (start_fetch_or_idle order s)"
  using steady_reset [of s]
  by (auto simp: start_fetch_or_idle_def steady_next_def Let_def steady_rs_state)

lemma steady_start_work: "steady_next s (start_work order s)"
  using steady_reset [of s WantDelete] steady_start_fetch [of s order]
    steady_next_trans [OF steady_reset [of s WantDelete] steady_start_fetch [of _ order]]
  by (auto simp: start_work_def steady_next_def Let_def steady_rs_state split: loop_next.splits)

lemma steady_switch_none:
  assumes "switch_none order opn s = Completes r"
  shows "steady_next s r"
proof -
  obtain t where t: "none_operation opn s = Completes t"
    using assms by (auto simp: switch_none_def obind_eq_Completes)
  define u where "u = (if flagged WantQuit t then run_reset WantFetch t else t)"
  have "steady t u" using steady_reset by (auto simp: u_def)
  moreover obtain v where "steady u v" and r: "r = start_work order v"
    using assms that [OF steady_refl [of u]]
    by (auto simp: switch_none_def t u_def [symmetric] obind_eq_Completes Let_def
        split: if_splits dest!: steady_flag_if)
  ultimately have "steady s v"
    using steady_none_operation [OF t] by (blast intro: steady_trans)
  from steady_next_trans [OF this steady_start_work] r show ?thesis by simp
qed

lemma steady_finish: "finish_operation s = Completes r \<Longrightarrow> steady_next s r"
  by (auto simp: finish_operation_def obind_eq_Completes steady_next_def steady_rs_state)

lemma steady_switch_busy:
  "switch_idle opn s = Completes r \<Longrightarrow> steady_next s r"
  "switch_fetch opn s = Completes r \<Longrightarrow> steady_next s r"
  "switch_delete opn s = Completes r \<Longrightarrow> steady_next s r"
proof -
  have flag: "steady_next s (Continue t None)" if "steady s t" for t
    using that by (simp add: steady_next_def)
  show "switch_idle opn s = Completes r \<Longrightarrow> steady_next s r"
    using steady_next_trans [OF steady_reset [of s WantStopIdle] steady_finish]
    by (auto simp: switch_idle_def obind_eq_Completes split: if_splits dest!: steady_flag
        intro!: flag intro: steady_trans)
  show "switch_fetch opn s = Completes r \<Longrightarrow> steady_next s r"
    by (auto simp: switch_fetch_def split: operation.splits intro: steady_finish flag)
  show "switch_delete opn s = Completes r \<Longrightarrow> steady_next s r"
    by (auto simp: switch_delete_def obind_eq_Completes split: operation.splits
        intro: steady_finish flag dest!: steady_flag)
qed

lemma steady_tick:
  assumes "tick order ev s = Completes r"
  shows "steady_next s r"
proof -
  obtain opn t where t: "select_event ev s = Completes (opn, t)"
    and r: "(case rs_state t of StateNone \<Rightarrow> switch_none order opn t
       | StateInIDLE \<Rightarrow> switch_idle opn t | StateInFetch \<Rightarrow> switch_fetch opn t
       | StateInDelete \<Rightarrow> switch_delete opn t) = Completes r"
    using assms by (auto simp: tick_def obind_eq_Completes)
  have "steady_next t r"
    using r by (auto split: sstate.splits intro: steady_switch_none steady_switch_busy)
  from steady_next_trans [OF steady_select [OF t] this] show ?thesis .
qed

end
