(* ===== verification/ReceiverSystem.thy ===== *)
theory ReceiverSystem
  imports ReceiverLoop
begin

text \<open>
  The receiver as it runs: the main loop of \<open>receiver/receiver.go\<close>, the goroutines it
  starts, and the channels between them, as a transition system. The order in which the
  loop's events arrive, the answers of the server and the moments at which goroutines go
  on are left open; every reachable state is shown to satisfy one invariant, from which
  the safety properties of the receiver follow.
\<close>

section \<open>Goroutines\<close>

text \<open>
  A goroutine started by the loop: inside \<open>client.Idle\<close> with its stop channel, in
  \<open>doFetch\<close> or blocked on its result channel, in \<open>doDelete\<close> or with results left to
  write, and about to write its finish operation to \<open>opChan\<close>. \<open>imapChannel\<close> is
  unbuffered, so a result is handed over in the step in which the loop takes it.
\<close>

datatype goroutine =
    IdleRunning nat
  | FetchRunning SeqSet
  | FetchSending fetchResult
  | DeleteRunning "u32 \<rightharpoonup> nat"
  | DeleteSending "deleteResult list"
  | Finishing operation

primrec spawned :: "spawn \<Rightarrow> goroutine" where
  "spawned (SpawnFetch existing) = FetchRunning existing"
| "spawned (SpawnDelete m) = DeleteRunning m"
| "spawned (SpawnIdle stop) = IdleRunning stop"

definition spawned_work :: "spawn option \<Rightarrow> goroutine list" where
  "spawned_work sp = (case sp of None \<Rightarrow> [] | Some p \<Rightarrow> [spawned p])"

text \<open>The UIDs a list of calls flags as deleted on the server.\<close>

fun store_uids :: "imap_call list \<Rightarrow> u32 set" where
  "store_uids [] = {}"
| "store_uids (CUidStore seqset item value # cs) = {q. SeqSet_Contains seqset q} \<union> store_uids cs"
| "store_uids (c # cs) = store_uids cs"

text \<open>
  A goroutine goes on by itself; the last argument are the UIDs it flags as deleted.
\<close>

inductive go_step :: "run_state \<Rightarrow> goroutine \<Rightarrow> goroutine \<Rightarrow> u32 set \<Rightarrow> bool" where
  idle_returns: "go_step l (IdleRunning stop) (Finishing OperationIDLEFinish) {}"
| fetch_nothing: "doFetch sv existing (fetchBufferSize (rcv l)) order = (b, []) \<Longrightarrow>
    go_step l (FetchRunning existing) (Finishing OperationFetchFinish) {}"
| fetch_result: "doFetch sv existing (fetchBufferSize (rcv l)) order = (b, [r]) \<Longrightarrow>
    go_step l (FetchRunning existing) (FetchSending r) {}"
| delete_runs: "map_iteration m order \<Longrightarrow>
    doDelete sv (deref (rcv l) m) order = (rs, calls) \<Longrightarrow>
    go_step l (DeleteRunning m) (DeleteSending rs) (store_uids calls)"
| delete_ends: "go_step l (DeleteSending []) (Finishing OperationDeleteFinish) {}"

section \<open>The system\<close>

datatype loop_status = Running | Exited | Crashed string | Stuck

text \<open>
  Beside the program's state: the UIDs whose nil acknowledgement the loop received, the
  UIDs flagged as deleted on the server, and the number of iterations.
\<close>

record recv_sys =
  loop :: run_state
  status :: loop_status
  work :: "goroutine list"
  acked :: "u32 set"
  stored :: "u32 set"
  ticks :: nat

definition recv_start :: "mailReceiver \<Rightarrow> recv_sys" where
  "recv_start mr = \<lparr>loop = run_init mr, status = Running, work = [], acked = {}, stored = {},
     ticks = 0\<rparr>"

definition recv_init :: "recv_sys \<Rightarrow> bool" where
  "recv_init s \<longleftrightarrow> (\<exists>cfg mr. NewReceiver None cfg = Inr mr \<and> s = recv_start mr)"

text \<open>
  The events the \<open>select\<close> of the loop can take, and the goroutines afterwards. \<open>Ack\<close>
  drops the UID 0, so none arrives with it.
\<close>

inductive loop_takes :: "recv_sys \<Rightarrow> loop_event \<Rightarrow> goroutine list \<Rightarrow> bool" where
  "loop_takes s EvQuit (work s)"
| "loop_takes s (EvUpdate upd) (work s)"
| "loop_takes s EvTimeout (work s)"
| "cbuf (opChan (loop s)) \<noteq> [] \<Longrightarrow> loop_takes s EvOp (work s)"
| "ar_UID r \<noteq> 0 \<Longrightarrow> loop_takes s (EvAck r) (work s)"
| "work s = ws @ FetchSending r # vs \<Longrightarrow> map_iteration (fr_Messages r) order \<Longrightarrow>
    loop_takes s (EvFetchResult r order) (ws @ Finishing OperationFetchFinish # vs)"
| "work s = ws @ DeleteSending (r # rs) # vs \<Longrightarrow>
    loop_takes s (EvDeleteResult r) (ws @ DeleteSending rs # vs)"

definition turned :: "loop_event \<Rightarrow> goroutine list \<Rightarrow> recv_sys \<Rightarrow> recv_sys" where
  "turned ev ws s = s\<lparr>work := ws, acked := acked s \<union> ev_acks ev, ticks := Suc (ticks s)\<rparr>"

inductive recv_step :: "recv_sys \<Rightarrow> recv_sys \<Rightarrow> bool" where
  turn_continue: "status s = Running \<Longrightarrow> loop_takes s ev ws \<Longrightarrow>
    tick order ev (loop s) = Completes (Continue l sp) \<Longrightarrow>
    map_iteration (messages (rcv l)) order \<Longrightarrow>
    recv_step s ((turned ev (ws @ spawned_work sp) s)\<lparr>loop := l\<rparr>)"
| turn_exit: "status s = Running \<Longrightarrow> loop_takes s ev ws \<Longrightarrow>
    tick order ev (loop s) = Completes (Done l) \<Longrightarrow>
    recv_step s ((turned ev ws s)\<lparr>loop := l, status := Exited\<rparr>)"
| turn_panic: "status s = Running \<Longrightarrow> loop_takes s ev ws \<Longrightarrow>
    tick order ev (loop s) = Panics m \<Longrightarrow>
    recv_step s ((turned ev ws s)\<lparr>status := Crashed m\<rparr>)"
| turn_stuck: "status s = Running \<Longrightarrow> loop_takes s ev ws \<Longrightarrow>
    tick order ev (loop s) = Blocks \<Longrightarrow>
    recv_step s ((turned ev ws s)\<lparr>status := Stuck\<rparr>)"
| work_goes_on: "work s = ws @ g # vs \<Longrightarrow> go_step (loop s) g g' st \<Longrightarrow>
    recv_step s (s\<lparr>work := ws @ g' # vs, stored := stored s \<union> st\<rparr>)"
| work_finishes: "work s = ws @ Finishing opn # vs \<Longrightarrow>
    chan_send opn (opChan (loop s)) = Completes ch \<Longrightarrow>
    recv_step s (s\<lparr>loop := (loop s)\<lparr>opChan := ch\<rparr>, work := ws @ vs\<rparr>)"

inductive_cases go_step_cases: "go_step l g g' st"
inductive_cases loop_takes_cases: "loop_takes s ev ws"
inductive_cases recv_step_cases: "recv_step s t"

section \<open>The invariant\<close>

text \<open>The goroutines that belong to a state of the loop.\<close>

fun belongs :: "sstate \<Rightarrow> goroutine \<Rightarrow> bool" where
  "belongs StateInIDLE (IdleRunning stop) = True"
| "belongs StateInFetch (FetchRunning existing) = True"
| "belongs StateInFetch (FetchSending r) = True"
| "belongs StateInDelete (DeleteRunning m) = True"
| "belongs StateInDelete (DeleteSending rs) = True"
| "belongs st (Finishing opn) = (st \<noteq> StateNone \<and> opn = finish_of st)"
| "belongs _ _ = False"

lemma belongs_None [simp]: "\<not> belongs StateNone g"
  by (cases g) auto

text \<open>
  The loop is idle, or one goroutine of its state runs, or the finish operation of its
  state is in the channel; otherwise the channel holds at most one \<open>OperationNone\<close>.
\<close>

definition phase_ok :: "sstate \<Rightarrow> operation chan \<Rightarrow> goroutine list \<Rightarrow> bool" where
  "phase_ok st ch w \<longleftrightarrow> \<not> cclosed ch \<and> ccap ch = 1 \<and>
     (if w = [] then (if st = StateNone then cbuf ch \<in> {[], [OperationNone]}
                      else cbuf ch = [finish_of st])
      else cbuf ch \<in> {[], [OperationNone]} \<and> (\<exists>g. w = [g] \<and> belongs st g))"

definition answer_ok :: "u32 set \<Rightarrow> deleteResult \<Rightarrow> bool" where
  "answer_ok A r \<longleftrightarrow> dr_State r = StateDeleted \<or> dr_State r = StateAcked \<and> dr_UID r \<in> A"

fun work_ok :: "u32 set \<Rightarrow> run_state \<Rightarrow> goroutine \<Rightarrow> bool" where
  "work_ok A l (IdleRunning stop) = (stop = channel (flags l WantStopIdle))"
| "work_ok A l (DeleteRunning m) = ptrs_ok A (rcv l) m"
| "work_ok A l (DeleteSending rs) = (\<forall>r\<in>set rs. answer_ok A r)"
| "work_ok A l _ = True"

definition running_ok :: "recv_sys \<Rightarrow> bool" where
  "running_ok s \<longleftrightarrow> data_ok (acked s) (loop s)
     \<and> phase_ok (rs_state (loop s)) (opChan (loop s)) (work s)
     \<and> (\<forall>g\<in>set (work s). work_ok (acked s) (loop s) g)
     \<and> (\<forall>f. unat (counter (flags (loop s) f)) \<le> 4 * ticks s)"

definition exited_ok :: "recv_sys \<Rightarrow> bool" where
  "exited_ok s \<longleftrightarrow> work s = [] \<and> flagged WantQuit (loop s)
     \<and> (deletions_on (loop s) \<longrightarrow> nextToProcess (loop s) = Map.empty)"

definition recv_ok :: "recv_sys \<Rightarrow> bool" where
  "recv_ok s \<longleftrightarrow> 0 \<notin> acked s \<and> stored s \<subseteq> acked s \<and>
     (status s = Running \<and> running_ok s \<or> status s = Exited \<and> exited_ok s)"

text \<open>
  The flag counters are 64-bit: the invariant covers the first \<open>2 ^ 62 - 1\<close> iterations of
  the loop.
\<close>

definition recv_inv :: "recv_sys \<Rightarrow> bool" where
  "recv_inv s \<longleftrightarrow> (4 * ticks s < 2 ^ 64 \<longrightarrow> recv_ok s)"

text \<open>What the loop can take from well-formed goroutines is fit for its state.\<close>

lemma takes_fit:
  assumes "running_ok s" and "loop_takes s ev ws"
  shows "ev_ok (acked s) (loop s) ev"
    and "rs_state (loop s) = StateNone \<Longrightarrow> ws = [] \<and> ev_operation ev (loop s) \<in> {OperationNone, OperationTimeout}"
    and "ev_operation ev (loop s) \<in> {OperationNone, OperationTimeout, finish_of (rs_state (loop s))}"
    and "rs_state (loop s) \<noteq> StateNone \<Longrightarrow> ev_operation ev (loop s) = finish_of (rs_state (loop s))
      \<Longrightarrow> ws = [] \<and> cbuf (ev_chan ev (loop s)) = []"
    and "rs_state (loop s) \<noteq> StateNone \<Longrightarrow> ev_operation ev (loop s) \<noteq> finish_of (rs_state (loop s))
      \<Longrightarrow> phase_ok (rs_state (loop s)) (ev_chan ev (loop s)) ws"
    and "\<forall>g\<in>set ws. work_ok (acked s) (loop s) g"
proof -
  have phase: "phase_ok (rs_state (loop s)) (opChan (loop s)) (work s)"
    and work: "\<forall>g\<in>set (work s). work_ok (acked s) (loop s) g"
    using assms(1) by (simp_all add: running_ok_def)
  note defs = phase_ok_def answer_ok_def append_eq_Cons_conv Cons_eq_append_conv
  show "ev_ok (acked s) (loop s) ev"
    using assms(2) phase work
    by cases (cases "rs_state (loop s)"; auto simp: defs)+
  show "ws = [] \<and> ev_operation ev (loop s) \<in> {OperationNone, OperationTimeout}"
    if "rs_state (loop s) = StateNone"
    using assms(2) phase that by cases (auto simp: defs split: if_splits)
  show "ev_operation ev (loop s) \<in> {OperationNone, OperationTimeout, finish_of (rs_state (loop s))}"
    using assms(2) phase by cases (auto simp: defs split: if_splits)
  show "ws = [] \<and> cbuf (ev_chan ev (loop s)) = []"
    if "rs_state (loop s) \<noteq> StateNone" "ev_operation ev (loop s) = finish_of (rs_state (loop s))"
    using assms(2) phase that
    by cases (cases "rs_state (loop s)"; auto simp: defs split: if_splits)+
  show "phase_ok (rs_state (loop s)) (ev_chan ev (loop s)) ws"
    if "rs_state (loop s) \<noteq> StateNone" "ev_operation ev (loop s) \<noteq> finish_of (rs_state (loop s))"
    using assms(2) phase that
    by cases (cases "rs_state (loop s)"; auto simp: defs split: if_splits)+
  show "\<forall>g\<in>set ws. work_ok (acked s) (loop s) g"
    using assms(2) work by cases auto
qed

section \<open>Every step keeps the invariant\<close>

lemma select_room:
  assumes "running_ok s" and "4 * Suc (ticks s) < (2 :: nat) ^ 64"
  shows "room 4 (loop s)"
  unfolding room_def
proof
  fix f
  have "unat (counter (flags (loop s) f)) \<le> 4 * ticks s"
    using assms(1) by (simp add: running_ok_def)
  with assms(2) show "unat (counter (flags (loop s) f)) + 4 < 2 ^ 64" by simp
qed

text \<open>An iteration of the loop of a well-formed system neither panics nor blocks.\<close>

lemma turn_result:
  assumes ok: "running_ok s" and takes: "loop_takes s ev ws"
    and bound: "4 * Suc (ticks s) < (2 :: nat) ^ 64"
  obtains u n where "selected (acked s) ev (loop s) (ev_operation ev (loop s), u)"
    and "select_event ev (loop s) = Completes (ev_operation ev (loop s), u)"
    and "tick order ev (loop s) = Completes n"
    and "rs_state (loop s) = StateNone \<Longrightarrow> started (acked s \<union> ev_acks ev) u n"
    and "rs_state (loop s) \<noteq> StateNone \<Longrightarrow>
      carried_on (acked s \<union> ev_acks ev) (ev_operation ev (loop s)) u n"
proof -
  note fit = takes_fit [OF ok takes]
  have "data_ok (acked s) (loop s)" using ok by (simp add: running_ok_def)
  from holds_afterD [OF select_event_ok [OF this select_room [OF ok bound] fit(1)]]
  obtain r where r: "select_event ev (loop s) = Completes r" "selected (acked s) ev (loop s) r"
    by blast
  define u where "u = snd r"
  define opn where "opn = ev_operation ev (loop s)"
  have r_eq: "r = (opn, u)" using r(2) by (simp add: selected_def u_def opn_def prod_eq_iff)
  with r(2) have u: "data_ok (acked s \<union> ev_acks ev) u" "room 3 u" "rs_state u = rs_state (loop s)"
    "opChan u = ev_chan ev (loop s)"
    by (simp_all add: selected_def)
  have room: "opn = finish_of (rs_state u) \<longrightarrow> chan_room (opChan u)" if "rs_state u \<noteq> StateNone"
  proof
    assume "opn = finish_of (rs_state u)"
    with fit(4) u(3) that have "cbuf (opChan u) = []" by (simp add: opn_def u(4))
    moreover have "\<not> cclosed (opChan u)" "ccap (opChan u) = 1"
      using ok u(4) by (cases ev; simp add: running_ok_def phase_ok_def)+
    ultimately show "chan_room (opChan u)" by (simp add: chan_room_def)
  qed
  have opn: "opn = OperationNone \<or> opn = OperationTimeout \<or> opn = finish_of (rs_state u)"
    using fit(3) u(3) by (auto simp: opn_def)
  note busy = switch_busy_ok [OF u(1,2) opn room]
  note none = switch_none_ok [OF u(1,2)]
  show thesis
  proof (cases "rs_state u")
    case StateNone
    with fit(2) u(3) none [of opn order] have "holds_after (switch_none order opn u) (started (acked s \<union> ev_acks ev) u)"
      by (auto simp: opn_def)
    from holds_afterD [OF this] show thesis
      using that r r_eq StateNone u(3) by (auto simp: tick_def opn_def)
  next
    case StateInIDLE
    then show thesis
      using that r r_eq u(3) holds_afterD [OF busy(1)] by (auto simp: tick_def opn_def)
  next
    case StateInFetch
    then show thesis
      using that r r_eq u(3) holds_afterD [OF busy(2)] by (auto simp: tick_def opn_def)
  next
    case StateInDelete
    then show thesis
      using that r r_eq u(3) holds_afterD [OF busy(3)] by (auto simp: tick_def opn_def)
  qed
qed

lemma work_ok_mono:
  assumes "work_ok A l g" and "A \<subseteq> B" and "heap_le (rcv l) (rcv l')"
    and "channel (flags l' WantStopIdle) = channel (flags l WantStopIdle)"
  shows "work_ok B l' g"
  using assms by (cases g) (auto simp: answer_ok_def intro: ptrs_ok_mono)

lemma work_ok_selected:
  assumes "selected A ev l (opn, u)" and "work_ok A l g"
  shows "work_ok (A \<union> ev_acks ev) u g"
  using assms by (auto simp: selected_def intro: work_ok_mono)

lemma turn_continue_ok:
  assumes ok: "running_ok s" and takes: "loop_takes s ev ws"
    and bound: "4 * Suc (ticks s) < (2 :: nat) ^ 64"
    and tick: "tick order ev (loop s) = Completes (Continue l sp)"
  shows "running_ok ((turned ev (ws @ spawned_work sp) s)\<lparr>loop := l\<rparr>)"
proof -
  let ?A = "acked s \<union> ev_acks ev" and ?opn = "ev_operation ev (loop s)"
  note fit = takes_fit [OF ok takes]
  obtain u where u: "selected (acked s) ev (loop s) (?opn, u)"
    and none: "rs_state (loop s) = StateNone \<Longrightarrow> started ?A u (Continue l sp)"
    and busy: "rs_state (loop s) \<noteq> StateNone \<Longrightarrow> carried_on ?A ?opn u (Continue l sp)"
    using turn_result [OF ok takes bound, of order] tick by auto
  have us: "rs_state u = rs_state (loop s)" "opChan u = ev_chan ev (loop s)"
    using u by (simp_all add: selected_def)
  have chan: "\<not> cclosed (opChan u)" "ccap (opChan u) = 1"
    using ok us(2) by (cases ev; simp add: running_ok_def phase_ok_def)+
  have ws: "\<forall>g\<in>set ws. work_ok ?A u g"
    using fit(6) work_ok_selected [OF u] by blast
  have counts: "unat (counter (flags l f)) \<le> 4 * Suc (ticks s)" for f
  proof -
    have "unat (counter (flags l f)) \<le> unat (counter (flags (loop s) f)) + 4"
      using tick_counts [OF tick] by (simp add: counts_le_def)
    moreover have "unat (counter (flags (loop s) f)) \<le> 4 * ticks s"
      using ok by (simp add: running_ok_def)
    ultimately show ?thesis by simp
  qed
  have "data_ok ?A l \<and> phase_ok (rs_state l) (opChan l) (ws @ spawned_work sp)
    \<and> (\<forall>g\<in>set (ws @ spawned_work sp). work_ok ?A l g)"
  proof (cases "rs_state (loop s) = StateNone")
    case True
    from fit(2) [OF True] have "ws = []" by simp
    moreover have "cbuf (opChan u) \<in> {[], [OperationNone]}"
      using ok True us(2) by (cases ev) (auto simp: running_ok_def phase_ok_def split: if_splits)
    ultimately show ?thesis
      using none [OF True] chan
      by (auto simp: started_def phase_ok_def spawned_work_def split: option.splits spawn.splits)
  next
    case busy_state: False
    note c = busy [OF busy_state]
    then have sp: "sp = None" and rcv: "rcv l = rcv u" by (auto simp: carried_on_def)
    show ?thesis
    proof (cases "?opn = finish_of (rs_state u)")
      case True
      with fit(4) [OF busy_state] us have "ws = []" "cbuf (opChan u) = []" by auto
      with c True chan sp show ?thesis
        by (auto simp: carried_on_def phase_ok_def spawned_work_def)
    next
      case False
      with fit(5) [OF busy_state] us have "phase_ok (rs_state u) (opChan u) ws" by simp
      moreover have "\<forall>g\<in>set ws. work_ok ?A l g"
        using ws work_ok_mono [of ?A u _ ?A l] c False rcv by (auto simp: carried_on_def)
      ultimately show ?thesis
        using c False sp by (auto simp: carried_on_def spawned_work_def)
    qed
  qed
  with counts show ?thesis by (simp add: running_ok_def turned_def)
qed

lemma turn_exit_ok:
  assumes ok: "running_ok s" and takes: "loop_takes s ev ws"
    and bound: "4 * Suc (ticks s) < (2 :: nat) ^ 64"
    and tick: "tick order ev (loop s) = Completes (Done l)"
  shows "exited_ok ((turned ev ws s)\<lparr>loop := l, status := Exited\<rparr>)"
proof -
  let ?A = "acked s \<union> ev_acks ev"
  obtain u where u: "selected (acked s) ev (loop s) (ev_operation ev (loop s), u)"
    and none: "rs_state (loop s) = StateNone \<Longrightarrow> started ?A u (Done l)"
    and busy: "rs_state (loop s) \<noteq> StateNone \<Longrightarrow> carried_on ?A (ev_operation ev (loop s)) u (Done l)"
    using turn_result [OF ok takes bound, of order] tick by auto
  from busy have "rs_state (loop s) = StateNone" by (auto simp: carried_on_def)
  with none takes_fit(2) [OF ok takes] show ?thesis
    by (auto simp: exited_ok_def started_def turned_def deletions_on_def)
qed

text \<open>What a goroutine stores has been acknowledged.\<close>

lemma acked_deref:
  assumes "ptrs_ok A mr m" and "set order = dom m"
  shows "acked_uids (deref mr m) order = order"
proof -
  have "ms_State (the (deref mr m u)) = StateAcked" if "u \<in> set order" for u
    using assms that by (auto simp: ptrs_ok_def deref_def)
  then show ?thesis by (simp add: acked_uids_def filter_id_conv)
qed

lemma doDelete_stores:
  assumes "ptrs_ok A mr m" and "map_iteration m order" and "0 \<notin> A"
    and "doDelete sv (deref mr m) order = (rs, calls)"
  shows "store_uids calls = dom m" and "dom m \<subseteq> A" and "\<forall>r\<in>set rs. answer_ok A r"
    and "dr_UID ` set rs \<subseteq> dom m"
proof -
  note it = map_iterationD [OF assms(2)]
  show dom: "dom m \<subseteq> A" using assms(1) by (auto simp: ptrs_ok_def)
  with assms(3) have zero: "0 \<notin> set order" using it(2) by blast
  note order = acked_deref [OF assms(1) it(2)]
  have "calls = (if order = [] then [CExpunge] else
      [CUidStore (AddNum order []) (FormatFlagsOp AddFlags False) [DeletedFlag], CExpunge])"
    using doDelete_calls [of sv "deref mr m" order] assms(4) order by simp
  with zero it(2) show "store_uids calls = dom m"
    by (cases "order = []") (auto simp: Contains_AddNum)
  have known: "ms_State (the (deref mr m u)) = StateAcked" if "u \<in> set order" for u
    using assms(1) it(2) that by (auto simp: ptrs_ok_def deref_def)
  have answers: "dr_UID r \<in> set order \<and> dr_State r \<noteq> StateUnacked" if "r \<in> set rs" for r
    using doDelete_results [of r sv "deref mr m" order] assms(4) order zero known that by fastforce
  then show "dr_UID ` set rs \<subseteq> dom m" using it(2) by blast
  show "\<forall>r\<in>set rs. answer_ok A r"
  proof
    fix r assume "r \<in> set rs"
    from answers [OF this] dom it(2) show "answer_ok A r"
      by (cases "dr_State r") (auto simp: answer_ok_def)
  qed
qed

lemma go_step_ok:
  assumes "go_step l g g' st" and "work_ok A l g" and "belongs p g" and "0 \<notin> A"
  shows "belongs p g' \<and> work_ok A l g' \<and> st \<subseteq> A"
  using assms
proof cases
  case (delete_runs m order sv rs calls)
  with assms doDelete_stores [of A "rcv l" m order sv rs calls] show ?thesis
    by (cases p) auto
qed (cases p; auto)+

lemma work_goes_on_ok:
  assumes ok: "running_ok s" and w: "work s = ws @ g # vs" and step: "go_step (loop s) g g' st"
    and "0 \<notin> acked s"
  shows "running_ok (s\<lparr>work := ws @ g' # vs, stored := stored s \<union> st\<rparr>)" and "st \<subseteq> acked s"
proof -
  have single: "ws = [] \<and> vs = [] \<and> belongs (rs_state (loop s)) g"
    and g: "work_ok (acked s) (loop s) g"
    using ok w by (auto simp: running_ok_def phase_ok_def append_eq_Cons_conv)
  from single have "belongs (rs_state (loop s)) g" by simp
  note go = go_step_ok [OF step g this assms(4)]
  then show "st \<subseteq> acked s" by simp
  show "running_ok (s\<lparr>work := ws @ g' # vs, stored := stored s \<union> st\<rparr>)"
    using ok w single go by (auto simp: running_ok_def phase_ok_def)
qed

lemma data_ok_opChan:
  "data_ok A (l\<lparr>opChan := ch\<rparr>) = data_ok A l"
  by (simp add: data_ok_def flags_ok_def flagged_def deletions_on_def)

lemma work_finishes_ok:
  assumes ok: "running_ok s" and w: "work s = ws @ Finishing opn # vs"
    and send: "chan_send opn (opChan (loop s)) = Completes ch"
  shows "running_ok (s\<lparr>loop := (loop s)\<lparr>opChan := ch\<rparr>, work := ws @ vs\<rparr>)"
proof -
  have "ws = [] \<and> vs = [] \<and> belongs (rs_state (loop s)) (Finishing opn)"
    using ok w by (auto simp: running_ok_def phase_ok_def append_eq_Cons_conv)
  with ok w send show ?thesis
    by (cases "rs_state (loop s)")
      (auto simp: running_ok_def phase_ok_def chan_send_def data_ok_opChan split: if_splits)
qed

lemma recv_step_inv:
  assumes "recv_inv s" and step: "recv_step s t"
  shows "recv_inv t"
  unfolding recv_inv_def
proof
  assume bound: "4 * ticks t < 2 ^ 64"
  from step have "ticks s \<le> ticks t" by cases (simp_all add: turned_def)
  with assms(1) bound have ok: "recv_ok s" by (simp add: recv_inv_def)
  then have zero: "0 \<notin> acked s" and sub: "stored s \<subseteq> acked s" by (simp_all add: recv_ok_def)
  have acks: "0 \<notin> ev_acks ev" if "loop_takes s ev ws" for ev ws
    using that by cases auto
  have "status s = Exited \<Longrightarrow> work s = []" using ok by (auto simp: recv_ok_def exited_ok_def)
  then have busy: "running_ok s" if "work s \<noteq> [] \<or> status s = Running"
    using ok that by (auto simp: recv_ok_def)
  show "recv_ok t"
    using step
  proof cases
    case (turn_continue ev ws order l sp)
    with bound have "4 * Suc (ticks s) < (2 :: nat) ^ 64" by (simp add: turned_def)
    from turn_continue_ok [OF busy turn_continue(3) this turn_continue(4)] turn_continue zero sub acks
    show ?thesis by (auto simp: recv_ok_def turned_def)
  next
    case (turn_exit ev ws order l)
    with bound have "4 * Suc (ticks s) < (2 :: nat) ^ 64" by (simp add: turned_def)
    from turn_exit_ok [OF busy turn_exit(3) this turn_exit(4)] turn_exit zero sub acks
    show ?thesis by (auto simp: recv_ok_def turned_def)
  next
    case (turn_panic ev ws order m)
    with bound have "4 * Suc (ticks s) < (2 :: nat) ^ 64" by (simp add: turned_def)
    from turn_result [OF busy turn_panic(3) this, of order] turn_panic show ?thesis by auto
  next
    case (turn_stuck ev ws order)
    with bound have "4 * Suc (ticks s) < (2 :: nat) ^ 64" by (simp add: turned_def)
    from turn_result [OF busy turn_stuck(3) this, of order] turn_stuck show ?thesis by auto
  next
    case (work_goes_on ws g vs g' st)
    with work_goes_on_ok [OF busy work_goes_on(2,3) zero] ok sub show ?thesis
      by (auto simp: recv_ok_def exited_ok_def)
  next
    case (work_finishes ws opn vs ch)
    with work_finishes_ok [OF busy work_finishes(2,3)] ok sub show ?thesis
      by (auto simp: recv_ok_def exited_ok_def)
  qed
qed

lemma recv_init_ok:
  assumes "known_ok {} mr"
  shows "running_ok (recv_start mr)"
  using assms run_init_ok(1) [of mr] run_init_ok(3) [where mr = mr]
  by (simp add: recv_start_def running_ok_def data_ok_def phase_ok_def make_chan_def)

lemma recv_init_inv:
  assumes "recv_init s"
  shows "recv_inv s"
proof -
  obtain mr where s: "s = recv_start mr" and "messages mr = Map.empty"
    using assms by (auto simp: recv_init_def NewReceiver_def)
  then have "known_ok {} mr" by (simp add: known_ok_def)
  from recv_init_ok [OF this] s show ?thesis
    by (simp add: recv_inv_def recv_ok_def) (simp add: recv_start_def)
qed

interpretation recv: invariant_system recv_init recv_step recv_inv
  by unfold_locales (rule recv_init_inv, auto intro: recv_step_inv)

end
