(* ===== verification/ReceiverExample.thy ===== *)
theory ReceiverExample
  imports ReceiverSystem
begin

text \<open>
  A concrete run of the receiver, the input the properties of the running receiver are
  applied to: the mailbox announces a message, the receiver fetches it and hands it out,
  the message is acknowledged while the fetch is still open, and its deletion starts.
\<close>

definition ex_msg :: imap_message where
  "ex_msg = \<lparr>SeqNum = 1, Uid = 7, Flags = [], InternalDate = 0,
     Body = [(''BODY[]'', Some ''hello'')]\<rparr>"

definition ex_config :: ReceiverConfig where
  "ex_config =
     \<lparr>rc_Connection = \<lparr>HostPort = ''imap.example.org:993'', Auth = PlainAuthenticator ''u'' ''p'',
        cc_Mailbox = ''INBOX'', TLS = True, TLSConfig = None, cc_Debug = False\<rparr>,
      rc_IDLEFallbackInterval = 0, rc_BatchSize = 0, rc_FetchBufferSize = 0,
      rc_FetchMaxInterval = 0, rc_DisableDeletions = False\<rparr>"

definition ex_status :: MailboxStatus where
  "ex_status = \<lparr>mb_Name = ''INBOX'', mb_Messages = 1\<rparr>"

text \<open>A server with that one message, whose stores fail.\<close>

definition ex_server :: server_answers where
  "ex_server = \<lparr>sv_Mailbox = Some ex_status, sv_Fetch = \<lambda>_ _. ([ex_msg], None),
     sv_UidStore = \<lambda>_ _ _. ([], Some (ExtError 1)), sv_Expunge = None\<rparr>"

definition ex_result :: fetchResult where
  "ex_result = \<lparr>fr_UIDs = [7], fr_Messages = [7 \<mapsto> ex_msg]\<rparr>"

definition ex_ack :: ackRequest where
  "ex_ack = \<lparr>ar_UID = 7, ar_Error = None\<rparr>"

section \<open>States of the loop\<close>

definition ex_flag :: "uint \<Rightarrow> nat \<Rightarrow> FlagCounter" where
  "ex_flag n c = \<lparr>counter = n, channel = c\<rparr>"

definition ex_flags :: "FlagCounter \<Rightarrow> FlagCounter \<Rightarrow> loop_flag \<Rightarrow> FlagCounter" where
  "ex_flags f d = (\<lambda>x. case x of WantQuit \<Rightarrow> ex_flag 0 0 | WantStopIdle \<Rightarrow> ex_flag 0 1
     | WantFetch \<Rightarrow> f | WantDelete \<Rightarrow> d)"

lemma ex_flags_simps [simp]:
  "ex_flags f d WantQuit = ex_flag 0 0" "ex_flags f d WantStopIdle = ex_flag 0 1"
  "ex_flags f d WantFetch = f" "ex_flags f d WantDelete = d"
  "(ex_flags f d)(WantFetch := c) = ex_flags c d" "(ex_flags f d)(WantDelete := c) = ex_flags f c"
  by (auto simp: ex_flags_def fun_eq_iff split: loop_flag.splits)

text \<open>
  The receiver knows the message in a state, or no message, and has those to delete.
\<close>

definition ex_known :: "state option \<Rightarrow> mailReceiver" where
  "ex_known known =
     \<lparr>messages = (if known = None then Map.empty else [7 \<mapsto> 0]),
      heap = (case known of None \<Rightarrow> [] | Some st \<Rightarrow>
        [\<lparr>ms_UID = 7, ms_SeqNum = 1, ms_Message = ex_msg, ms_State = st\<rparr>]),
      outSent = (if known = None then [] else [ex_msg]),
      batchSize = 15, idleFallbackInterval = 60000000000, fetchBufferSize = 20,
      fetchMaxInterval = 300000000000, disableDeletions = False\<rparr>"

definition ex_loop ::
  "state option \<Rightarrow> sstate \<Rightarrow> (u32 \<rightharpoonup> nat) \<Rightarrow> (loop_flag \<Rightarrow> FlagCounter) \<Rightarrow> sigstore \<Rightarrow>
    operation list \<Rightarrow> run_state"
where
  "ex_loop known st todo fs sg ops =
     \<lparr>rcv = ex_known known, rs_state = st, nextToProcess = todo, flags = fs, sigs = sg,
      opChan = \<lparr>cbuf = ops, ccap = 1, cclosed = False\<rparr>, flagQuits = 0\<rparr>"

definition ex_sys :: "run_state \<Rightarrow> goroutine list \<Rightarrow> u32 set \<Rightarrow> nat \<Rightarrow> recv_sys" where
  "ex_sys l w A n = \<lparr>loop = l, status = Running, work = w, acked = A, stored = {}, ticks = n\<rparr>"

definition ex_fetching :: "state option \<Rightarrow> run_state" where
  "ex_fetching known = ex_loop known StateInFetch Map.empty
     (ex_flags (ex_flag 0 4) (ex_flag 0 3)) \<lparr>next_sig = 5, closed_sigs = {2}\<rparr> []"

definition ex_acked :: "sstate \<Rightarrow> operation list \<Rightarrow> run_state" where
  "ex_acked st ops = ex_loop (Some StateAcked) st [7 \<mapsto> 0]
     (ex_flags (ex_flag 0 4) (ex_flag 1 3)) \<lparr>next_sig = 5, closed_sigs = {2, 3}\<rparr> ops"

definition ex_deleting :: run_state where
  "ex_deleting = ex_loop (Some StateAcked) StateInDelete Map.empty
     (ex_flags (ex_flag 0 4) (ex_flag 0 5)) \<lparr>next_sig = 6, closed_sigs = {2, 3}\<rparr> []"

section \<open>The run\<close>

lemmas ex_states = ex_loop_def ex_known_def ex_fetching_def ex_acked_def ex_deleting_def ex_flag_def

lemmas ex_eval = tick_def run_flag_def run_flag_if_def run_reset_def
  FC_Flag_def FC_Reset_def FC_FlagIf_def make_sig_def close_sig_def Let_def switch_none_def
  none_operation_def flagged_def FC_IsFlagged_def start_work_def start_fetch_or_idle_def
  map_len_def deletions_on_def buildCurrentSequence_def switch_fetch_def finish_operation_def
  chan_send_def chan_recv_def handleAck_def schedule_def set_state_def handleFetch_def ex_flag_def

lemma ex_start: "NewReceiver None ex_config = Inr (ex_known None)"
  by (simp add: NewReceiver_def ex_config_def ex_known_def or_default_def)

lemma ex_run_init: "run_init (ex_known None) = ex_loop None StateNone Map.empty
    (ex_flags (ex_flag 0 2) (ex_flag 0 3)) \<lparr>next_sig = 4, closed_sigs = {}\<rparr> []"
  by (auto simp: run_init_def NewCounter_def FC_Reset_def make_sig_def empty_sigs_def Let_def
      make_chan_def ex_loop_def ex_flags_def ex_flag_def fun_eq_iff split: loop_flag.splits)

lemma ex_turn1:
  "tick [] (EvUpdate (MailboxUpdate ex_status)) (run_init (ex_known None)) =
    Completes (Continue (ex_fetching None) (Some (SpawnFetch [])))"
  unfolding ex_run_init by (simp add: ex_states) (simp add: ex_eval)

lemma ex_seqset: "buildSeqSet [] ex_status 20 = [mk_seq 1 1]"
  using buildSeqSet_eq [of ex_status "[]" 20]
  by (simp add: ex_status_def fetch_numbers_def mailbox_numbers_def SeqSet_Contains_def
      AddNum_def SeqSet_insert_def search_def search_loop.simps insertAt_def mk_seq_def)

lemma ex_fetch: "doFetch ex_server [] 20 [7] = (False, [ex_result])"
proof -
  show ?thesis using ex_seqset
    by (simp add: doFetch_def SeqSet_Empty_def cl_Fetch_def goimap_command_def Fetch_Handle_def
        SeqSet_Contains_def search_def search_loop.simps Seq_Less_def Seq_Contains_def
        readMessages_def mk_seq_def Let_def ex_msg_def ex_server_def ex_result_def)
      (simp add: ex_status_def)
qed

lemma ex_turn2:
  "tick [7] (EvFetchResult ex_result [7]) (ex_fetching None) =
    Completes (Continue (ex_fetching (Some StateUnacked)) None)"
  by (simp add: ex_states ex_result_def) (simp add: ex_eval ex_msg_def)

lemma ex_turn3:
  "tick [7] (EvAck ex_ack) (ex_fetching (Some StateUnacked)) =
    Completes (Continue (ex_acked StateInFetch []) None)"
  by (simp add: ex_states ex_ack_def) (simp add: ex_eval insert_commute)

lemma ex_turn4:
  "tick [7] EvOp (ex_acked StateInFetch [OperationFetchFinish]) =
    Completes (Continue (ex_acked StateNone [OperationNone]) None)"
  by (simp add: ex_states) (simp add: ex_eval)

lemma ex_turn5:
  "tick [7] EvOp (ex_acked StateNone [OperationNone]) =
    Completes (Continue ex_deleting (Some (SpawnDelete [7 \<mapsto> 0])))"
  by (simp add: ex_states) (simp add: ex_eval)

text \<open>A turn of the loop, as a step between two of the states above.\<close>

lemma ex_turn:
  assumes "tick order ev l = Completes (Continue l' sp)" and "loop_takes (ex_sys l w A n) ev ws"
    and "map_iteration (messages (rcv l')) order" and "w' = ws @ spawned_work sp"
    and "A' = A \<union> ev_acks ev"
  shows "recv_step (ex_sys l w A n) (ex_sys l' w' A' (Suc n))"
  using turn_continue [of "ex_sys l w A n" ev ws order l' sp] assms
  by (simp add: ex_sys_def turned_def)

lemma ex_takes:
  assumes "w = ws @ FetchSending r # vs" "map_iteration (fr_Messages r) order"
  shows "loop_takes (ex_sys l w A n) (EvFetchResult r order)
    (ws @ Finishing OperationFetchFinish # vs)"
  using loop_takes.intros(6) [of "ex_sys l w A n" ws r vs order] assms by (simp add: ex_sys_def)

lemma ex_takes_any:
  "loop_takes (ex_sys l w A n) (EvUpdate upd) w"
  "cbuf (opChan l) \<noteq> [] \<Longrightarrow> loop_takes (ex_sys l w A n) EvOp w"
  "ar_UID a \<noteq> 0 \<Longrightarrow> loop_takes (ex_sys l w A n) (EvAck a) w"
  using loop_takes.intros(2,4,5) [where s = "ex_sys l w A n"] by (simp_all add: ex_sys_def)

abbreviation recv_reachable :: "recv_sys \<Rightarrow> bool" where
  "recv_reachable \<equiv> reachable recv_init recv_step"

lemma ex_fetched_reachable:
  "recv_reachable (ex_sys (ex_fetching None) [FetchSending ex_result] {} 1)"
proof -
  have "recv_reachable (ex_sys (run_init (ex_known None)) [] {} 0)"
    by (rule reach_init) (auto simp: recv_init_def recv_start_def ex_sys_def intro: ex_start)
  moreover have "recv_step (ex_sys (run_init (ex_known None)) [] {} 0)
      (ex_sys (ex_fetching None) [FetchRunning []] {} (Suc 0))"
    by (rule ex_turn [OF ex_turn1 ex_takes_any(1)])
      (simp_all add: map_iteration_def spawned_work_def ex_states)
  moreover have "recv_step (ex_sys (ex_fetching None) [FetchRunning []] {} (Suc 0))
      (ex_sys (ex_fetching None) [FetchSending ex_result] {} 1)"
    using work_goes_on [of "ex_sys (ex_fetching None) [FetchRunning []] {} 1" "[]" _ "[]",
        OF _ fetch_result [of ex_server _ _ "[7]" False ex_result]] ex_fetch
    by (simp add: ex_sys_def ex_states)
  ultimately show ?thesis by (blast intro: reach_step)
qed

lemma ex_handed_reachable:
  "recv_reachable (ex_sys (ex_fetching (Some StateUnacked)) [Finishing OperationFetchFinish] {} 2)"
proof -
  have "recv_step (ex_sys (ex_fetching None) [FetchSending ex_result] {} 1)
      (ex_sys (ex_fetching (Some StateUnacked)) [Finishing OperationFetchFinish] {} (Suc 1))"
    by (rule ex_turn [OF ex_turn2 ex_takes [of _ "[]" _ "[]"]])
      (simp_all add: map_iteration_def spawned_work_def ex_states ex_result_def)
  with ex_fetched_reachable have "recv_reachable
      (ex_sys (ex_fetching (Some StateUnacked)) [Finishing OperationFetchFinish] {} (Suc 1))"
    by (rule reach_step)
  then show ?thesis by (simp add: numeral_2_eq_2)
qed

lemma ex_acked_steps:
  "recv_step\<^sup>*\<^sup>* (ex_sys (ex_fetching (Some StateUnacked)) [Finishing OperationFetchFinish] {} 2)
    (ex_sys (ex_acked StateNone [OperationNone]) [] {7} 4)"
proof -
  have "recv_step (ex_sys (ex_fetching (Some StateUnacked)) [Finishing OperationFetchFinish] {} (Suc 1))
      (ex_sys (ex_acked StateInFetch []) [Finishing OperationFetchFinish] {7} (Suc (Suc 1)))"
    by (rule ex_turn [OF ex_turn3 ex_takes_any(3)])
      (simp_all add: map_iteration_def spawned_work_def ex_states ex_ack_def)
  moreover have "recv_step (ex_sys (ex_acked StateInFetch []) [Finishing OperationFetchFinish] {7} (Suc (Suc 1)))
      (ex_sys (ex_acked StateInFetch [OperationFetchFinish]) [] {7} (Suc (Suc 1)))"
    using work_finishes [of "ex_sys (ex_acked StateInFetch []) [Finishing OperationFetchFinish] {7} (Suc (Suc 1))" "[]" _ "[]"]
    by (simp add: ex_sys_def ex_states chan_send_def)
  moreover have "recv_step (ex_sys (ex_acked StateInFetch [OperationFetchFinish]) [] {7} (Suc (Suc 1)))
      (ex_sys (ex_acked StateNone [OperationNone]) [] {7} (Suc (Suc (Suc 1))))"
    by (rule ex_turn [OF ex_turn4 ex_takes_any(2)])
      (simp_all add: map_iteration_def spawned_work_def ex_states)
  ultimately have "recv_step\<^sup>*\<^sup>*
      (ex_sys (ex_fetching (Some StateUnacked)) [Finishing OperationFetchFinish] {} (Suc 1))
      (ex_sys (ex_acked StateNone [OperationNone]) [] {7} (Suc (Suc (Suc 1))))"
    by (meson converse_rtranclp_into_rtranclp r_into_rtranclp)
  then show ?thesis by (simp add: numeral_eq_Suc)
qed

lemma ex_deleting_step:
  "recv_step (ex_sys (ex_acked StateNone [OperationNone]) [] {7} 4)
    (ex_sys ex_deleting [DeleteRunning [7 \<mapsto> 0]] {7} 5)"
proof -
  have "recv_step (ex_sys (ex_acked StateNone [OperationNone]) [] {7} 4)
      (ex_sys ex_deleting [DeleteRunning [7 \<mapsto> 0]] {7} (Suc 4))"
    by (rule ex_turn [OF ex_turn5 ex_takes_any(2)])
      (simp_all add: map_iteration_def spawned_work_def ex_states)
  then show ?thesis by simp
qed

text \<open>The deletion of the message runs; the store may fail or succeed.\<close>

lemma ex_delete_step:
  assumes "doDelete sv (deref (ex_known (Some StateAcked)) [7 \<mapsto> 0]) [7] = (rs, calls)"
  shows "recv_step (ex_sys ex_deleting [DeleteRunning [7 \<mapsto> 0]] {7} 5)
    ((ex_sys ex_deleting [DeleteSending rs] {7} 5)\<lparr>stored := store_uids calls\<rparr>)"
  using work_goes_on [of "ex_sys ex_deleting [DeleteRunning [7 \<mapsto> 0]] {7} 5" "[]" _ "[]",
      OF _ delete_runs [of _ "[7]" sv _ rs calls]] assms
  by (simp add: ex_sys_def ex_states map_iteration_def)

lemma ex_delete_fails:
  "doDelete ex_server (deref (ex_known (Some StateAcked)) [7 \<mapsto> 0]) [7] =
    ([], [CUidStore (AddNum [7] []) ''+FLAGS'' [DeletedFlag], CExpunge])"
  by (simp add: doDelete_def deref_def ex_known_def ex_server_def cl_UidStore_def
      goimap_command_def FormatFlagsOp_def)

definition ex_deleted :: recv_sys where
  "ex_deleted = (ex_sys ex_deleting [DeleteSending []] {7} 5)\<lparr>stored := {7}\<rparr>"

lemma ex_deleted_step:
  "recv_step (ex_sys ex_deleting [DeleteRunning [7 \<mapsto> 0]] {7} 5) ex_deleted"
proof -
  have "Collect (SeqSet_Contains (AddNum [7] [])) = {7}" by (auto simp: Contains_AddNum)
  with ex_delete_step [OF ex_delete_fails] show ?thesis by (simp add: ex_deleted_def)
qed

lemma ex_deleted_steps:
  "recv_step\<^sup>*\<^sup>* (ex_sys (ex_fetching (Some StateUnacked)) [Finishing OperationFetchFinish] {} 2) ex_deleted"
  using ex_acked_steps ex_deleting_step ex_deleted_step
  by (meson rtranclp.rtrancl_into_rtrancl)

lemma ex_acked_reachable:
  "recv_reachable (ex_sys (ex_acked StateNone [OperationNone]) [] {7} 4)"
  by (rule reachable_steps [OF ex_handed_reachable ex_acked_steps])

lemma ex_deleting_reachable:
  "recv_reachable (ex_sys ex_deleting [DeleteRunning [7 \<mapsto> 0]] {7} 5)"
  by (rule reach_step [OF ex_acked_reachable ex_deleting_step])

lemma ex_deleted_reachable: "recv_reachable ex_deleted"
  by (rule reach_step [OF ex_deleting_reachable ex_deleted_step])

text \<open>A receiver that is told to quit before anything else happens.\<close>

lemma ex_exit_reachable: "\<exists>s. recv_reachable s \<and> status s = Exited \<and> ticks s = 1"
proof -
  have "\<exists>l. tick [] EvQuit (run_init (ex_known None)) = Completes (Done l)"
    unfolding ex_run_init by (simp add: ex_states) (simp add: ex_eval ex_flags_def)
  then obtain l where l: "tick [] EvQuit (run_init (ex_known None)) = Completes (Done l)" by blast
  let ?s = "recv_start (ex_known None)"
  have "recv_reachable ?s"
    by (rule reach_init) (auto simp: recv_init_def intro: ex_start)
  moreover have "recv_step ?s ((turned EvQuit (work ?s) ?s)\<lparr>loop := l, status := Exited\<rparr>)"
    by (rule turn_exit [where order = "[]", OF _ loop_takes.intros(1)])
      (simp_all add: recv_start_def l)
  ultimately have "recv_reachable ((turned EvQuit (work ?s) ?s)\<lparr>loop := l, status := Exited\<rparr>)"
    by (rule reach_step)
  moreover have "status ((turned EvQuit (work ?s) ?s)\<lparr>loop := l, status := Exited\<rparr>) = Exited"
    "ticks ((turned EvQuit (work ?s) ?s)\<lparr>loop := l, status := Exited\<rparr>) = 1"
    by (simp_all add: turned_def recv_start_def)
  ultimately show ?thesis by blast
qed

text \<open>A receiver that goes idle at once.\<close>

definition ex_idle :: run_state where
  "ex_idle = ex_loop None StateInIDLE Map.empty
     (ex_flags (ex_flag 0 2) (ex_flag 0 3)) \<lparr>next_sig = 4, closed_sigs = {}\<rparr> []"

lemma ex_turn_idle:
  "tick [] (EvUpdate StatusUpdate) (run_init (ex_known None)) =
    Completes (Continue ex_idle (Some (SpawnIdle 1)))"
  unfolding ex_run_init ex_idle_def
  by (simp add: ex_states) (simp add: ex_eval FC_Channel_def)

lemma ex_idle_reachable: "recv_reachable (ex_sys ex_idle [IdleRunning 1] {} 1)"
proof -
  have "recv_reachable (ex_sys (run_init (ex_known None)) [] {} 0)"
    by (rule reach_init) (auto simp: recv_init_def recv_start_def ex_sys_def intro: ex_start)
  moreover have "recv_step (ex_sys (run_init (ex_known None)) [] {} 0)
      (ex_sys ex_idle [IdleRunning 1] {} (Suc 0))"
    by (rule ex_turn [OF ex_turn_idle ex_takes_any(1)])
      (simp_all add: map_iteration_def spawned_work_def ex_states ex_idle_def)
  ultimately show ?thesis by (auto intro: reach_step)
qed

text \<open>It is told to quit while it is idle.\<close>

lemma ex_quitting_reachable:
  "\<exists>l. recv_reachable (ex_sys l [IdleRunning 1] {} 2) \<and> flagged WantQuit l
    \<and> rs_state l = StateInIDLE"
proof -
  obtain l where l: "tick [] EvQuit ex_idle = Completes (Continue l None)" "flagged WantQuit l"
    "rs_state l = StateInIDLE" "messages (rcv l) = Map.empty"
  proof -
    have "\<exists>l. tick [] EvQuit ex_idle = Completes (Continue l None) \<and> flagged WantQuit l
        \<and> rs_state l = StateInIDLE \<and> messages (rcv l) = Map.empty"
      by (simp add: ex_states ex_idle_def) (simp add: ex_eval ex_flags_def switch_idle_def)
    with that show thesis by blast
  qed
  have takes: "loop_takes (ex_sys ex_idle [IdleRunning 1] {} 1) EvQuit [IdleRunning 1]"
    using loop_takes.intros(1) [of "ex_sys ex_idle [IdleRunning 1] {} 1"] by (simp add: ex_sys_def)
  have "recv_step (ex_sys ex_idle [IdleRunning 1] {} 1) (ex_sys l [IdleRunning 1] {} (Suc 1))"
    by (rule ex_turn [OF l(1) takes]) (simp_all add: map_iteration_def spawned_work_def l(4))
  with ex_idle_reachable have "recv_reachable (ex_sys l [IdleRunning 1] {} (Suc 1))"
    by (rule reach_step)
  with l(2,3) show ?thesis by (auto simp: numeral_2_eq_2)
qed

end
