(* ===== verification/ReceiverSafety.thy ===== *)
theory ReceiverSafety
  imports ReceiverExample
begin

text \<open>
  The properties of the running receiver: they follow from the invariant of its transition
  system, for every order of events, every answer of the server, and every moment at which
  its goroutines go on.
\<close>

section \<open>The invariant at reachable states\<close>

lemma reachable_ok:
  assumes "recv_reachable s" and "4 * ticks s < (2 :: nat) ^ 64"
  shows "recv_ok s"
  using recv.reachable_inv [OF assms(1)] assms(2) by (simp add: recv_inv_def)

lemma reachable_running:
  assumes "recv_reachable s" and "4 * ticks s < (2 :: nat) ^ 64" and "status s = Running"
  shows "running_ok s"
  using reachable_ok [OF assms(1,2)] assms(3) by (simp add: recv_ok_def)

text \<open>
  A second invariant, without a bound: a receiver that started with deletions switched off
  has no delete flag raised and no delete goroutine, and stored nothing.
\<close>

fun deletes :: "goroutine \<Rightarrow> bool" where
  "deletes (DeleteRunning m) = True"
| "deletes _ = False"

definition settings_inv :: "recv_sys \<Rightarrow> bool" where
  "settings_inv s \<longleftrightarrow> batchSize (rcv (loop s)) \<noteq> 0 \<and> fetchBufferSize (rcv (loop s)) \<noteq> 0 \<and>
     (\<not> deletions_on (loop s) \<longrightarrow> \<not> flagged WantDelete (loop s)
        \<and> (\<forall>g\<in>set (work s). \<not> deletes g) \<and> stored s = {})"

lemma go_step_deletes:
  "go_step l g g' st \<Longrightarrow> \<not> deletes g \<Longrightarrow> \<not> deletes g' \<and> st = {}"
  by (cases rule: go_step.cases) auto

lemma takes_deletes:
  "loop_takes s ev ws \<Longrightarrow> \<forall>g\<in>set (work s). \<not> deletes g \<Longrightarrow> \<forall>g\<in>set ws. \<not> deletes g"
  by (cases rule: loop_takes.cases) auto

lemma settings_inv_loop:
  assumes "settings_inv s" and "loop t = l" and "steady (loop s) l" and "stored t = stored s"
    and "\<not> deletions_on (loop s) \<Longrightarrow> \<not> flagged WantDelete (loop s) \<Longrightarrow>
      (\<forall>g\<in>set (work s). \<not> deletes g) \<Longrightarrow> (\<forall>g\<in>set (work t). \<not> deletes g)"
  shows "settings_inv t"
  using assms deletions_on_settings [of l "loop s"]
  by (auto simp: settings_inv_def steady_def settings_def)

lemma settings_inv_step:
  assumes inv: "settings_inv s" and "recv_step s t"
  shows "settings_inv t"
  using assms(2)
proof cases
  case (turn_continue ev ws order l sp)
  have steady: "steady_next (loop s) (Continue l sp)"
    using turn_continue(4) by (rule steady_tick)
  show ?thesis
    by (rule settings_inv_loop [OF inv, of t l])
      (use turn_continue takes_deletes steady in
        \<open>auto simp: turned_def steady_next_def spawned_work_def split: option.splits spawn.splits\<close>,
       metis deletes.simps(2-) spawn.exhaust spawned.simps)
next
  case (turn_exit ev ws order l)
  have "steady_next (loop s) (Done l)" using turn_exit(4) by (rule steady_tick)
  with turn_exit takes_deletes show ?thesis
    by (intro settings_inv_loop [OF inv, of t l]) (auto simp: turned_def steady_next_def)
next
  case (work_goes_on ws g vs g' st)
  with inv go_step_deletes [OF work_goes_on(3)] show ?thesis
    by (auto simp: settings_inv_def)
next
  case (work_finishes ws opn vs ch)
  with inv show ?thesis by (auto simp: settings_inv_def deletions_on_def flagged_def)
qed (use inv takes_deletes in \<open>auto simp: settings_inv_def turned_def\<close>)

lemma settings_inv_init:
  assumes "recv_init s"
  shows "settings_inv s"
proof -
  obtain cfg mr where "NewReceiver None cfg = Inr mr" "s = recv_start mr"
    using assms by (auto simp: recv_init_def)
  then show ?thesis
    by (auto simp: settings_inv_def recv_start_def run_init_ok NewReceiver_def or_default_nonzero)
qed

interpretation recv_settings: invariant_system recv_init recv_step settings_inv
  by unfold_locales (rule settings_inv_init, auto intro: settings_inv_step)

section \<open>Properties\<close>

text \<open>
  C6: the main loop of a receiver never panics, never blocks on its own operation channel,
  and never runs two goroutines: whatever the server answers and in whatever order
  acknowledgements, updates, timeouts and results arrive, it is running or has exited, and
  the one goroutine it may have belongs to its state. (For the first \<open>2 ^ 62 - 1\<close>
  iterations, within which no flag counter overflows.)
\<close>

theorem receiver_loop_never_fails:
  assumes "recv_reachable s" and "4 * ticks s < (2 :: nat) ^ 64"
  shows "(status s = Running \<or> status s = Exited) \<and> length (work s) \<le> 1
    \<and> (\<forall>g\<in>set (work s). belongs (rs_state (loop s)) g)"
  using reachable_ok [OF assms]
  by (auto simp: recv_ok_def running_ok_def exited_ok_def phase_ok_def split: if_splits)

theorem receiver_loop_never_fails_witness:
  "recv_reachable (ex_sys ex_deleting [DeleteRunning [7 \<mapsto> 0]] {7} 5)
    \<and> belongs (rs_state ex_deleting) (DeleteRunning [7 \<mapsto> 0])"
  using ex_deleting_reachable receiver_loop_never_fails [OF ex_deleting_reachable]
  by (simp add: ex_sys_def)

text \<open>
  C3: no message is flagged as deleted on the source server unless the loop received an
  acknowledgement without error for its UID; the UID 0 never is.
\<close>

theorem receiver_stores_only_acked:
  assumes "recv_reachable s" and "4 * ticks s < (2 :: nat) ^ 64"
  shows "stored s \<subseteq> acked s \<and> 0 \<notin> stored s"
  using reachable_ok [OF assms] by (auto simp: recv_ok_def)

theorem receiver_stores_only_acked_witness:
  "recv_reachable ex_deleted \<and> stored ex_deleted = {7} \<and> {7} \<subseteq> acked ex_deleted"
  using ex_deleted_reachable receiver_stores_only_acked [OF ex_deleted_reachable]
  by (simp add: ex_deleted_def ex_sys_def)

text \<open>
  When the loop exits it was asked to quit, it has no goroutine left, and no
  acknowledged message waits for its deletion, unless deletions are switched off.
\<close>

theorem receiver_exits_clean:
  assumes "recv_reachable s" and "4 * ticks s < (2 :: nat) ^ 64" and "status s = Exited"
  shows "work s = [] \<and> flagged WantQuit (loop s)
    \<and> (\<not> disableDeletions (rcv (loop s)) \<longrightarrow> nextToProcess (loop s) = Map.empty)"
  using reachable_ok [OF assms(1,2)] assms(3)
  by (simp add: recv_ok_def exited_ok_def deletions_on_def)

theorem receiver_exits_clean_witness:
  "\<exists>s. recv_reachable s \<and> status s = Exited \<and> flagged WantQuit (loop s)"
proof -
  obtain s where s: "recv_reachable s" "status s = Exited" "ticks s = 1"
    using ex_exit_reachable by blast
  have "flagged WantQuit (loop s)"
    by (rule receiver_exits_clean [OF s(1) _ s(2), THEN conjunct2, THEN conjunct1])
      (simp only: s(3), simp)
  with s show ?thesis by blast
qed

text \<open>
  A receiver configured with \<open>DisableDeletions\<close> never flags a message as deleted and
  never starts a delete goroutine, in a run of any length.
\<close>

theorem disabled_deletions_store_nothing:
  assumes "recv_reachable s" and "disableDeletions (rcv (loop s))"
  shows "stored s = {} \<and> (\<forall>g\<in>set (work s). \<forall>m. g \<noteq> DeleteRunning m)"
  using recv_settings.reachable_inv [OF assms(1)] assms(2)
  by (auto simp: settings_inv_def deletions_on_def)

theorem disabled_deletions_store_nothing_witness:
  "recv_reachable (recv_start ((ex_known None)\<lparr>disableDeletions := True\<rparr>))
    \<and> stored (recv_start ((ex_known None)\<lparr>disableDeletions := True\<rparr>)) = {}"
proof -
  let ?mr = "(ex_known None)\<lparr>disableDeletions := True\<rparr>"
  have "NewReceiver None (ex_config\<lparr>rc_DisableDeletions := True\<rparr>) = Inr ?mr"
    using ex_start by (auto simp: NewReceiver_def ex_config_def ex_known_def)
  then have "recv_reachable (recv_start ?mr)"
    by (intro reach_init) (auto simp: recv_init_def)
  with disabled_deletions_store_nothing [OF this] show ?thesis by (simp add: recv_start_def)
qed

lemma run_flag_frame:
  "run_flag f s = Completes t \<Longrightarrow> rcv t = rcv s \<and> nextToProcess t = nextToProcess s"
  "run_flag_if b f s = Completes t \<Longrightarrow> rcv t = rcv s \<and> nextToProcess t = nextToProcess s"
  by (auto simp: run_flag_def run_flag_if_def obind_eq_Completes)

lemma reset_raised:
  assumes "flags_ok s" and "flagged f s"
  shows "run_reset f (raised f s) = run_reset f s"
proof -
  have "channel (flags s f) \<in> closed_sigs (sigs s)"
    using assms by (simp add: flags_ok_def fc_ok_def flagged_def FC_IsFlagged_iff)
  then show ?thesis
    by (simp add: run_reset_def raised_def FC_Reset_def make_sig_def insert_absorb)
qed

lemma start_work_raised:
  assumes "flags_ok s" and "room 1 s" and "flagged WantDelete s"
  shows "start_work order (raised WantDelete s) = start_work order s"
  using assms raise1(4) [OF assms(1,2), of WantDelete WantDelete]
  by (simp add: start_work_def reset_raised)

text \<open>The outcome of the \<open>select\<close> of a running receiver, and the settings after it.\<close>

lemma selected_settings:
  assumes "recv_reachable s" "4 * Suc (ticks s) < (2 :: nat) ^ 64" "status s = Running"
    and "loop_takes s ev ws"
  obtains opn u where "select_event ev (loop s) = Completes (opn, u)"
    and "selected (acked s) ev (loop s) (opn, u)" and "batchSize (rcv u) \<noteq> 0"
proof -
  have ok: "running_ok s" using reachable_running [OF assms(1) _ assms(3)] assms(2) by simp
  then have data: "data_ok (acked s) (loop s)" by (simp add: running_ok_def)
  from holds_afterD [OF select_event_ok [OF data select_room [OF ok assms(2)] takes_fit(1) [OF ok assms(4)]]]
  obtain opn u where u: "select_event ev (loop s) = Completes (opn, u)"
    "selected (acked s) ev (loop s) (opn, u)" by auto
  moreover have "batchSize (rcv u) \<noteq> 0"
    using recv_settings.reachable_inv [OF assms(1)] steady_select [OF u(1)]
    by (simp add: settings_inv_def steady_def settings_def)
  ultimately show thesis by (rule that)
qed

text \<open>The comparison with the batch size in \<open>StateNone\<close> changes nothing.\<close>

lemma start_work_threshold:
  assumes "data_ok A v" "room 1 v" "batchSize (rcv v) \<noteq> 0"
    and "batchSize (rcv v) \<le> word_of_nat (map_len (nextToProcess v))"
    and "run_flag_if (deletions_on v) WantDelete v = Completes w"
  shows "start_work order w = start_work order v"
proof -
  have fl: "flags_ok v" using assms(1) by (simp add: data_ok_def)
  have "map_len (nextToProcess v) = 0 \<Longrightarrow> batchSize (rcv v) \<le> 0"
    using assms(4) by simp
  with assms(3) have "map_len (nextToProcess v) \<noteq> 0" by auto
  then have "nextToProcess v \<noteq> Map.empty" by (auto simp: map_len_def)
  with assms(1) have "deletions_on v \<Longrightarrow> flagged WantDelete v" by (simp add: data_ok_def)
  moreover have "w = (if deletions_on v then raised WantDelete v else v)"
    using raise1(7) [OF fl assms(2)] assms(5) by simp
  ultimately show ?thesis using start_work_raised [OF fl assms(2)] by auto
qed

lemma switch_none_threshold:
  assumes s: "data_ok A s" "room 3 s" and opn: "opn = OperationNone \<or> opn = OperationTimeout"
    and batch: "batchSize (rcv s) \<noteq> 0"
  shows "switch_none order opn s = obind (none_operation opn s) (\<lambda>s. Completes
    (start_work order (if flagged WantQuit s then run_reset WantFetch s else s)))"
proof -
  obtain t where t: "none_operation opn s = Completes t" "data_ok A t" "room 1 t" "rcv t = rcv s"
    using holds_afterD [OF none_operation_ok [OF s opn]] by blast
  define v where "v = (if flagged WantQuit t then run_reset WantFetch t else t)"
  have v: "data_ok A v" "room 1 v" "rcv v = rcv s"
    using quit_drops_fetch [OF t(2,3), folded v_def] t(4) by simp_all
  then have "flags_ok v" by (simp add: data_ok_def)
  note raise = raise1(7) [OF this v(2), of "deletions_on v" WantDelete]
  show ?thesis
    using raise start_work_threshold [OF v(1,2) _ _ raise] batch v(3)
    by (simp add: switch_none_def t(1) v_def [symmetric] Let_def)
qed

text \<open>
  The batch size has no effect: in \<open>StateNone\<close> the loop decides as if the comparison
  of the number of waiting messages with the batch size were not there, because a waiting
  message has already raised the delete flag.
\<close>

theorem batch_size_has_no_effect:
  assumes "recv_reachable s" "4 * Suc (ticks s) < (2 :: nat) ^ 64" "status s = Running"
    and "loop_takes s ev ws" and "rs_state (loop s) = StateNone"
  shows "tick order ev (loop s) =
    obind (select_event ev (loop s)) (\<lambda>(opn, s). obind (none_operation opn s)
      (\<lambda>s. Completes (start_work order (if flagged WantQuit s then run_reset WantFetch s else s))))"
proof -
  obtain opn u where u: "select_event ev (loop s) = Completes (opn, u)"
    "selected (acked s) ev (loop s) (opn, u)" "batchSize (rcv u) \<noteq> 0"
    using selected_settings [OF assms(1-4)] by blast
  have ok: "running_ok s" using reachable_running [OF assms(1) _ assms(3)] assms(2) by simp
  have "opn = OperationNone \<or> opn = OperationTimeout"
    using takes_fit(2) [OF ok assms(4,5)] u(2) by (auto simp: selected_def)
  with u(2,3) assms(5) show ?thesis
    using switch_none_threshold [of _ u opn order] by (auto simp: tick_def u(1) selected_def)
qed

theorem batch_size_has_no_effect_witness:
  "rs_state (ex_acked StateNone [OperationNone]) = StateNone \<and>
   tick [7] EvOp (ex_acked StateNone [OperationNone]) =
    obind (select_event EvOp (ex_acked StateNone [OperationNone]))
      (\<lambda>(opn, s). obind (none_operation opn s) (\<lambda>s. Completes (start_work [7]
        (if flagged WantQuit s then run_reset WantFetch s else s))))"
proof -
  let ?s = "ex_sys (ex_acked StateNone [OperationNone]) [] {7} 4"
  have takes: "loop_takes ?s EvOp []"
    by (rule ex_takes_any) (simp add: ex_states)
  have "rs_state (ex_acked StateNone [OperationNone]) = StateNone" by (simp add: ex_states)
  with batch_size_has_no_effect [OF ex_acked_reachable _ _ takes, of "[7]"] show ?thesis
    by (simp add: ex_sys_def)
qed

lemma idle_progress:
  assumes "recv_reachable s" "4 * Suc (ticks s) < (2 :: nat) ^ 64" "status s = Running"
    and "loop_takes s ev ws" and "rs_state (loop s) = StateInIDLE"
    and "ev_operation ev (loop s) \<noteq> OperationIDLEFinish"
  shows "\<exists>l. tick order ev (loop s) = Completes (Continue l None) \<and> rs_state l = StateInIDLE
    \<and> flagged WantFetch l \<and> (\<forall>stop. IdleRunning stop \<in> set ws \<longrightarrow> stop \<in> closed_sigs (sigs l))"
proof -
  have ok: "running_ok s" using reachable_running [OF assms(1) _ assms(3)] assms(2) by simp
  obtain u n where u: "selected (acked s) ev (loop s) (ev_operation ev (loop s), u)"
    and "select_event ev (loop s) = Completes (ev_operation ev (loop s), u)"
    and n: "tick order ev (loop s) = Completes n"
    and c: "carried_on (acked s \<union> ev_acks ev) (ev_operation ev (loop s)) u n"
    using turn_result [OF ok assms(4,2), of order] assms(5) by auto
  have st: "rs_state u = StateInIDLE" using u assms(5) by (simp add: selected_def)
  with c assms(6) obtain l where l: "n = Continue l None" "data_ok (acked s \<union> ev_acks ev) l"
    "rs_state l = StateInIDLE" "flagged WantStopIdle l" "flagged WantFetch l"
    "channel (flags l WantStopIdle) = channel (flags u WantStopIdle)"
    by (auto simp: carried_on_def)
  have "channel (flags l WantStopIdle) \<in> closed_sigs (sigs l)"
    using l(2,4) by (simp add: data_ok_def flags_ok_def fc_ok_def flagged_def FC_IsFlagged_iff)
  moreover have "stop = channel (flags l WantStopIdle)" if "IdleRunning stop \<in> set ws" for stop
    using takes_fit(6) [OF ok assms(4)] that l(6) u by (auto simp: selected_def)
  ultimately show ?thesis using n l by auto
qed

text \<open>
  C20: whatever wakes the loop while the client is in IDLE, the stop channel the client
  waits on gets closed, unless the client has left IDLE already; the loop stays in its
  state until then.
\<close>

theorem idle_is_woken:
  assumes "recv_reachable s" "4 * Suc (ticks s) < (2 :: nat) ^ 64" "status s = Running"
    and "loop_takes s ev ws" and "rs_state (loop s) = StateInIDLE"
    and "ev_operation ev (loop s) \<noteq> OperationIDLEFinish"
  shows "\<exists>l. tick order ev (loop s) = Completes (Continue l None) \<and> rs_state l = StateInIDLE
    \<and> flagged WantFetch l \<and> (\<forall>stop. IdleRunning stop \<in> set ws \<longrightarrow> stop \<in> closed_sigs (sigs l))"
  using assms by (rule idle_progress)

theorem idle_is_woken_witness:
  "loop_takes (ex_sys ex_idle [IdleRunning 1] {} 1) EvTimeout [IdleRunning 1] \<and>
   (\<exists>l. tick [] EvTimeout ex_idle = Completes (Continue l None) \<and> 1 \<in> closed_sigs (sigs l))"
proof -
  let ?s = "ex_sys ex_idle [IdleRunning 1] {} 1"
  have takes: "loop_takes ?s EvTimeout [IdleRunning 1]"
    using loop_takes.intros(3) [of ?s] by (simp add: ex_sys_def)
  from idle_is_woken [OF ex_idle_reachable _ _ takes, of "[]"]
  have "\<exists>l. tick [] EvTimeout ex_idle = Completes (Continue l None) \<and> 1 \<in> closed_sigs (sigs l)"
    by (auto simp: ex_sys_def ex_idle_def ex_loop_def)
  with takes show ?thesis by simp
qed

lemma outSent_kept:
  "outSent (fst (handleDelete d mr)) = outSent mr" "outSent (fst (handleAck a mr)) = outSent mr"
  by (auto simp: handleDelete_def handleAck_def split: option.splits)

lemma schedule_frame: "schedule msg s = Completes t \<Longrightarrow> rcv t = rcv s"
  using run_flag_frame by (auto simp: schedule_def split: option.splits dest: run_flag_frame)

lemma select_outSent:
  assumes "select_event ev s = Completes (opn, t)" and "flagged WantQuit s"
  shows "outSent (rcv t) = outSent (rcv s)"
proof (cases ev)
  case (EvDeleteResult r)
  with assms show ?thesis
    using outSent_kept(1) [of r "rcv s"]
    by (auto simp: obind_eq_Completes split: if_splits prod.splits dest: schedule_frame)
next
  case (EvAck r)
  with assms show ?thesis
    using outSent_kept(2) [of r "rcv s"]
    by (auto simp: obind_eq_Completes split: prod.splits dest: schedule_frame)
next
  case EvOp
  with assms show ?thesis by (auto simp: chan_recv_def split: list.splits if_splits)
qed (use assms in \<open>auto simp: obind_eq_Completes split: if_splits dest: run_flag_frame(1)\<close>)

text \<open>Two readings of what a turn leads to.\<close>

lemma started_quitting:
  assumes "started A u (Continue l sp)" and "flagged WantQuit u"
  shows "flagged WantQuit l \<and> rcv l = rcv u \<and> (\<exists>m. sp = Some (SpawnDelete m))"
proof (cases sp)
  case (Some x)
  with assms show ?thesis by (cases x) (simp_all add: started_def)
qed (use assms in \<open>simp add: started_def\<close>)

lemma started_deletes:
  assumes "started A u (Continue l sp)" and "nextToProcess u uid = Some p" and "deletions_on u"
  shows "rcv l = rcv u \<and> (nextToProcess l uid = Some p \<and> flagged WantDelete l
    \<or> (\<exists>m. sp = Some (SpawnDelete m) \<and> m uid = Some p))"
proof (cases sp)
  case (Some x)
  have "rcv l = rcv u" "data_ok A l" using assms(1) by (simp_all add: started_def)
  moreover have "nextToProcess l uid = Some p \<or> (\<exists>m. sp = Some (SpawnDelete m) \<and> m uid = Some p)"
    using assms Some by (cases x) (simp_all add: started_def)
  ultimately show ?thesis using assms(3) by (auto simp: data_ok_def deletions_on_def)
qed (use assms in \<open>simp add: started_def\<close>)

lemma carried_on_deletes:
  assumes "carried_on A opn u (Continue l sp)" and "nextToProcess u uid = Some p" and "deletions_on u"
  shows "rcv l = rcv u \<and> nextToProcess l uid = Some p \<and> flagged WantDelete l"
proof -
  have l: "rcv l = rcv u" "data_ok A l" "nextToProcess l = nextToProcess u"
    using assms(1) by (simp_all add: carried_on_def)
  with assms(2,3) show ?thesis by (auto simp: data_ok_def deletions_on_def)
qed

text \<open>
  C19: once the receiver was asked to quit it starts nothing but deletions, hands out no
  more messages (a fetch that was running is discarded), and never forgets that it has to
  quit.
\<close>

theorem quit_stops_new_work:
  assumes "recv_reachable s" "4 * Suc (ticks s) < (2 :: nat) ^ 64" "status s = Running"
    and "loop_takes s ev ws" and "flagged WantQuit (loop s)"
    and "tick order ev (loop s) = Completes (Continue l sp)"
  shows "flagged WantQuit l \<and> outSent (rcv l) = outSent (rcv (loop s))
    \<and> (sp = None \<or> (\<exists>m. sp = Some (SpawnDelete m)))"
proof -
  have ok: "running_ok s" using reachable_running [OF assms(1) _ assms(3)] assms(2) by simp
  obtain u n where u: "selected (acked s) ev (loop s) (ev_operation ev (loop s), u)"
    and n: "tick order ev (loop s) = Completes n"
    and none: "rs_state (loop s) = StateNone \<Longrightarrow> started (acked s \<union> ev_acks ev) u n"
    and busy: "rs_state (loop s) \<noteq> StateNone \<Longrightarrow>
      carried_on (acked s \<union> ev_acks ev) (ev_operation ev (loop s)) u n"
    and sel: "select_event ev (loop s) = Completes (ev_operation ev (loop s), u)"
    using turn_result [OF ok assms(4,2), of order] by blast
  have q: "flagged WantQuit u" using u assms(5) by (simp add: selected_def)
  have "outSent (rcv u) = outSent (rcv (loop s))" using select_outSent [OF sel assms(5)] .
  moreover have "n = Continue l sp" using n assms(6) by simp
  ultimately show ?thesis
    using q started_quitting [of _ u l sp] none busy
    by (cases "rs_state (loop s) = StateNone") (auto simp: carried_on_def)
qed

theorem quit_stops_new_work_witness:
  "\<exists>s l. recv_reachable s \<and> flagged WantQuit (loop s) \<and>
     tick [] EvTimeout (loop s) = Completes (Continue l None) \<and> flagged WantQuit l"
proof -
  obtain k where k: "recv_reachable (ex_sys k [IdleRunning 1] {} 2)" "flagged WantQuit k"
    "rs_state k = StateInIDLE" using ex_quitting_reachable by blast
  let ?s = "ex_sys k [IdleRunning 1] {} 2"
  have s: "status ?s = Running" "loop ?s = k" "4 * Suc (ticks ?s) < (2 :: nat) ^ 64"
    by (simp_all add: ex_sys_def)
  have takes: "loop_takes ?s EvTimeout [IdleRunning 1]"
    using loop_takes.intros(3) [of ?s] by (simp add: ex_sys_def)
  have idle: "rs_state (loop ?s) = StateInIDLE" using k(3) by (simp add: ex_sys_def)
  from idle_progress [OF k(1) s(3,1) takes idle, of "[]"]
  obtain l where l: "tick [] EvTimeout (loop ?s) = Completes (Continue l None)" by auto
  from quit_stops_new_work [OF k(1) s(3,1) takes _ l] k(2) s(2) have "flagged WantQuit l" by simp
  with k l s(2) show ?thesis by metis
qed

text \<open>
  C18: an acknowledgement without error for a message that was handed out and not yet
  acknowledged makes its deletion certain to be attempted: the iteration that receives it
  marks the message as acknowledged and either starts its deletion or leaves it waiting
  with the delete flag raised.
\<close>

theorem ack_schedules_deletion:
  assumes "recv_reachable s" "4 * Suc (ticks s) < (2 :: nat) ^ 64" "status s = Running"
    and "uid \<noteq> 0" and "messages (rcv (loop s)) uid = Some p"
    and "ms_State (heap (rcv (loop s)) ! p) = StateUnacked" and "\<not> disableDeletions (rcv (loop s))"
    and "tick order (EvAck \<lparr>ar_UID = uid, ar_Error = None\<rparr>) (loop s) = Completes (Continue l sp)"
  shows "ms_State (heap (rcv l) ! p) = StateAcked \<and>
    (nextToProcess l uid = Some p \<and> flagged WantDelete l
      \<or> (\<exists>m. sp = Some (SpawnDelete m) \<and> m uid = Some p))"
proof -
  let ?ev = "EvAck \<lparr>ar_UID = uid, ar_Error = None\<rparr>"
  have ok: "running_ok s" using reachable_running [OF assms(1) _ assms(3)] assms(2) by simp
  have takes: "loop_takes s ?ev (work s)" using assms(4) by (intro loop_takes.intros) simp
  obtain u n where u: "selected (acked s) ?ev (loop s) (ev_operation ?ev (loop s), u)"
    and n: "tick order ?ev (loop s) = Completes n"
    and none: "rs_state (loop s) = StateNone \<Longrightarrow> started (acked s \<union> ev_acks ?ev) u n"
    and busy: "rs_state (loop s) \<noteq> StateNone \<Longrightarrow>
      carried_on (acked s \<union> ev_acks ?ev) (ev_operation ?ev (loop s)) u n"
    and sel: "select_event ?ev (loop s) = Completes (ev_operation ?ev (loop s), u)"
    using turn_result [OF ok takes assms(2), of order] by blast
  have p: "p < length (heap (rcv (loop s)))" "ms_UID (heap (rcv (loop s)) ! p) = uid"
    using ok assms(5) by (auto simp: running_ok_def data_ok_def known_ok_def)
  with sel assms(5,6) have u': "nextToProcess u uid = Some p" "ms_State (heap (rcv u) ! p) = StateAcked"
    by (auto simp: handleAck_def schedule_def obind_eq_Completes heap_set_state
        dest!: run_flag_frame(2))
  have on: "deletions_on u" using u assms(7) by (simp add: selected_def deletions_on_def)
  have "n = Continue l sp" using n assms(8) by simp
  then show ?thesis
    using none busy u' started_deletes [OF _ u'(1) on, of _ l sp]
      carried_on_deletes [OF _ u'(1) on, of _ _ l sp]
    by (cases "rs_state (loop s) = StateNone") fastforce+
qed

theorem ack_schedules_deletion_witness:
  "messages (ex_known (Some StateUnacked)) 7 = Some 0 \<and>
   tick [7] (EvAck ex_ack) (ex_fetching (Some StateUnacked)) =
     Completes (Continue (ex_acked StateInFetch []) None) \<and>
   ms_State (heap (rcv (ex_acked StateInFetch [])) ! 0) = StateAcked"
proof -
  let ?s = "ex_sys (ex_fetching (Some StateUnacked)) [Finishing OperationFetchFinish] {} 2"
  have s: "status ?s = Running" "loop ?s = ex_fetching (Some StateUnacked)"
    "4 * Suc (ticks ?s) < (2 :: nat) ^ 64" by (simp_all add: ex_sys_def)
  have known: "messages (rcv (loop ?s)) 7 = Some 0" "ms_State (heap (rcv (loop ?s)) ! 0) = StateUnacked"
    "\<not> disableDeletions (rcv (loop ?s))"
    by (simp_all add: ex_sys_def ex_states)
  from ack_schedules_deletion [OF ex_handed_reachable s(3,1) _ known] ex_turn3 s(2) known
  show ?thesis by (auto simp: ex_ack_def ex_states)
qed

section \<open>Abandoned messages\<close>

text \<open>
  An acknowledged message the receiver knows, but which no map of messages to delete and
  no goroutine mentions any more.
\<close>

fun mentions :: "u32 \<Rightarrow> goroutine \<Rightarrow> bool" where
  "mentions uid (DeleteRunning m) = (m uid \<noteq> None)"
| "mentions uid (DeleteSending rs) = list_ex (\<lambda>r. dr_UID r = uid) rs"
| "mentions uid _ = False"

definition forgotten :: "u32 \<Rightarrow> run_state \<Rightarrow> bool" where
  "forgotten uid l \<longleftrightarrow> nextToProcess l uid = None \<and>
     (\<exists>p. messages (rcv l) uid = Some p \<and> ms_State (heap (rcv l) ! p) = StateAcked)"

definition abandoned :: "u32 \<Rightarrow> recv_sys \<Rightarrow> bool" where
  "abandoned uid s \<longleftrightarrow> forgotten uid (loop s) \<and> list_all (\<lambda>g. \<not> mentions uid g) (work s)"

lemma handleFetch_loop_frame:
  assumes "messages mr uid = Some p" and "p < length (heap mr)"
  shows "messages (fst (handleFetch_loop fetched uids mr num)) uid = Some p
    \<and> heap (fst (handleFetch_loop fetched uids mr num)) ! p = heap mr ! p"
  using assms
proof (induction fetched uids mr num rule: handleFetch_loop.induct)
  case (2 fetched uid' uids mr num)
  then show ?case
    by (cases "uid' = uid"; cases "messages mr uid'") (auto simp: Let_def nth_append)
qed simp

lemma schedule_forgotten:
  assumes "schedule msg s = Completes t" and "forgotten uid s"
    and "\<forall>p. msg = Some p \<longrightarrow> ms_UID (heap (rcv s) ! p) \<noteq> uid"
  shows "forgotten uid t"
  using assms by (auto simp: schedule_def forgotten_def split: option.splits dest!: run_flag_frame(2))

lemma set_state_forgotten:
  assumes k: "known_ok A (rcv s)" and f: "forgotten uid s" and q: "messages (rcv s) uid' = Some q"
    and "uid' \<noteq> uid"
  shows "forgotten uid (s\<lparr>rcv := set_state q st (rcv s)\<rparr>)"
    and "ms_UID (heap (set_state q st (rcv s)) ! q) \<noteq> uid"
proof -
  obtain p where p: "messages (rcv s) uid = Some p" using f by (auto simp: forgotten_def split: option.splits)
  have "p < length (heap (rcv s))" "q < length (heap (rcv s))"
    "ms_UID (heap (rcv s) ! p) = uid" "ms_UID (heap (rcv s) ! q) = uid'"
    using k p q by (auto simp: known_ok_def)
  with p f assms(4) show "forgotten uid (s\<lparr>rcv := set_state q st (rcv s)\<rparr>)"
    "ms_UID (heap (set_state q st (rcv s)) ! q) \<noteq> uid"
    by (auto simp: forgotten_def heap_set_state)
qed

lemma select_forgotten:
  assumes k: "known_ok A (rcv s)" and f: "forgotten uid s"
    and sel: "select_event ev s = Completes (opn, t)"
    and other: "\<forall>r. ev = EvDeleteResult r \<longrightarrow> dr_UID r \<noteq> uid"
  shows "forgotten uid t"
proof (cases ev)
  case (EvFetchResult r order)
  obtain p where p: "messages (rcv s) uid = Some p" "p < length (heap (rcv s))"
    using k f by (auto simp: forgotten_def known_ok_def split: option.splits)
  from handleFetch_loop_frame [OF p] p(1) EvFetchResult sel f show ?thesis
    by (auto simp: forgotten_def handleFetch_def split: if_splits)
next
  case (EvDeleteResult r)
  with other have ne: "dr_UID r \<noteq> uid" by simp
  obtain mr msg where h: "handleDelete r (rcv s) = (mr, msg)" by fastforce
  have "forgotten uid (s\<lparr>rcv := mr\<rparr>) \<and> (\<forall>p. msg = Some p \<longrightarrow> ms_UID (heap mr ! p) \<noteq> uid)"
  proof (cases "dr_State r = StateDeleted \<or> messages (rcv s) (dr_UID r) = None")
    case True
    with h f ne show ?thesis
      by (auto simp: handleDelete_def forgotten_def split: if_splits option.splits)
  next
    case False
    then obtain q where q: "messages (rcv s) (dr_UID r) = Some q" by auto
    with False h have "mr = set_state q (dr_State r) (rcv s)" "msg = Some q"
      by (auto simp: handleDelete_def)
    with set_state_forgotten [OF k f q ne] show ?thesis by simp
  qed
  moreover have "schedule msg (s\<lparr>rcv := mr\<rparr>) = Completes t"
    using sel h EvDeleteResult by (auto simp: obind_eq_Completes split: if_splits)
  ultimately show ?thesis using schedule_forgotten by fastforce
next
  case (EvAck r)
  obtain mr msg where h: "handleAck r (rcv s) = (mr, msg)" by fastforce
  have "forgotten uid (s\<lparr>rcv := mr\<rparr>) \<and> (\<forall>p. msg = Some p \<longrightarrow> ms_UID (heap mr ! p) \<noteq> uid)"
  proof (cases "ar_UID r = uid")
    case True
    with h f show ?thesis
      by (auto simp: handleAck_def forgotten_def split: if_splits option.splits)
  next
    case ne: False
    show ?thesis
    proof (cases msg)
      case None
      with h f show ?thesis by (auto simp: handleAck_def split: if_splits option.splits)
    next
      case (Some q)
      with h have "messages (rcv s) (ar_UID r) = Some q" "mr = set_state q StateAcked (rcv s)"
        by (auto simp: handleAck_def split: if_splits option.splits)
      with set_state_forgotten [OF k f _ ne] Some show ?thesis by simp
    qed
  qed
  moreover have "schedule msg (s\<lparr>rcv := mr\<rparr>) = Completes t"
    using sel h EvAck by (auto simp: obind_eq_Completes)
  ultimately show ?thesis using schedule_forgotten by fastforce
qed (use sel f in \<open>auto simp: obind_eq_Completes chan_recv_def forgotten_def
  split: if_splits list.splits option.splits dest!: run_flag_frame(1)\<close>)

lemma turn_forgotten:
  assumes f: "forgotten uid u"
    and turn: "started A u (Continue l sp) \<or> carried_on A opn u (Continue l sp)"
  shows "forgotten uid l \<and> list_all (\<lambda>g. \<not> mentions uid g) (spawned_work sp)"
proof -
  have todo: "nextToProcess u uid = None" using f by (simp add: forgotten_def)
  have "rcv l = rcv u \<and> nextToProcess l uid = None
      \<and> list_all (\<lambda>g. \<not> mentions uid g) (spawned_work sp)"
  proof (cases sp)
    case None
    with turn todo show ?thesis by (auto simp: started_def carried_on_def spawned_work_def)
  next
    case (Some x)
    with turn todo show ?thesis
      by (cases x) (auto simp: started_def carried_on_def spawned_work_def)
  qed
  with f show ?thesis by (simp add: forgotten_def)
qed

lemma turn_done_forgotten:
  assumes "forgotten uid u" and "started A u (Done l) \<or> carried_on A opn u (Done l)"
  shows "forgotten uid l"
  using assms by (auto simp: started_def carried_on_def forgotten_def)

lemma takes_unmentioned:
  assumes "loop_takes s ev ws" and "list_all (\<lambda>g. \<not> mentions uid g) (work s)"
  shows "list_all (\<lambda>g. \<not> mentions uid g) ws \<and> (\<forall>r. ev = EvDeleteResult r \<longrightarrow> dr_UID r \<noteq> uid)"
  using assms by cases auto

lemma go_unmentioned:
  assumes "go_step l g g' st" and "\<not> mentions uid g" and "work_ok A l g" and "0 \<notin> A"
  shows "\<not> mentions uid g'"
  using assms(1)
proof cases
  case (delete_runs m order sv rs calls)
  with assms doDelete_stores(4) [of A "rcv l" m order sv rs calls] show ?thesis
    by (auto simp: list_ex_iff)
qed (use assms in auto)

lemma abandoned_step:
  assumes reach: "recv_reachable s" and ab: "abandoned uid s" and step: "recv_step s t"
    and bound: "4 * ticks t < (2 :: nat) ^ 64"
  shows "abandoned uid t"
proof -
  have "ticks s \<le> ticks t" using step by cases (simp_all add: turned_def)
  with bound have sys: "recv_ok s" using reachable_ok [OF reach] by simp
  then have "status s = Exited \<Longrightarrow> work s = []" by (auto simp: recv_ok_def exited_ok_def)
  then have ok: "running_ok s" if "work s \<noteq> [] \<or> status s = Running"
    using sys that by (auto simp: recv_ok_def)
  have f: "forgotten uid (loop s)" and w: "list_all (\<lambda>g. \<not> mentions uid g) (work s)"
    using ab by (simp_all add: abandoned_def)
  show ?thesis
    using step
  proof cases
    case (turn_continue ev ws order l sp)
    with bound have b: "4 * Suc (ticks s) < (2 :: nat) ^ 64" by (simp add: turned_def)
    have run: "running_ok s" using ok turn_continue(2) by simp
    then have k: "known_ok (acked s) (rcv (loop s))" by (simp add: running_ok_def data_ok_def)
    obtain u where sel: "select_event ev (loop s) = Completes (ev_operation ev (loop s), u)"
      and turn: "started (acked s \<union> ev_acks ev) u (Continue l sp)
        \<or> carried_on (acked s \<union> ev_acks ev) (ev_operation ev (loop s)) u (Continue l sp)"
      using turn_result [OF run turn_continue(3) b, of order] turn_continue(4)
      by (metis outcome.inject(1))
    note takes = takes_unmentioned [OF turn_continue(3) w]
    from takes have "\<forall>r. ev = EvDeleteResult r \<longrightarrow> dr_UID r \<noteq> uid" ..
    from turn_forgotten [OF select_forgotten [OF k f sel this] turn] takes turn_continue(1)
    show ?thesis by (simp add: abandoned_def turned_def)
  next
    case (turn_exit ev ws order l)
    with bound have b: "4 * Suc (ticks s) < (2 :: nat) ^ 64" by (simp add: turned_def)
    have run: "running_ok s" using ok turn_exit(2) by simp
    then have k: "known_ok (acked s) (rcv (loop s))" by (simp add: running_ok_def data_ok_def)
    obtain u where sel: "select_event ev (loop s) = Completes (ev_operation ev (loop s), u)"
      and turn: "started (acked s \<union> ev_acks ev) u (Done l)
        \<or> carried_on (acked s \<union> ev_acks ev) (ev_operation ev (loop s)) u (Done l)"
      using turn_result [OF run turn_exit(3) b, of order] turn_exit(4)
      by (metis outcome.inject(1))
    note takes = takes_unmentioned [OF turn_exit(3) w]
    from takes have "\<forall>r. ev = EvDeleteResult r \<longrightarrow> dr_UID r \<noteq> uid" ..
    from turn_done_forgotten [OF select_forgotten [OF k f sel this] turn] takes turn_exit(1)
    show ?thesis by (simp add: abandoned_def turned_def)
  next
    case (work_goes_on ws g vs g' st)
    have zero: "0 \<notin> acked s" using sys by (simp add: recv_ok_def)
    have "work_ok (acked s) (loop s) g"
      using ok work_goes_on(2) by (simp add: running_ok_def)
    from go_unmentioned [OF work_goes_on(3) _ this zero] w work_goes_on(1,2) f
    show ?thesis by (simp add: abandoned_def)
  next
    case (work_finishes ws opn vs ch)
    with f w show ?thesis by (simp add: abandoned_def forgotten_def)
  qed (use f takes_unmentioned [OF _ w] in \<open>simp_all add: abandoned_def turned_def\<close>)
qed

lemma abandoned_steps:
  assumes "recv_step\<^sup>*\<^sup>* s t" and "recv_reachable s" and "abandoned uid s"
    and "4 * ticks t < (2 :: nat) ^ 64"
  shows "abandoned uid t"
  using assms
proof (induction rule: rtranclp_induct)
  case (step t u)
  have "ticks t \<le> ticks u" using step.hyps(2) by cases (simp_all add: turned_def)
  with step have "abandoned uid t" by simp
  with abandoned_step [OF reachable_steps [OF step.prems(1) step.hyps(1)] _ step.hyps(2)] step.prems
  show ?case by simp
qed

section \<open>Failed stores\<close>

text \<open>
  C22: when the server answers the store of a batch with an error and no message, the
  messages of the batch are never deleted: such a message stays known and acknowledged,
  but no map of messages to delete and no goroutine mentions it, whatever happens later; a
  second acknowledgement, timeouts and new batches do not bring it back.
\<close>

theorem failed_store_is_never_retried:
  assumes "recv_reachable s" and "work s = [DeleteRunning m]" and "m uid = Some p"
    and "messages (rcv (loop s)) uid = Some p" and "nextToProcess (loop s) uid = None"
    and "map_iteration m order" and "\<And>set item value. fst (sv_UidStore sv set item value) = []"
    and "doDelete sv (deref (rcv (loop s)) m) order = (rs, calls)"
    and "recv_step\<^sup>*\<^sup>* (s\<lparr>work := [DeleteSending rs], stored := stored s \<union> store_uids calls\<rparr>) t"
    and "4 * ticks t < (2 :: nat) ^ 64"
  shows "abandoned uid t"
proof -
  let ?s = "s\<lparr>work := [DeleteSending rs], stored := stored s \<union> store_uids calls\<rparr>"
  have step: "recv_step s ?s"
    using work_goes_on [of s "[]" _ "[]", OF _ delete_runs [OF assms(6,8)]] assms(2) by simp
  have "ticks s \<le> ticks t"
    using assms(9) by (induction rule: rtranclp_induct)
      (auto simp: turned_def elim!: recv_step.cases)
  with assms(1,2,10) have "running_ok s"
    using reachable_ok [OF assms(1)] by (auto simp: recv_ok_def exited_ok_def)
  with assms(2) have ptrs: "ptrs_ok (acked s) (rcv (loop s)) m" by (simp add: running_ok_def)
  with assms(3) have acked: "ms_State (heap (rcv (loop s)) ! p) = StateAcked"
    by (auto simp: ptrs_ok_def)
  note order = acked_deref [OF ptrs map_iterationD(2) [OF assms(6)]]
  have "ms_State (the (deref (rcv (loop s)) m u)) = StateAcked" if "u \<in> set order" for u
    using order that by (simp add: acked_uids_def filter_id_conv)
  then have "filter (\<lambda>u. ms_State (the (deref (rcv (loop s)) m u)) = StateDeleted) order = []"
    by (simp add: filter_empty_conv)
  with assms(7,8) have "rs = []"
    by (auto simp: doDelete_def collect_deletions_eq Let_def cl_UidStore_def goimap_command_def
        split: if_splits)
  with assms(4,5) acked have "abandoned uid ?s" by (simp add: abandoned_def forgotten_def)
  with abandoned_steps [OF assms(9) reach_step [OF assms(1) step] _ assms(10)] show ?thesis .
qed

theorem failed_store_is_never_retried_witness:
  "recv_step\<^sup>*\<^sup>* ex_deleted (ex_deleted\<lparr>work := [Finishing OperationDeleteFinish]\<rparr>) \<and>
   abandoned 7 (ex_deleted\<lparr>work := [Finishing OperationDeleteFinish]\<rparr>)"
proof -
  let ?s = "ex_sys ex_deleting [DeleteRunning [7 \<mapsto> 0]] {7} 5"
  let ?t = "ex_deleted\<lparr>work := [Finishing OperationDeleteFinish]\<rparr>"
  let ?calls = "[CUidStore (AddNum [7] []) ''+FLAGS'' [DeletedFlag], CExpunge]"
  have s: "work ?s = [DeleteRunning [7 \<mapsto> 0]]" "messages (rcv (loop ?s)) 7 = Some 0"
    "nextToProcess (loop ?s) 7 = None" "4 * ticks ?t < (2 :: nat) ^ 64" "[7 \<mapsto> 0] 7 = Some (0 :: nat)"
    by (simp_all add: ex_sys_def ex_states ex_deleted_def)
  have order: "map_iteration [7 :: u32 \<mapsto> 0 :: nat] [7]" by (simp add: map_iteration_def)
  have run: "doDelete ex_server (deref (rcv (loop ?s)) [7 \<mapsto> 0]) [7] = ([], ?calls)"
    using ex_delete_fails by (simp add: ex_sys_def ex_deleting_def ex_loop_def)
  have "recv_step ex_deleted ?t"
    using work_goes_on [of ex_deleted "[]" _ "[]", OF _ delete_ends]
    by (simp add: ex_deleted_def ex_sys_def)
  then have steps: "recv_step\<^sup>*\<^sup>* ex_deleted ?t" by blast
  have "Collect (SeqSet_Contains (AddNum [7] [])) = {7}" by (auto simp: Contains_AddNum)
  then have "?s\<lparr>work := [DeleteSending []], stored := stored ?s \<union> store_uids ?calls\<rparr> = ex_deleted"
    by (simp add: ex_deleted_def ex_sys_def)
  with steps have steps': "recv_step\<^sup>*\<^sup>* (?s\<lparr>work := [DeleteSending []],
      stored := stored ?s \<union> store_uids ?calls\<rparr>) ?t" by simp
  have "abandoned 7 ?t"
    by (rule failed_store_is_never_retried [OF ex_deleting_reachable s(1,5,2,3) order _ run steps' s(4)])
      (simp add: ex_server_def)
  with steps show ?thesis by simp
qed

end
