(* ===== verification/Ingest.thy ===== *)
theory Ingest
  imports Imap
begin

text \<open>
  \<open>ingest/ingest.go\<close>: the client that appends messages to the destination. Requests go
  through an unbuffered channel to one goroutine, \<open>run\<close>, which appends the message and
  writes a response to the channel of the request.
\<close>

section \<open>Data\<close>

record Response =
  resp_UID :: u32
  resp_Error :: "go_error option"

text \<open>The response channel of a request is a name.\<close>

record request =
  rq_Mailbox :: string
  rq_UID :: u32
  rq_Message :: imap_message
  rq_ch :: nat

text \<open>
  The phases of the goroutine \<open>run\<close>: waiting in its \<open>select\<close>, appending, about to write a
  response, draining after \<open>wantQuit\<close>, and finished, with \<open>hasQuit\<close> closed.
\<close>

datatype ingest_phase =
    Waiting
  | Appending request
  | Responding request Response
  | Draining
  | DrainResponding request Response
  | LoggingOut
  | Finished

record ingestClient =
  ig_shutdown :: bool
  ig_incoming_closed :: bool
  ig_phase :: ingest_phase

text \<open>The section \<open>RFC822\<close> is parsed as \<open>BODY[]\<close>.\<close>

definition rfc822Section :: string where
  "rfc822Section = ''BODY[]''"

section \<open>Operations\<close>

text \<open>The first argument is the factory's answer to \<open>NewClient\<close>.\<close>

definition ingest_NewClient :: "go_error option \<Rightarrow> go_error + ingestClient" where
  "ingest_NewClient dialled =
     (case dialled of
        Some err \<Rightarrow> Inl err
      | None \<Rightarrow> Inr \<lparr>ig_shutdown = False, ig_incoming_closed = False, ig_phase = Waiting\<rparr>)"

definition isShutdown :: "ingestClient \<Rightarrow> bool" where
  "isShutdown ig = ig_shutdown ig"

text \<open>
  \<open>IngestMessage\<close> returns an error, or goes on to send the request.
\<close>

definition IngestMessage ::
  "ingestClient \<Rightarrow> string \<Rightarrow> imap_message \<Rightarrow> nat \<Rightarrow> go_error + request"
where
  "IngestMessage ig mailbox msg ch =
     (if Uid msg = 0 then Inl InvalidUID
      else if isShutdown ig then Inl IngestConnectionClosed
      else Inr \<lparr>rq_Mailbox = mailbox, rq_UID = Uid msg, rq_Message = msg, rq_ch = ch\<rparr>)"

definition append_call :: "request \<Rightarrow> imap_call" where
  "append_call req = CAppend (rq_Mailbox req) (Flags (rq_Message req))
     (InternalDate (rq_Message req)) (GetBody (rq_Message req) rfc822Section)"

definition append_response :: "request \<Rightarrow> go_error option \<Rightarrow> Response" where
  "append_response req err = \<lparr>resp_UID = rq_UID req, resp_Error = err\<rparr>"

text \<open>What \<open>drain\<close> answers to a request that is waiting to be taken.\<close>

definition drain_response :: "request \<Rightarrow> Response" where
  "drain_response req = \<lparr>resp_UID = rq_UID req, resp_Error = Some IngestConnectionClosed\<rparr>"

text \<open>
  The steps of \<open>run\<close>. A step takes a request from \<open>incoming\<close>, appends, writes a response,
  or follows \<open>wantQuit\<close>; what it needs from outside is its argument, what it writes out
  its result.
\<close>

definition run_take :: "request \<Rightarrow> ingestClient \<Rightarrow> ingestClient" where
  "run_take req ig = ig\<lparr>ig_phase := Appending req\<rparr>"

definition run_append :: "request \<Rightarrow> go_error option \<Rightarrow> ingestClient \<Rightarrow> ingestClient" where
  "run_append req err ig = ig\<lparr>ig_phase := Responding req (append_response req err)\<rparr>"

definition run_responded :: "ingestClient \<Rightarrow> ingestClient" where
  "run_responded ig = ig\<lparr>ig_phase := Waiting\<rparr>"

definition run_quit :: "ingestClient \<Rightarrow> ingestClient" where
  "run_quit ig = ig\<lparr>ig_shutdown := True, ig_phase := Draining\<rparr>"

definition drain_take :: "request \<Rightarrow> ingestClient \<Rightarrow> ingestClient" where
  "drain_take req ig = ig\<lparr>ig_phase := DrainResponding req (drain_response req)\<rparr>"

definition drain_responded :: "ingestClient \<Rightarrow> ingestClient" where
  "drain_responded ig = ig\<lparr>ig_phase := Draining\<rparr>"

definition drain_done :: "ingestClient \<Rightarrow> ingestClient" where
  "drain_done ig = ig\<lparr>ig_incoming_closed := True, ig_phase := LoggingOut\<rparr>"

definition run_finish :: "ingestClient \<Rightarrow> ingestClient" where
  "run_finish ig = ig\<lparr>ig_phase := Finished\<rparr>"

text \<open>
  \<open>IngestMessageSync\<close>: the argument answers an accepted request with its response.
\<close>

definition IngestMessageSync ::
  "string \<Rightarrow> ingestClient \<Rightarrow> imap_message \<Rightarrow> (request \<Rightarrow> Response) \<Rightarrow> go_error option"
where
  "IngestMessageSync mailbox ig msg answer =
     (case IngestMessage ig mailbox msg 0 of
        Inl err \<Rightarrow> Some err
      | Inr req \<Rightarrow> (let res = answer req in
          (case resp_Error res of Some err \<Rightarrow> Some err | None \<Rightarrow> None)))"

section \<open>Properties\<close>

declare run_take_def [step_defs] run_append_def [step_defs] run_responded_def [step_defs]
  run_quit_def [step_defs] drain_take_def [step_defs] drain_responded_def [step_defs]
  drain_done_def [step_defs] run_finish_def [step_defs] append_response_def [step_defs]
  drain_response_def [step_defs]

text \<open>
  A synchronous ingest succeeds exactly when the message has a UID, the client has not
  shut down and the server accepted the APPEND of the message's own flags, date and full
  body to the mailbox; in every other case it returns the matching error.
\<close>

theorem ingest_sync_result:
  "IngestMessageSync mailbox ig msg (\<lambda>req. append_response req (srv (append_call req))) =
    (if Uid msg = 0 then Some InvalidUID
     else if ig_shutdown ig then Some IngestConnectionClosed
     else srv (CAppend mailbox (Flags msg) (InternalDate msg) (GetBody msg ''BODY[]'')))"
  by (simp add: IngestMessageSync_def IngestMessage_def append_response_def append_call_def
      isShutdown_def rfc822Section_def Let_def split: option.splits)

end
