(* ===== verification/Pump.thy ===== *)
theory Pump
  imports Ingest Receiver
begin

text \<open>
  The two pumps: \<open>pump/pump.go\<close>, from one source to one destination, and
  \<open>multipump/multipump.go\<close>, from several sources, with its select over a table of cases.
  Each is a constructor that wires a receiver (or several) to an ingest client, and a loop
  that turns incoming messages into ingest requests and ingest responses into
  acknowledgements.
\<close>

section \<open>The single pump\<close>

record PumpConfig =
  pc_Source :: ConnectionConfig
  pc_Dest :: ConnectionConfig
  pc_IDLEFallbackInterval :: duration
  pc_BatchSize :: uint
  pc_DisableDeletions :: bool
  pc_FetchBufferSize :: uint
  pc_FetchMaxInterval :: duration

record MailPump =
  mp_receiver :: mailReceiver
  mp_ingest :: ingestClient
  mp_destMailbox :: string

definition receiver_config :: "PumpConfig \<Rightarrow> ReceiverConfig" where
  "receiver_config cfg =
     \<lparr>rc_Connection = pc_Source cfg, rc_IDLEFallbackInterval = pc_IDLEFallbackInterval cfg,
      rc_BatchSize = pc_BatchSize cfg, rc_FetchBufferSize = pc_FetchBufferSize cfg,
      rc_FetchMaxInterval = pc_FetchMaxInterval cfg,
      rc_DisableDeletions = pc_DisableDeletions cfg\<rparr>"

text \<open>What the constructors and \<open>Close\<close> set going; a receiver is named by its index.\<close>

datatype pump_effect =
    ReceiverStarted nat | IngestStarted | ReceiverClosed nat | IngestClosed | TickStarted

text \<open>The answers of the two factories to \<open>NewClient\<close> are the first arguments.\<close>

definition NewMailPump ::
  "go_error option \<Rightarrow> go_error option \<Rightarrow> PumpConfig \<Rightarrow> (go_error + MailPump) \<times> pump_effect list"
where
  "NewMailPump src_dialled dst_dialled cfg =
     (case NewReceiver src_dialled (receiver_config cfg) of
        Inl err \<Rightarrow> (Inl err, [])
      | Inr recv \<Rightarrow>
          (case ingest_NewClient dst_dialled of
             Inl err \<Rightarrow> (Inl err, [ReceiverStarted 0, ReceiverClosed 0])
           | Inr ing \<Rightarrow>
               (Inr \<lparr>mp_receiver = recv, mp_ingest = ing, mp_destMailbox = cc_Mailbox (pc_Dest cfg)\<rparr>,
                [ReceiverStarted 0, IngestStarted, TickStarted])))"

text \<open>The cases of the \<open>select\<close> of \<open>tick\<close>, and what each makes the loop do.\<close>

datatype pump_event = GotMessage imap_message | GotResponse Response | GotStop

datatype pump_action =
    SendRequest request
  | CallAck nat u32 "go_error option"
  | ReturnNil

definition pump_tick :: "ingestClient \<Rightarrow> string \<Rightarrow> pump_event \<Rightarrow> pump_action" where
  "pump_tick ig destMailbox ev =
     (case ev of
        GotMessage msg \<Rightarrow>
          (case IngestMessage ig destMailbox msg 0 of
             Inl err \<Rightarrow> CallAck 0 (Uid msg) (Some err)
           | Inr req \<Rightarrow> SendRequest req)
      | GotResponse r \<Rightarrow> CallAck 0 (resp_UID r) (resp_Error r)
      | GotStop \<Rightarrow> ReturnNil)"

section \<open>The multi pump\<close>

datatype select_case = NoCase | RecvCase nat | IngestCase nat | StopCase

record multiPump =
  mu_sources :: nat
  mu_targetMailboxes :: "string list"
  mu_cases :: "select_case list"
  recvBaseOffset :: nat
  ingestBaseOffset :: nat
  exitOffset :: nat

text \<open>The table of select cases, filled entry by entry.\<close>

definition fill :: "nat \<Rightarrow> (nat \<Rightarrow> select_case) \<Rightarrow> nat \<Rightarrow> select_case list \<Rightarrow> select_case list" where
  "fill base f n cases = foldl (\<lambda>cs i. cs[base + i := f i]) cases [0..<n]"

definition build_pump :: "nat \<Rightarrow> string list \<Rightarrow> multiPump" where
  "build_pump n targets =
     (let recvBase = 0;
          cases0 = replicate (2 * n + 1) NoCase;
          cases1 = fill recvBase RecvCase n cases0;
          ingestBase = recvBase + n;
          cases2 = fill ingestBase IngestCase n cases1;
          exit = ingestBase + n
      in \<lparr>mu_sources = n, mu_targetMailboxes = targets, mu_cases = cases2[exit := StopCase],
          recvBaseOffset = recvBase, ingestBaseOffset = ingestBase, exitOffset = exit\<rparr>)"

text \<open>
  \<open>makeReceivers\<close> starts a receiver per source; when one fails it closes those it started.
  Each source comes with the answer of its factory.
\<close>

fun makeReceivers_loop ::
  "(go_error option \<times> ReceiverConfig) list \<Rightarrow> mailReceiver list \<Rightarrow> pump_effect list \<Rightarrow>
    (go_error + mailReceiver list) \<times> pump_effect list"
where
  "makeReceivers_loop [] recvs effs = (Inr recvs, effs)"
| "makeReceivers_loop ((dialled, cfg) # srcs) recvs effs =
     (case NewReceiver dialled cfg of
        Inl err \<Rightarrow> (Inl err, effs @ map ReceiverClosed [0..<length recvs])
      | Inr recv \<Rightarrow>
          makeReceivers_loop srcs (recvs @ [recv]) (effs @ [ReceiverStarted (length recvs)]))"

definition makeReceivers ::
  "(go_error option \<times> ReceiverConfig) list \<Rightarrow> (go_error + mailReceiver list) \<times> pump_effect list"
where
  "makeReceivers srcs = makeReceivers_loop srcs [] []"

definition NewPump ::
  "go_error option \<Rightarrow> (go_error option \<times> ReceiverConfig) list \<Rightarrow> string list \<Rightarrow>
    (go_error + multiPump \<times> mailReceiver list) \<times> pump_effect list"
where
  "NewPump dst_dialled srcs targets =
     (if length srcs = 0 then (Inl (Errorf ''no sources configured''), [])
      else if length srcs \<noteq> length targets
      then (Inl (Errorf ''mismatching source configuration/mailbox pairs''), [])
      else
        (case ingest_NewClient dst_dialled of
           Inl err \<Rightarrow> (Inl err, [])
         | Inr ing \<Rightarrow>
             (case makeReceivers srcs of
                (Inl err, effs) \<Rightarrow> (Inl err, [IngestStarted] @ effs @ [IngestClosed])
              | (Inr recvs, effs) \<Rightarrow>
                  (Inr (build_pump (length srcs) targets, recvs),
                   [IngestStarted] @ effs @ [TickStarted]))))"

definition multi_Close :: "multiPump \<Rightarrow> pump_effect list" where
  "multi_Close pump = map ReceiverClosed [0..<mu_sources pump] @ [IngestClosed]"

text \<open>
  One iteration of \<open>tick\<close>: \<open>chosen\<close>, \<open>val\<close> and \<open>ok\<close> are the results of the select; a value
  of another type than the one asked for makes the type assertion panic. An index outside
  the target mailboxes or the receivers panics as well.
\<close>

datatype select_value = ValMessage imap_message | ValResponse Response | ValZero

definition multi_tick ::
  "ingestClient \<Rightarrow> multiPump \<Rightarrow> nat \<Rightarrow> select_value \<Rightarrow> bool \<Rightarrow> pump_action outcome"
where
  "multi_tick ig pump chosen val ok =
     (if recvBaseOffset pump \<le> chosen \<and> chosen < ingestBaseOffset pump then
        (case val of
           ValMessage msg \<Rightarrow>
             (let receiverIndex = chosen - recvBaseOffset pump in
              if receiverIndex < length (mu_targetMailboxes pump) then
                (case IngestMessage ig (mu_targetMailboxes pump ! receiverIndex) msg receiverIndex of
                   Inl err \<Rightarrow>
                     (if chosen < mu_sources pump then Completes (CallAck chosen (Uid msg) (Some err))
                      else Panics ''index out of range'')
                 | Inr req \<Rightarrow> Completes (SendRequest req))
              else Panics ''index out of range'')
         | _ \<Rightarrow> Panics ''interface conversion'')
      else if ingestBaseOffset pump \<le> chosen \<and> chosen < exitOffset pump then
        (case val of
           ValResponse r \<Rightarrow>
             (let receiverIndex = chosen - ingestBaseOffset pump in
              if receiverIndex < mu_sources pump
              then Completes (CallAck receiverIndex (resp_UID r) (resp_Error r))
              else Panics ''index out of range'')
         | _ \<Rightarrow> Panics ''interface conversion'')
      else if chosen = exitOffset pump \<or> \<not> ok then Completes ReturnNil
      else Panics ''unhandled select case'')"

section \<open>The table of cases\<close>

lemma length_fill [simp]: "length (fill base f n cases) = length cases"
proof -
  have "length (foldl (\<lambda>cs i. cs[base + i := f i]) cases xs) = length cases" for xs
    by (induction xs arbitrary: cases) auto
  then show ?thesis by (simp add: fill_def)
qed

lemma nth_fill:
  assumes "base + n \<le> length cases" and "j < length cases"
  shows "fill base f n cases ! j = (if base \<le> j \<and> j < base + n then f (j - base) else cases ! j)"
  using assms
proof (induction n)
  case 0
  then show ?case by (auto simp: fill_def)
next
  case (Suc n)
  have "fill base f (Suc n) cases = (fill base f n cases)[base + n := f n]"
    by (simp add: fill_def)
  with Suc show ?case by (auto simp: nth_list_update)
qed

lemma build_pump_cases:
  assumes "j < 2 * n + 1"
  shows "mu_cases (build_pump n targets) ! j =
    (if j < n then RecvCase j else if j < 2 * n then IngestCase (j - n) else StopCase)"
    and "length (mu_cases (build_pump n targets)) = 2 * n + 1"
  using assms by (auto simp: build_pump_def Let_def nth_fill nth_list_update)

lemma build_pump_simps [simp]:
  "mu_sources (build_pump n targets) = n" "mu_targetMailboxes (build_pump n targets) = targets"
  "recvBaseOffset (build_pump n targets) = 0" "ingestBaseOffset (build_pump n targets) = n"
  "exitOffset (build_pump n targets) = 2 * n"
  by (simp_all add: build_pump_def Let_def)

lemma makeReceivers_loop_effects:
  "case makeReceivers_loop srcs recvs effs of
     (Inr rs, es) \<Rightarrow> length rs = length recvs + length srcs
       \<and> es = effs @ map ReceiverStarted [length recvs..<length rs]
   | (Inl err, es) \<Rightarrow> (\<exists>k. length recvs \<le> k \<and> k < length recvs + length srcs
       \<and> fst (srcs ! (k - length recvs)) = Some err
       \<and> es = effs @ map ReceiverStarted [length recvs..<k] @ map ReceiverClosed [0..<k])"
proof (induction srcs recvs effs rule: makeReceivers_loop.induct)
  case (2 dialled cfg srcs recvs effs)
  show ?case
  proof (cases "NewReceiver dialled cfg")
    case (Inl err)
    then have "dialled = Some err" by (simp add: NewReceiver_def split: option.splits)
    with Inl show ?thesis by (auto intro!: exI [of _ "length recvs"])
  next
    case (Inr recv)
    note IH = "2.IH" [OF Inr]
    show ?thesis
    proof (cases "makeReceivers_loop srcs (recvs @ [recv]) (effs @ [ReceiverStarted (length recvs)])")
      case (Pair res es)
      show ?thesis
      proof (cases res)
        case (Inl err)
        with IH Pair obtain k where k: "Suc (length recvs) \<le> k" "k < length recvs + Suc (length srcs)"
          "fst (srcs ! (k - Suc (length recvs))) = Some err"
          "es = effs @ ReceiverStarted (length recvs) # map ReceiverStarted [Suc (length recvs)..<k]
            @ map ReceiverClosed [0..<k]" by auto
        then have "[length recvs..<k] = length recvs # [Suc (length recvs)..<k]"
          and "k - length recvs = Suc (k - Suc (length recvs))" by (simp_all add: upt_conv_Cons)
        with k Pair Inr Inl show ?thesis by (auto intro!: exI [of _ k])
      next
        case (Inr rs)
        with IH Pair have rs: "length rs = Suc (length recvs + length srcs)"
          "es = effs @ ReceiverStarted (length recvs) # map ReceiverStarted [Suc (length recvs)..<length rs]"
          by auto
        have "length recvs < length rs" by (simp add: rs(1))
        then have "[length recvs..<length rs] = length recvs # [Suc (length recvs)..<length rs]"
          by (rule upt_conv_Cons)
        with rs Pair \<open>NewReceiver dialled cfg = Inr recv\<close> Inr show ?thesis by (simp del: upt_Suc)
      qed
    qed
  qed
qed simp

section \<open>Properties\<close>

text \<open>
  \<open>NewPump\<close> leaks nothing: when it fails, every receiver it had started is closed and
  the ingest client is closed if it was started, nothing else is closed, and the loop is
  not started; when it succeeds, one receiver per source is running. It fails before it
  connects to anything when there is no source or the target mailboxes do not match.
\<close>

theorem new_pump_cleans_up:
  "case NewPump dst srcs targets of
     (Inr (pump, recvs), effs) \<Rightarrow>
       effs = IngestStarted # map ReceiverStarted [0..<length srcs] @ [TickStarted]
       \<and> mu_sources pump = length srcs \<and> length recvs = length srcs
       \<and> length targets = length srcs \<and> srcs \<noteq> []
   | (Inl err, effs) \<Rightarrow>
       (effs = [] \<and> (srcs = [] \<or> length srcs \<noteq> length targets \<or> dst = Some err))
       \<or> (\<exists>k < length srcs. fst (srcs ! k) = Some err
            \<and> effs = IngestStarted # map ReceiverStarted [0..<k] @ map ReceiverClosed [0..<k]
                @ [IngestClosed])"
proof (cases "makeReceivers srcs")
  case (Pair res es)
  then have "case (res, es) of
     (Inr rs, es) \<Rightarrow> length rs = length srcs \<and> es = map ReceiverStarted [0..<length rs]
   | (Inl err, es) \<Rightarrow> (\<exists>k < length srcs. fst (srcs ! k) = Some err
       \<and> es = map ReceiverStarted [0..<k] @ map ReceiverClosed [0..<k])"
    using makeReceivers_loop_effects [where srcs = srcs and recvs = "[]" and effs = "[]"] by (simp add: makeReceivers_def split: sum.splits)
  with Pair show ?thesis
    by (auto simp: NewPump_def ingest_NewClient_def build_pump_def Let_def split: option.splits sum.splits)
qed

definition ex_failing_source :: "go_error option \<times> ReceiverConfig" where
  "ex_failing_source = (Some (Errorf ''refused''),
     \<lparr>rc_Connection = \<lparr>HostPort = ''mail:993'', Auth = PlainAuthenticator ''u'' ''p'',
        cc_Mailbox = ''INBOX'', TLS = True, TLSConfig = None, cc_Debug = False\<rparr>,
      rc_IDLEFallbackInterval = 0, rc_BatchSize = 0, rc_FetchBufferSize = 0,
      rc_FetchMaxInterval = 0, rc_DisableDeletions = False\<rparr>)"

theorem new_pump_cleans_up_witness:
  "snd (NewPump None [ex_failing_source] [''INBOX'']) = [IngestStarted, IngestClosed]"
proof -
  have "\<exists>effs. NewPump None [ex_failing_source] [''INBOX''] = (Inl (Errorf ''refused''), effs)
      \<and> effs \<noteq> []"
    by (simp add: NewPump_def ex_failing_source_def ingest_NewClient_def makeReceivers_def
        NewReceiver_def)
  with new_pump_cleans_up [where dst = None and srcs = "[ex_failing_source]" and targets = "[''INBOX'']"] show ?thesis by auto
qed

text \<open>
  C38: whatever case of its table the multi pump's select chooses, the loop neither panics
  nor mixes up sources: a message from the channel of source \<open>i\<close> is requested for target
  mailbox \<open>i\<close> with response channel \<open>i\<close>, or refused with an acknowledgement to receiver
  \<open>i\<close>; a response on channel \<open>i\<close> is acknowledged to receiver \<open>i\<close> with its own UID and
  error; the stop case ends the loop.
\<close>

theorem select_dispatch_matches_table:
  assumes "length targets = n" and "chosen < length (mu_cases (build_pump n targets))"
    and "case mu_cases (build_pump n targets) ! chosen of
      RecvCase i \<Rightarrow> val = ValMessage msg | IngestCase i \<Rightarrow> val = ValResponse r | _ \<Rightarrow> True"
  shows "multi_tick ig (build_pump n targets) chosen val ok =
    (case mu_cases (build_pump n targets) ! chosen of
       RecvCase i \<Rightarrow> (case IngestMessage ig (targets ! i) msg i of
          Inl err \<Rightarrow> Completes (CallAck i (Uid msg) (Some err))
        | Inr req \<Rightarrow> Completes (SendRequest req))
     | IngestCase i \<Rightarrow> Completes (CallAck i (resp_UID r) (resp_Error r))
     | StopCase \<Rightarrow> Completes ReturnNil
     | NoCase \<Rightarrow> Panics ''unhandled select case'')"
proof -
  have len: "length (mu_cases (build_pump n targets)) = 2 * n + 1"
    by (rule build_pump_cases(2) [of 0]) simp
  with assms(2) have chosen: "chosen < 2 * n + 1" by simp
  note table = build_pump_cases(1) [OF chosen, of targets]
  consider "chosen < n" | "n \<le> chosen" "chosen < 2 * n" | "chosen = 2 * n"
    using chosen by linarith
  then show ?thesis
  proof cases
    case 1
    with assms(1,3) table show ?thesis by (simp add: multi_tick_def split: sum.split)
  next
    case 2
    then have "chosen - n < n" by linarith
    moreover from 2 assms(3) table have "val = ValResponse r" by simp
    ultimately show ?thesis using 2 table by (simp add: multi_tick_def Let_def)
  next
    case 3
    with table show ?thesis by (simp add: multi_tick_def)
  qed
qed

theorem select_dispatch_matches_table_witness:
  "multi_tick \<lparr>ig_shutdown = False, ig_incoming_closed = False, ig_phase = Waiting\<rparr>
     (build_pump 2 [''a'', ''b'']) 3 (ValResponse \<lparr>resp_UID = 9, resp_Error = None\<rparr>) True =
   Completes (CallAck 1 9 None)"
proof -
  have len: "3 < length (mu_cases (build_pump 2 [''a'', ''b'']))"
    by (simp add: build_pump_cases(2) [of 0])
  have "mu_cases (build_pump 2 [''a'', ''b'']) ! 3 = IngestCase 1"
    by (simp add: build_pump_cases(1))
  with select_dispatch_matches_table [OF _ len, of "ValResponse \<lparr>resp_UID = 9, resp_Error = None\<rparr>"]
  show ?thesis by simp
qed

end
