(* ===== verification/Delivery.thy ===== *)
theory Delivery
  imports Pump
begin

text \<open>
  The pump as it runs: the loop of \<open>multipump/multipump.go\<close>, the ingest goroutine of
  \<open>ingest/ingest.go\<close> and the channels between them and the receivers, as a transition
  system. The single pump of \<open>pump/pump.go\<close> is the case of one source. The receivers are
  the environment: they hand out any messages and take any acknowledgement. Channels keep
  the capacities the code gives them: 20 messages, 10 responses.
\<close>

section \<open>The system\<close>

text \<open>
  The loop is in its select, blocked sending a request, blocked in \<open>Ack\<close>, or has returned.
\<close>

datatype pump_phase =
    Selecting
  | Sending request
  | Acking nat u32 "go_error option"
  | Returned

primrec phase_of :: "pump_action \<Rightarrow> pump_phase" where
  "phase_of (SendRequest req) = Sending req"
| "phase_of (CallAck i uid err) = Acking i uid err"
| "phase_of ReturnNil = Returned"

text \<open>
  Beside the program's state: the messages each receiver handed out, the requests whose
  APPEND succeeded, and the acknowledgements each receiver got.
\<close>

record delivery =
  dl_ig :: ingestClient
  dl_pump :: pump_phase
  dl_incoming :: "nat \<Rightarrow> imap_message list"
  dl_responses :: "nat \<Rightarrow> Response list"
  dl_handed :: "nat \<Rightarrow> imap_message list"
  dl_appended :: "request list"
  dl_acks :: "nat \<Rightarrow> (u32 \<times> go_error option) list"
  dl_crashed :: bool

definition deliver_init :: "delivery \<Rightarrow> bool" where
  "deliver_init s \<longleftrightarrow> (\<exists>ig. ingest_NewClient None = Inr ig \<and>
     s = \<lparr>dl_ig = ig, dl_pump = Selecting, dl_incoming = (\<lambda>_. []), dl_responses = (\<lambda>_. []),
          dl_handed = (\<lambda>_. []), dl_appended = [], dl_acks = (\<lambda>_. []), dl_crashed = False\<rparr>)"

definition push :: "nat \<Rightarrow> 'a \<Rightarrow> (nat \<Rightarrow> 'a list) \<Rightarrow> nat \<Rightarrow> 'a list" where
  "push i x q = q(i := q i @ [x])"

abbreviation incoming_cap :: nat where "incoming_cap \<equiv> 20"
abbreviation responses_cap :: nat where "responses_cap \<equiv> 10"

text \<open>
  With \<open>orderly\<close>, the ingest client is closed only after the loop has returned, as the two
  programs do; without, at any time, as the interface allows.
\<close>

inductive deliver_step :: "bool \<Rightarrow> string list \<Rightarrow> delivery \<Rightarrow> delivery \<Rightarrow> bool"
  for orderly :: bool and targets :: "string list" where
  hand: "i < length targets \<Longrightarrow> length (dl_incoming s i) < incoming_cap \<Longrightarrow>
    deliver_step orderly targets s
      (s\<lparr>dl_incoming := push i msg (dl_incoming s), dl_handed := push i msg (dl_handed s)\<rparr>)"
| take_message: "dl_pump s = Selecting \<Longrightarrow> i < length targets \<Longrightarrow> dl_incoming s i = msg # ms \<Longrightarrow>
    multi_tick (dl_ig s) (build_pump (length targets) targets) i (ValMessage msg) True = Completes act \<Longrightarrow>
    deliver_step orderly targets s
      (s\<lparr>dl_incoming := (dl_incoming s)(i := ms), dl_pump := phase_of act\<rparr>)"
| take_response: "dl_pump s = Selecting \<Longrightarrow> i < length targets \<Longrightarrow> dl_responses s i = r # rs \<Longrightarrow>
    multi_tick (dl_ig s) (build_pump (length targets) targets) (length targets + i)
      (ValResponse r) True = Completes act \<Longrightarrow>
    deliver_step orderly targets s
      (s\<lparr>dl_responses := (dl_responses s)(i := rs), dl_pump := phase_of act\<rparr>)"
| take_stop: "dl_pump s = Selecting \<Longrightarrow>
    multi_tick (dl_ig s) (build_pump (length targets) targets) (2 * length targets)
      ValZero False = Completes act \<Longrightarrow>
    deliver_step orderly targets s (s\<lparr>dl_pump := phase_of act\<rparr>)"
| ack_taken: "dl_pump s = Acking i uid err \<Longrightarrow>
    deliver_step orderly targets s
      (s\<lparr>dl_pump := Selecting, dl_acks := push i (uid, err) (dl_acks s)\<rparr>)"
| send_taken: "dl_pump s = Sending req \<Longrightarrow> ig_phase (dl_ig s) = Waiting \<Longrightarrow>
    deliver_step orderly targets s (s\<lparr>dl_pump := Selecting, dl_ig := run_take req (dl_ig s)\<rparr>)"
| send_drained: "dl_pump s = Sending req \<Longrightarrow> ig_phase (dl_ig s) = Draining \<Longrightarrow>
    deliver_step orderly targets s (s\<lparr>dl_pump := Selecting, dl_ig := drain_take req (dl_ig s)\<rparr>)"
| send_closed: "dl_pump s = Sending req \<Longrightarrow> ig_incoming_closed (dl_ig s) \<Longrightarrow>
    \<not> dl_crashed s \<Longrightarrow> deliver_step orderly targets s (s\<lparr>dl_crashed := True\<rparr>)"
| append: "ig_phase (dl_ig s) = Appending req \<Longrightarrow>
    deliver_step orderly targets s (s\<lparr>dl_ig := run_append req err (dl_ig s),
      dl_appended := (if err = None then dl_appended s @ [req] else dl_appended s)\<rparr>)"
| respond: "ig_phase (dl_ig s) = Responding req r \<Longrightarrow>
    length (dl_responses s (rq_ch req)) < responses_cap \<Longrightarrow>
    deliver_step orderly targets s
      (s\<lparr>dl_ig := run_responded (dl_ig s), dl_responses := push (rq_ch req) r (dl_responses s)\<rparr>)"
| ingest_quit: "ig_phase (dl_ig s) = Waiting \<Longrightarrow> (orderly \<longrightarrow> dl_pump s = Returned) \<Longrightarrow>
    deliver_step orderly targets s (s\<lparr>dl_ig := run_quit (dl_ig s)\<rparr>)"
| drain_respond: "ig_phase (dl_ig s) = DrainResponding req r \<Longrightarrow>
    length (dl_responses s (rq_ch req)) < responses_cap \<Longrightarrow>
    deliver_step orderly targets s
      (s\<lparr>dl_ig := drain_responded (dl_ig s), dl_responses := push (rq_ch req) r (dl_responses s)\<rparr>)"
| drain_empty: "ig_phase (dl_ig s) = Draining \<Longrightarrow>
    deliver_step orderly targets s (s\<lparr>dl_ig := drain_done (dl_ig s)\<rparr>)"
| ingest_finish: "ig_phase (dl_ig s) = LoggingOut \<Longrightarrow>
    deliver_step orderly targets s (s\<lparr>dl_ig := run_finish (dl_ig s)\<rparr>)"

inductive_cases deliver_step_cases: "deliver_step orderly targets s t"

section \<open>The contents of the channels\<close>

lemma multi_tick_recv:
  assumes "i < length targets"
  shows "multi_tick ig (build_pump (length targets) targets) i (ValMessage msg) ok =
    Completes (case IngestMessage ig (targets ! i) msg i of
      Inl err \<Rightarrow> CallAck i (Uid msg) (Some err) | Inr req \<Rightarrow> SendRequest req)"
  using assms by (simp add: multi_tick_def split: sum.split)

lemma multi_tick_ingest:
  assumes "i < length targets"
  shows "multi_tick ig (build_pump (length targets) targets) (length targets + i) (ValResponse r) ok =
    Completes (CallAck i (resp_UID r) (resp_Error r))"
  using assms by (simp add: multi_tick_def Let_def)

lemma multi_tick_stop:
  "multi_tick ig (build_pump (length targets) targets) (2 * length targets) val ok = Completes ReturnNil"
  by (simp add: multi_tick_def)

text \<open>A request carries a message its receiver handed out, for the mailbox of its source.\<close>

definition request_ok :: "string list \<Rightarrow> delivery \<Rightarrow> request \<Rightarrow> bool" where
  "request_ok targets s req \<longleftrightarrow> rq_ch req < length targets
     \<and> rq_Message req \<in> set (dl_handed s (rq_ch req)) \<and> rq_UID req = Uid (rq_Message req)
     \<and> rq_Mailbox req = targets ! rq_ch req"

text \<open>A nil response for source \<open>i\<close> stands for an APPEND that succeeded.\<close>

definition response_ok :: "delivery \<Rightarrow> nat \<Rightarrow> u32 \<Rightarrow> go_error option \<Rightarrow> bool" where
  "response_ok s i uid err \<longleftrightarrow>
     (err = None \<longrightarrow> (\<exists>req\<in>set (dl_appended s). rq_ch req = i \<and> rq_UID req = uid))"

fun phase_ok :: "string list \<Rightarrow> delivery \<Rightarrow> pump_phase \<Rightarrow> bool" where
  "phase_ok targets s (Sending req) = request_ok targets s req"
| "phase_ok targets s (Acking i uid err) = (i < length targets \<and> response_ok s i uid err)"
| "phase_ok targets s _ = True"

fun ingest_ok :: "string list \<Rightarrow> delivery \<Rightarrow> ingest_phase \<Rightarrow> bool" where
  "ingest_ok targets s (Appending req) = request_ok targets s req"
| "ingest_ok targets s (Responding req r) =
     (request_ok targets s req \<and> response_ok s (rq_ch req) (resp_UID r) (resp_Error r))"
| "ingest_ok targets s (DrainResponding req r) = (request_ok targets s req \<and> resp_Error r \<noteq> None)"
| "ingest_ok targets s _ = True"

definition deliver_inv :: "string list \<Rightarrow> delivery \<Rightarrow> bool" where
  "deliver_inv targets s \<longleftrightarrow>
     (\<forall>i. set (dl_incoming s i) \<subseteq> set (dl_handed s i))
     \<and> (\<forall>req\<in>set (dl_appended s). request_ok targets s req)
     \<and> phase_ok targets s (dl_pump s) \<and> ingest_ok targets s (ig_phase (dl_ig s))
     \<and> (\<forall>i. \<forall>r\<in>set (dl_responses s i). response_ok s i (resp_UID r) (resp_Error r))
     \<and> (\<forall>i uid err. (uid, err) \<in> set (dl_acks s i) \<longrightarrow> response_ok s i uid err)"

text \<open>Handing out and appending more keeps what holds of requests and responses.\<close>

definition grows :: "delivery \<Rightarrow> delivery \<Rightarrow> bool" where
  "grows s t \<longleftrightarrow> (\<forall>i. set (dl_handed s i) \<subseteq> set (dl_handed t i))
     \<and> set (dl_appended s) \<subseteq> set (dl_appended t)"

lemma grows_ok:
  assumes "grows s t"
  shows "request_ok targets s req \<Longrightarrow> request_ok targets t req"
    and "response_ok s i uid err \<Longrightarrow> response_ok t i uid err"
    and "phase_ok targets s p \<Longrightarrow> phase_ok targets t p"
    and "ingest_ok targets s g \<Longrightarrow> ingest_ok targets t g"
proof -
  show req: "request_ok targets s req \<Longrightarrow> request_ok targets t req" for req
    using assms by (auto simp: grows_def request_ok_def)
  show resp: "response_ok s i uid err \<Longrightarrow> response_ok t i uid err" for i uid err
    using assms by (auto simp: grows_def response_ok_def)
  show "phase_ok targets s p \<Longrightarrow> phase_ok targets t p" using req resp by (cases p) auto
  show "ingest_ok targets s g \<Longrightarrow> ingest_ok targets t g" using req resp by (cases g) auto
qed

lemma push_simps [simp]:
  "push i x q j = (if j = i then q i @ [x] else q j)"
  by (simp add: push_def)

lemma deliver_init_inv: "deliver_init s \<Longrightarrow> deliver_inv targets s"
  by (auto simp: deliver_init_def deliver_inv_def ingest_NewClient_def)

lemma deliver_step_grows: "deliver_step orderly targets s t \<Longrightarrow> grows s t"
  by (cases rule: deliver_step.cases) (auto simp: grows_def)

lemma deliver_step_inv:
  assumes inv: "deliver_inv targets s" and step: "deliver_step orderly targets s t"
  shows "deliver_inv targets t"
proof -
  note grow = grows_ok [OF deliver_step_grows [OF step]]
  have old: "\<forall>req\<in>set (dl_appended s). request_ok targets t req"
    "phase_ok targets t (dl_pump s)" "ingest_ok targets t (ig_phase (dl_ig s))"
    "\<forall>i. \<forall>r\<in>set (dl_responses s i). response_ok t i (resp_UID r) (resp_Error r)"
    "\<forall>i uid err. (uid, err) \<in> set (dl_acks s i) \<longrightarrow> response_ok t i uid err"
    "\<forall>i. set (dl_incoming s i) \<subseteq> set (dl_handed s i)"
    using inv grow by (auto simp: deliver_inv_def)
  show ?thesis
    using step
  proof cases
    case (hand i msg)
    with old show ?thesis by (auto simp: deliver_inv_def)
  next
    case (take_message i msg ms act)
    have "msg \<in> set (dl_handed s i)" using old(6) take_message(4) by (metis list.set_intros(1) subsetD)
    then have "phase_ok targets t (phase_of act)"
      using take_message multi_tick_recv [OF take_message(3)]
      by (auto simp: IngestMessage_def request_ok_def response_ok_def split: if_splits)
    moreover have "set ms \<subseteq> set (dl_handed s i)"
      using old(6) take_message(4) by (metis set_subset_Cons subset_trans)
    ultimately show ?thesis using old take_message by (auto simp: deliver_inv_def)
  next
    case (take_response i r rs act)
    have "response_ok t i (resp_UID r) (resp_Error r)" using old(4) take_response(4) by simp
    then have "phase_ok targets t (phase_of act)"
      using take_response multi_tick_ingest [OF take_response(3)] by auto
    moreover have "\<forall>r\<in>set rs. response_ok t i (resp_UID r) (resp_Error r)"
      using old(4) take_response(4) by (metis list.set_intros(2))
    ultimately show ?thesis using old take_response by (auto simp: deliver_inv_def)
  next
    case (append req err)
    then have "ingest_ok targets t (Responding req (append_response req err))"
      using old(3) by (auto simp: response_ok_def append_response_def request_ok_def)
    with old append show ?thesis by (auto simp: deliver_inv_def step_defs)
  next
    case (drain_respond req r)
    then have "response_ok t (rq_ch req) (resp_UID r) (resp_Error r)"
      using old(3) by (auto simp: response_ok_def)
    with old drain_respond show ?thesis by (auto simp: deliver_inv_def step_defs)
  qed (use old in \<open>auto simp: deliver_inv_def step_defs multi_tick_stop\<close>)
qed

interpretation deliver: invariant_system deliver_init "deliver_step orderly targets" "deliver_inv targets"
  for orderly targets
  by unfold_locales (auto intro: deliver_init_inv deliver_step_inv)

abbreviation deliverable :: "bool \<Rightarrow> string list \<Rightarrow> delivery \<Rightarrow> bool" where
  "deliverable orderly targets \<equiv> reachable deliver_init (deliver_step orderly targets)"

section \<open>Conservation of messages\<close>

text \<open>How many messages of source \<open>i\<close> the loop and the ingest goroutine hold.\<close>

fun held_pump :: "nat \<Rightarrow> pump_phase \<Rightarrow> nat" where
  "held_pump i (Sending req) = (if rq_ch req = i then 1 else 0)"
| "held_pump i (Acking j uid err) = (if j = i then 1 else 0)"
| "held_pump i _ = 0"

fun held_ingest :: "nat \<Rightarrow> ingest_phase \<Rightarrow> nat" where
  "held_ingest i (Appending req) = (if rq_ch req = i then 1 else 0)"
| "held_ingest i (Responding req r) = (if rq_ch req = i then 1 else 0)"
| "held_ingest i (DrainResponding req r) = (if rq_ch req = i then 1 else 0)"
| "held_ingest i _ = 0"

definition conserved :: "delivery \<Rightarrow> bool" where
  "conserved s \<longleftrightarrow> (\<forall>i. length (dl_handed s i) =
     length (dl_incoming s i) + held_pump i (dl_pump s) + held_ingest i (ig_phase (dl_ig s))
       + length (dl_responses s i) + length (dl_acks s i))"

lemma conserved_step:
  assumes c: "conserved s" and step: "deliver_step orderly targets s t"
  shows "conserved t"
  using step
proof cases
  case (take_message i msg ms act)
  have "held_pump j (phase_of act) = (if j = i then 1 else 0)" for j
    using take_message multi_tick_recv [OF take_message(3)]
    by (auto simp: IngestMessage_def split: if_splits)
  with c take_message show ?thesis by (auto simp: conserved_def)
next
  case (take_response i r rs act)
  have "held_pump j (phase_of act) = (if j = i then 1 else 0)" for j
    using take_response multi_tick_ingest [OF take_response(3)] by auto
  with c take_response show ?thesis by (auto simp: conserved_def)
qed (use c in \<open>auto simp: conserved_def step_defs multi_tick_stop\<close>)

interpretation conserve: invariant_system deliver_init "deliver_step orderly targets" conserved
  for orderly targets
  by unfold_locales (auto intro: conserved_step,
    auto simp: deliver_init_def conserved_def ingest_NewClient_def)

section \<open>Closing in order\<close>

fun serving :: "ingest_phase \<Rightarrow> bool" where
  "serving Waiting = True"
| "serving (Appending req) = True"
| "serving (Responding req r) = True"
| "serving _ = False"

definition closed_late :: "delivery \<Rightarrow> bool" where
  "closed_late s \<longleftrightarrow> \<not> dl_crashed s \<and> (dl_pump s \<noteq> Returned \<longrightarrow>
     \<not> ig_incoming_closed (dl_ig s) \<and> \<not> ig_shutdown (dl_ig s) \<and> serving (ig_phase (dl_ig s)))"

lemma closed_late_step:
  "closed_late s \<Longrightarrow> deliver_step True targets s t \<Longrightarrow> closed_late t"
  by (cases rule: deliver_step.cases) (auto simp: closed_late_def step_defs)

interpretation orderly: invariant_system deliver_init "deliver_step True targets" closed_late
  for targets
  by unfold_locales (auto intro: closed_late_step,
    auto simp: deliver_init_def closed_late_def ingest_NewClient_def)

section \<open>Deadlock\<close>

text \<open>
  The loop waits for the ingest goroutine to take a request, and the ingest goroutine waits
  for room for a response, which only the loop makes.
\<close>

definition deadlocked :: "delivery \<Rightarrow> bool" where
  "deadlocked s \<longleftrightarrow> (\<exists>req req' r. dl_pump s = Sending req
     \<and> ig_phase (dl_ig s) = Responding req' r \<and> \<not> ig_incoming_closed (dl_ig s)
     \<and> length (dl_responses s (rq_ch req')) \<ge> responses_cap)"

lemma deadlocked_sending: "deadlocked s \<Longrightarrow> \<exists>req. dl_pump s = Sending req"
  by (auto simp: deadlocked_def)

lemma deadlocked_step:
  assumes "deadlocked s" and "deliver_step orderly targets s t"
  shows "deadlocked t \<and> dl_acks t = dl_acks s \<and> dl_appended t = dl_appended s"
  using assms(2) by cases (use assms(1) in \<open>auto simp: deadlocked_def\<close>)

lemma deadlocked_steps:
  assumes "(deliver_step orderly targets)\<^sup>*\<^sup>* s t" and "deadlocked s"
  shows "deadlocked t \<and> dl_acks t = dl_acks s \<and> dl_appended t = dl_appended s"
  using assms by (induction rule: rtranclp_induct) (auto dest: deadlocked_step)

section \<open>Runs\<close>

text \<open>
  Runs of the pump on messages of its first source, the building blocks of the concrete
  inputs below: \<open>at g rs s\<close> says that the loop is in its select, the ingest goroutine in
  phase \<open>g\<close>, and \<open>rs\<close> are the waiting responses of the first source.
\<close>

definition ex_mail :: imap_message where
  "ex_mail = \<lparr>SeqNum = 1, Uid = 7, Flags = [], InternalDate = 0,
     Body = [(''BODY[]'', Some ''hello'')]\<rparr>"

definition ex_request :: "string \<Rightarrow> request" where
  "ex_request mailbox = \<lparr>rq_Mailbox = mailbox, rq_UID = 7, rq_Message = ex_mail, rq_ch = 0\<rparr>"

definition ex_success :: Response where
  "ex_success = \<lparr>resp_UID = 7, resp_Error = None\<rparr>"

definition at :: "pump_phase \<Rightarrow> ingest_phase \<Rightarrow> Response list \<Rightarrow> delivery \<Rightarrow> bool" where
  "at p g rs s \<longleftrightarrow> dl_pump s = p \<and> ig_phase (dl_ig s) = g \<and> \<not> ig_shutdown (dl_ig s)
     \<and> \<not> ig_incoming_closed (dl_ig s) \<and> dl_incoming s 0 = [] \<and> dl_responses s 0 = rs
     \<and> \<not> dl_crashed s \<and> set (dl_handed s 0) \<subseteq> {ex_mail} \<and> (\<forall>i>0. dl_handed s i = [])"

lemma run_start: "\<exists>s. deliverable orderly targets s \<and> at Selecting Waiting [] s"
proof -
  have "\<exists>s. deliver_init s \<and> at Selecting Waiting [] s"
    by (auto simp: deliver_init_def ingest_NewClient_def at_def)
  then show ?thesis by (blast intro: reach_init)
qed

lemma run_message:
  assumes "deliverable orderly (mb # mbs) s" and "at Selecting g rs s"
  shows "\<exists>t. deliverable orderly (mb # mbs) t \<and> at (Sending (ex_request mb)) g rs t"
proof -
  let ?s1 = "s\<lparr>dl_incoming := push 0 ex_mail (dl_incoming s), dl_handed := push 0 ex_mail (dl_handed s)\<rparr>"
  have "deliver_step orderly (mb # mbs) s ?s1"
    by (rule deliver_step.hand) (use assms(2) in \<open>simp_all add: at_def\<close>)
  with assms(1) have r1: "deliverable orderly (mb # mbs) ?s1" by (rule reach_step)
  have "multi_tick (dl_ig ?s1) (build_pump (length (mb # mbs)) (mb # mbs)) 0 (ValMessage ex_mail) True =
      Completes (SendRequest (ex_request mb))"
    using assms(2) multi_tick_recv [of 0 "mb # mbs"]
    by (simp add: IngestMessage_def isShutdown_def at_def ex_request_def) (simp add: ex_mail_def)
  from deliver_step.take_message [OF _ _ _ this, of "[]" orderly] r1 assms(2)
  have "deliverable orderly (mb # mbs)
      (?s1\<lparr>dl_incoming := (dl_incoming ?s1)(0 := []), dl_pump := Sending (ex_request mb)\<rparr>)"
    by (intro reach_step [OF r1]) (simp add: at_def)
  moreover have "at (Sending (ex_request mb)) g rs
      (?s1\<lparr>dl_incoming := (dl_incoming ?s1)(0 := []), dl_pump := Sending (ex_request mb)\<rparr>)"
    using assms(2) by (simp add: at_def)
  ultimately show ?thesis by blast
qed

lemma run_appended:
  assumes "deliverable orderly targets s" and "at (Sending (ex_request mb)) Waiting rs s"
  shows "\<exists>t. deliverable orderly targets t
    \<and> at Selecting (Responding (ex_request mb) ex_success) rs t"
proof -
  let ?s1 = "s\<lparr>dl_pump := Selecting, dl_ig := run_take (ex_request mb) (dl_ig s)\<rparr>"
  have "deliver_step orderly targets s ?s1"
    by (rule deliver_step.send_taken) (use assms(2) in \<open>simp_all add: at_def\<close>)
  with assms(1) have r1: "deliverable orderly targets ?s1" by (rule reach_step)
  let ?s2 = "?s1\<lparr>dl_ig := run_append (ex_request mb) None (dl_ig ?s1),
      dl_appended := dl_appended ?s1 @ [ex_request mb]\<rparr>"
  have "deliver_step orderly targets ?s1 ?s2"
    using deliver_step.append [of ?s1 "ex_request mb" orderly targets None] by (simp add: step_defs)
  with r1 have "deliverable orderly targets ?s2" by (rule reach_step)
  moreover have "at Selecting (Responding (ex_request mb) ex_success) rs ?s2"
    using assms(2) by (simp add: at_def step_defs ex_request_def ex_success_def)
  ultimately show ?thesis by blast
qed

lemma run_respond:
  assumes "deliverable orderly targets s" and "at Selecting (Responding (ex_request mb) r) rs s"
    and "length rs < responses_cap"
  shows "\<exists>t. deliverable orderly targets t \<and> at Selecting Waiting (rs @ [r]) t"
proof -
  have ch: "rq_ch (ex_request mb) = 0" by (simp add: ex_request_def)
  let ?t = "s\<lparr>dl_ig := run_responded (dl_ig s), dl_responses := push 0 r (dl_responses s)\<rparr>"
  have "deliver_step orderly targets s ?t"
    using deliver_step.respond [of s "ex_request mb" r orderly targets] assms(2,3) ch
    by (simp add: at_def)
  with assms(1) have "deliverable orderly targets ?t" by (rule reach_step)
  moreover have "at Selecting Waiting (rs @ [r]) ?t"
    using assms(2) by (simp add: at_def step_defs)
  ultimately show ?thesis by blast
qed

lemma run_rounds:
  assumes "n \<le> responses_cap"
  shows "\<exists>s. deliverable orderly (mb # mbs) s \<and> at Selecting Waiting (replicate n ex_success) s"
  using assms
proof (induction n)
  case 0
  then show ?case using run_start by simp
next
  case (Suc n)
  then obtain s where s: "deliverable orderly (mb # mbs) s"
    "at Selecting Waiting (replicate n ex_success) s" by auto
  obtain s1 where s1: "deliverable orderly (mb # mbs) s1"
    "at (Sending (ex_request mb)) Waiting (replicate n ex_success) s1"
    using run_message [OF s] by blast
  obtain s2 where s2: "deliverable orderly (mb # mbs) s2"
    "at Selecting (Responding (ex_request mb) ex_success) (replicate n ex_success) s2"
    using run_appended [OF s1] by blast
  from run_respond [OF s2] Suc.prems show ?case by (simp add: replicate_append_same)
qed

lemma run_ack:
  assumes "deliverable orderly (mb # mbs) s" and "at Selecting Waiting [ex_success] s"
  shows "\<exists>t. deliverable orderly (mb # mbs) t \<and> (7, None) \<in> set (dl_acks t 0)
    \<and> set (dl_handed t 0) \<subseteq> {ex_mail} \<and> (\<forall>i>0. dl_handed t i = [])"
proof -
  let ?s1 = "s\<lparr>dl_responses := (dl_responses s)(0 := []), dl_pump := Acking 0 7 None\<rparr>"
  have "multi_tick (dl_ig s) (build_pump (length (mb # mbs)) (mb # mbs)) (length (mb # mbs) + 0)
      (ValResponse ex_success) True = Completes (CallAck 0 7 None)"
    using multi_tick_ingest [of 0 "mb # mbs"] by (simp add: ex_success_def)
  from deliver_step.take_response [OF _ _ _ this, of "[]" orderly] assms(2)
  have "deliver_step orderly (mb # mbs) s ?s1" by (simp add: at_def)
  with assms(1) have r1: "deliverable orderly (mb # mbs) ?s1" by (rule reach_step)
  let ?s2 = "?s1\<lparr>dl_pump := Selecting, dl_acks := push 0 (7, None) (dl_acks ?s1)\<rparr>"
  have "deliver_step orderly (mb # mbs) ?s1 ?s2"
    by (rule deliver_step.ack_taken) simp
  with r1 have "deliverable orderly (mb # mbs) ?s2" by (rule reach_step)
  then show ?thesis
    using assms(2) by (intro exI conjI) (assumption, simp_all add: at_def)
qed

section \<open>The single pump\<close>

text \<open>The case of the many-to-one pump's table, and its value, for an event of the single pump.\<close>

fun case_of :: "pump_event \<Rightarrow> nat \<times> select_value" where
  "case_of (GotMessage msg) = (0, ValMessage msg)"
| "case_of (GotResponse r) = (1, ValResponse r)"
| "case_of GotStop = (2, ValZero)"

section \<open>Properties\<close>

lemma acked_appended:
  assumes "deliverable orderly targets s" and "(uid, None) \<in> set (dl_acks s i)"
  shows "\<exists>req\<in>set (dl_appended s). rq_ch req = i \<and> i < length targets
    \<and> rq_Mailbox req = targets ! i \<and> rq_Message req \<in> set (dl_handed s i)
    \<and> Uid (rq_Message req) = uid"
proof -
  have inv: "deliver_inv targets s" by (rule deliver.reachable_inv [OF assms(1)])
  then have "response_ok s i uid None" using assms(2) by (auto simp: deliver_inv_def)
  then obtain req where "req \<in> set (dl_appended s)" "rq_ch req = i" "rq_UID req = uid"
    by (auto simp: response_ok_def)
  with inv show ?thesis by (auto simp: deliver_inv_def request_ok_def)
qed

text \<open>
  C2: a receiver gets an acknowledgement without error only for a message it handed out
  whose APPEND to the target mailbox of its own source succeeded: nothing is acknowledged,
  and so deleted, that was not delivered first. This holds for any number of sources, in
  every interleaving, also while the pump is being closed.
\<close>

theorem acked_means_appended:
  assumes "deliverable orderly targets s" and "(uid, None) \<in> set (dl_acks s i)"
  shows "\<exists>req\<in>set (dl_appended s). rq_ch req = i \<and> i < length targets
    \<and> rq_Mailbox req = targets ! i \<and> rq_Message req \<in> set (dl_handed s i)
    \<and> Uid (rq_Message req) = uid"
  using assms by (rule acked_appended)

theorem acked_means_appended_witness:
  "\<exists>s. deliverable True [''INBOX''] s \<and> (7, None) \<in> set (dl_acks s 0)
    \<and> (\<exists>req\<in>set (dl_appended s). rq_Mailbox req = ''INBOX'' \<and> Uid (rq_Message req) = 7)"
proof -
  obtain s where s: "deliverable True [''INBOX''] s" "at Selecting Waiting [ex_success] s"
    using run_rounds [of 1 True "''INBOX''" "[]"] by auto
  obtain t where t: "deliverable True [''INBOX''] t" "(7, None) \<in> set (dl_acks t 0)"
    using run_ack [OF s] by blast
  from acked_means_appended [OF t] t show ?thesis by (intro exI [of _ t]) auto
qed





text \<open>
  Closing the ingest client while a message is being ingested can crash the program:
  \<open>IngestMessage\<close> checks for the shutdown before it sends, and \<open>drain\<close> closes the channel
  it sends on in between.
\<close>

theorem ingest_close_races_with_send:
  "\<exists>s. deliverable False (mb # mbs) s \<and> dl_crashed s"
proof -
  obtain s0 where s0: "deliverable False (mb # mbs) s0" "at Selecting Waiting [] s0"
    using run_start by blast
  obtain s where s: "deliverable False (mb # mbs) s" "at (Sending (ex_request mb)) Waiting [] s"
    using run_message [OF s0] by blast
  let ?s1 = "s\<lparr>dl_ig := run_quit (dl_ig s)\<rparr>"
  have "deliver_step False (mb # mbs) s ?s1"
    by (rule deliver_step.ingest_quit) (use s(2) in \<open>simp_all add: at_def\<close>)
  with s(1) have r1: "deliverable False (mb # mbs) ?s1" by (rule reach_step)
  let ?s2 = "?s1\<lparr>dl_ig := drain_done (dl_ig ?s1)\<rparr>"
  have "deliver_step False (mb # mbs) ?s1 ?s2"
    by (rule deliver_step.drain_empty) (simp add: step_defs)
  with r1 have r2: "deliverable False (mb # mbs) ?s2" by (rule reach_step)
  have "deliver_step False (mb # mbs) ?s2 (?s2\<lparr>dl_crashed := True\<rparr>)"
    by (rule deliver_step.send_closed) (use s(2) in \<open>simp_all add: at_def step_defs\<close>)
  with r2 have "deliverable False (mb # mbs) (?s2\<lparr>dl_crashed := True\<rparr>)" by (rule reach_step)
  then show ?thesis by (intro exI conjI) (assumption, simp)
qed

text \<open>
  C34: the pump can deadlock without any error: when the select takes twelve messages in a
  row and ignores the responses that wait, the ingest goroutine blocks on the full response
  channel and the loop blocks on the ingest goroutine. From then on nothing is appended or
  acknowledged, and the loop never returns.
\<close>

theorem pump_can_deadlock:
  "\<exists>s. deliverable orderly (mb # mbs) s \<and>
    (\<forall>t. (deliver_step orderly (mb # mbs))\<^sup>*\<^sup>* s t \<longrightarrow>
       dl_acks t = dl_acks s \<and> dl_appended t = dl_appended s
       \<and> dl_pump t \<noteq> Returned \<and> dl_pump t \<noteq> Selecting)"
proof -
  let ?rs = "replicate 10 ex_success"
  obtain s0 where s0: "deliverable orderly (mb # mbs) s0" "at Selecting Waiting ?rs s0"
    using run_rounds [of 10 orderly mb mbs] by auto
  obtain s1 where s1: "deliverable orderly (mb # mbs) s1" "at (Sending (ex_request mb)) Waiting ?rs s1"
    using run_message [OF s0] by blast
  obtain s2 where s2: "deliverable orderly (mb # mbs) s2"
    "at Selecting (Responding (ex_request mb) ex_success) ?rs s2"
    using run_appended [OF s1] by blast
  obtain s where s: "deliverable orderly (mb # mbs) s"
    "at (Sending (ex_request mb)) (Responding (ex_request mb) ex_success) ?rs s"
    using run_message [OF s2] by blast
  have "deadlocked s"
    unfolding deadlocked_def
    by (intro exI [of _ "ex_request mb"] exI [of _ ex_success])
      (use s(2) in \<open>simp add: at_def, simp add: ex_request_def\<close>)
  then have "dl_acks t = dl_acks s \<and> dl_appended t = dl_appended s
      \<and> dl_pump t \<noteq> Returned \<and> dl_pump t \<noteq> Selecting"
    if "(deliver_step orderly (mb # mbs))\<^sup>*\<^sup>* s t" for t
    using deadlocked_steps [OF that] deadlocked_sending [of t] by auto
  with s(1) show ?thesis by blast
qed

theorem pump_can_deadlock_witness:
  "\<exists>s. deliverable True [''INBOX''] s \<and> dl_pump s \<noteq> Returned \<and> dl_pump s \<noteq> Selecting"
  using pump_can_deadlock [of True "''INBOX''" "[]"] by blast

text \<open>
  C37: the single pump is the many-to-one pump with one source: for every event its loop
  decides what the other loop does in the matching case of its table, so what is proved of
  the many-to-one pump and its channels holds of both. Its constructor starts the receiver,
  the ingest client and the loop, or fails with what failed and nothing left running.
\<close>

theorem single_pump_is_multi:
  "multi_tick ig (build_pump 1 [mb]) (fst (case_of ev)) (snd (case_of ev)) ok = Completes (pump_tick ig mb ev)
   \<and> (case NewMailPump src_dialled dst_dialled cfg of
        (Inr pump, effs) \<Rightarrow> src_dialled = None \<and> dst_dialled = None
          \<and> mp_destMailbox pump = cc_Mailbox (pc_Dest cfg)
          \<and> effs = [ReceiverStarted 0, IngestStarted, TickStarted]
      | (Inl err, effs) \<Rightarrow> (src_dialled = Some err \<and> effs = [])
          \<or> (dst_dialled = Some err \<and> effs = [ReceiverStarted 0, ReceiverClosed 0]))"
proof
  show "multi_tick ig (build_pump 1 [mb]) (fst (case_of ev)) (snd (case_of ev)) ok
      = Completes (pump_tick ig mb ev)"
    using multi_tick_recv [of 0 "[mb]" ig] multi_tick_ingest [of 0 "[mb]" ig] multi_tick_stop [of ig "[mb]"]
    by (cases ev) (simp_all add: pump_tick_def split: sum.split)
next
  show "case NewMailPump src_dialled dst_dialled cfg of
        (Inr pump, effs) \<Rightarrow> src_dialled = None \<and> dst_dialled = None
          \<and> mp_destMailbox pump = cc_Mailbox (pc_Dest cfg)
          \<and> effs = [ReceiverStarted 0, IngestStarted, TickStarted]
      | (Inl err, effs) \<Rightarrow> (src_dialled = Some err \<and> effs = [])
          \<or> (dst_dialled = Some err \<and> effs = [ReceiverStarted 0, ReceiverClosed 0])"
    by (auto simp: NewMailPump_def NewReceiver_def ingest_NewClient_def split: option.splits)
qed

end
