(* ===== verification/Composition.thy ===== *)
theory Composition
  imports ReceiverSafety Delivery
begin

text \<open>
  The specification the whole program is held against: receivers and pump side by side,
  joined only by what the pump acknowledged and what the receivers handed out. Its safety
  property, that a message is flagged as deleted only after it was delivered, holds for every
  program that refines it; the program with its channels does (\<open>Program\<close>).
\<close>

section \<open>Receivers and pump together\<close>

text \<open>
  The whole program: a receiver per source, and the pump. A receiver takes an
  acknowledgement only if the pump made it; the pump takes a message from source \<open>i\<close> only
  if receiver \<open>i\<close> handed it out.
\<close>

record mailpump =
  sys_recv :: "nat \<Rightarrow> recv_sys"
  sys_pump :: delivery

definition pump_acks :: "delivery \<Rightarrow> nat \<Rightarrow> u32 set" where
  "pump_acks d i = {uid. (uid, None) \<in> set (dl_acks d i)}"

definition mailpump_init :: "mailpump \<Rightarrow> bool" where
  "mailpump_init s \<longleftrightarrow> (\<forall>i. recv_init (sys_recv s i)) \<and> deliver_init (sys_pump s)"

inductive mailpump_step :: "string list \<Rightarrow> mailpump \<Rightarrow> mailpump \<Rightarrow> bool" for targets where
  receiver_moves: "recv_step (sys_recv s i) r \<Longrightarrow>
    acked r \<subseteq> acked (sys_recv s i) \<union> pump_acks (sys_pump s) i \<Longrightarrow>
    mailpump_step targets s (s\<lparr>sys_recv := (sys_recv s)(i := r)\<rparr>)"
| pump_moves: "deliver_step True targets (sys_pump s) d \<Longrightarrow>
    (\<And>i. set (dl_handed d i) \<subseteq> set (outSent (rcv (loop (sys_recv s i)))) \<union> set (dl_handed (sys_pump s) i)) \<Longrightarrow>
    mailpump_step targets s (s\<lparr>sys_pump := d\<rparr>)"

definition mailpump_inv :: "string list \<Rightarrow> mailpump \<Rightarrow> bool" where
  "mailpump_inv targets s \<longleftrightarrow> (\<forall>i. recv_inv (sys_recv s i)) \<and> deliver_inv targets (sys_pump s)
     \<and> (\<forall>i. acked (sys_recv s i) \<subseteq> pump_acks (sys_pump s) i)"

lemma pump_acks_grow:
  assumes "deliver_step orderly targets d e"
  shows "pump_acks d i \<subseteq> pump_acks e i"
  using assms by cases (auto simp: pump_acks_def)

lemma mailpump_step_inv:
  assumes inv: "mailpump_inv targets s" and "mailpump_step targets s t"
  shows "mailpump_inv targets t"
  using assms(2)
proof cases
  case (receiver_moves i r)
  with inv recv_step_inv [of "sys_recv s i" r] show ?thesis
    by (auto simp: mailpump_inv_def)
next
  case (pump_moves d)
  with inv deliver_step_inv [OF _ pump_moves(2)] pump_acks_grow [OF pump_moves(2)]
  show ?thesis by (auto simp: mailpump_inv_def) blast
qed

lemma recv_init_acked: "recv_init s \<Longrightarrow> acked s = {}"
  by (auto simp: recv_init_def recv_start_def)

lemma mailpump_init_inv: "mailpump_init s \<Longrightarrow> mailpump_inv targets s"
  by (auto simp: mailpump_init_def mailpump_inv_def recv_init_inv deliver_init_inv recv_init_acked)

interpretation mailpump: invariant_system mailpump_init "mailpump_step targets" "mailpump_inv targets"
  for targets
  by unfold_locales (auto intro: mailpump_init_inv mailpump_step_inv)

section \<open>Properties\<close>

text \<open>
  Mail is not lost: whatever the servers answer and however the parts interleave, a
  message is flagged as deleted on source \<open>i\<close> only if a message with its UID, handed out by
  receiver \<open>i\<close>, was appended to the target mailbox of source \<open>i\<close> on the destination.
\<close>

theorem deleted_only_after_delivery:
  assumes "reachable mailpump_init (mailpump_step targets) s"
    and "4 * ticks (sys_recv s i) < (2 :: nat) ^ 64" and "uid \<in> stored (sys_recv s i)"
  shows "\<exists>req\<in>set (dl_appended (sys_pump s)). rq_ch req = i \<and> rq_Mailbox req = targets ! i
    \<and> rq_Message req \<in> set (dl_handed (sys_pump s) i) \<and> Uid (rq_Message req) = uid"
proof -
  have inv: "mailpump_inv targets s" by (rule mailpump.reachable_inv [OF assms(1)])
  then have "recv_ok (sys_recv s i)" using assms(2) by (simp add: mailpump_inv_def recv_inv_def)
  with assms(3) have "uid \<in> acked (sys_recv s i)" by (auto simp: recv_ok_def)
  with inv have "(uid, None) \<in> set (dl_acks (sys_pump s) i)"
    by (auto simp: mailpump_inv_def pump_acks_def)
  with inv show ?thesis
    by (fastforce simp: mailpump_inv_def deliver_inv_def response_ok_def request_ok_def)
qed

section \<open>A run of the whole program\<close>

abbreviation moves :: "string list \<Rightarrow> mailpump \<Rightarrow> bool" where
  "moves targets \<equiv> reachable mailpump_init (mailpump_step targets)"

lemma acked_grows: "recv_step r r' \<Longrightarrow> acked r \<subseteq> acked r'"
  by (cases rule: recv_step.cases) (auto simp: turned_def)

lemma receiver_steps:
  assumes "recv_step\<^sup>*\<^sup>* (sys_recv s i) r" and "moves targets s"
    and "acked r \<subseteq> pump_acks (sys_pump s) i"
  shows "moves targets (s\<lparr>sys_recv := (sys_recv s)(i := r)\<rparr>)"
  using assms
proof (induction rule: rtranclp_induct)
  case base
  then show ?case by simp
next
  case (step y z)
  let ?s = "s\<lparr>sys_recv := (sys_recv s)(i := y)\<rparr>"
  have "mailpump_step targets ?s (?s\<lparr>sys_recv := (sys_recv ?s)(i := z)\<rparr>)"
    by (rule receiver_moves) (use step in auto)
  then have "mailpump_step targets ?s (s\<lparr>sys_recv := (sys_recv s)(i := z)\<rparr>)" by simp
  moreover have "moves targets ?s" using step acked_grows by blast
  ultimately show ?case by (blast intro: reach_step)
qed

lemma pump_steps:
  assumes "deliverable True targets d" and "moves targets s" and "deliver_init (sys_pump s)"
    and "\<forall>i. set (dl_handed d i) \<subseteq> set (outSent (rcv (loop (sys_recv s i))))"
  shows "moves targets (s\<lparr>sys_pump := d\<rparr>)"
  using assms
proof (induction rule: reachable.induct)
  case (reach_init d)
  then have "d = sys_pump s" by (auto simp: deliver_init_def)
  with reach_init show ?case by simp
next
  case (reach_step d e)
  have sub: "set (dl_handed d i) \<subseteq> set (outSent (rcv (loop (sys_recv s i))))" for i
    using deliver_step_grows [OF reach_step.hyps(2)] reach_step.prems(3) by (auto simp: grows_def)
  let ?s = "s\<lparr>sys_pump := d\<rparr>"
  have "mailpump_step targets ?s (?s\<lparr>sys_pump := e\<rparr>)"
    by (rule pump_moves) (use reach_step.hyps(2) reach_step.prems(3) in auto)
  with reach_step.IH [OF reach_step.prems(1,2)] sub
  show ?case using reachable.reach_step [of mailpump_init "mailpump_step targets" ?s] by simp
qed

lemma receiver_alone:
  assumes "recv_reachable r" and "acked r = {}" and "deliver_init d"
    and "\<And>i. recv_init (rs i)"
  shows "moves targets \<lparr>sys_recv = rs(i := r), sys_pump = d\<rparr>"
proof -
  obtain r0 where r0: "recv_init r0" "recv_step\<^sup>*\<^sup>* r0 r"
    using assms(1) by (induction rule: reachable.induct) (auto intro: rtranclp.rtrancl_into_rtrancl)
  have "moves targets \<lparr>sys_recv = rs(i := r0), sys_pump = d\<rparr>"
    by (rule reach_init) (use assms r0 in \<open>auto simp: mailpump_init_def\<close>)
  from receiver_steps [of _ i r, OF _ this] r0(2) assms(2) show ?thesis by simp
qed

lemma example_run:
  "\<exists>s. moves [''INBOX''] s \<and> sys_recv s 0 = ex_deleted"
proof -
  let ?r = "ex_sys (ex_fetching (Some StateUnacked)) [Finishing OperationFetchFinish] {} 2"
  obtain d0 where d0: "deliver_init d0" by (auto simp: deliver_init_def ingest_NewClient_def)
  have r0: "recv_init (recv_start (ex_known None))" by (auto simp: recv_init_def intro: ex_start)
  define s1 where "s1 = \<lparr>sys_recv = (\<lambda>_. recv_start (ex_known None))(0 := ?r), sys_pump = d0\<rparr>"
  have s1: "moves [''INBOX''] s1"
    unfolding s1_def by (rule receiver_alone [OF ex_handed_reachable _ d0 r0]) (simp add: ex_sys_def)
  obtain s where s: "deliverable True [''INBOX''] s" "at Selecting Waiting [ex_success] s"
    using run_rounds [of 1 True "''INBOX''" "[]"] by auto
  obtain d where d: "deliverable True [''INBOX''] d" "(7, None) \<in> set (dl_acks d 0)"
    "set (dl_handed d 0) \<subseteq> {ex_mail}" "\<forall>i>0. dl_handed d i = []"
    using run_ack [OF s] by blast
  have mail: "outSent (rcv (loop (sys_recv s1 0))) = [ex_mail]"
    by (simp add: s1_def ex_sys_def ex_states ex_mail_def ex_msg_def)
  have "\<forall>i. set (dl_handed d i) \<subseteq> set (outSent (rcv (loop (sys_recv s1 i))))"
  proof
    fix i
    show "set (dl_handed d i) \<subseteq> set (outSent (rcv (loop (sys_recv s1 i))))"
      using d(3,4) mail by (cases "i = 0") auto
  qed
  with pump_steps [OF d(1) s1] d0 have s2: "moves [''INBOX''] (s1\<lparr>sys_pump := d\<rparr>)"
    by (simp add: s1_def)
  have "moves [''INBOX''] (s1\<lparr>sys_pump := d, sys_recv := (sys_recv s1)(0 := ex_deleted)\<rparr>)"
    using receiver_steps [of "s1\<lparr>sys_pump := d\<rparr>" 0 ex_deleted, OF _ s2] ex_deleted_steps d(2)
    by (simp add: s1_def ex_deleted_def ex_sys_def pump_acks_def)
  then show ?thesis by (intro exI conjI) (assumption, simp)
qed

theorem deleted_only_after_delivery_witness:
  "\<exists>s. moves [''INBOX''] s \<and> stored (sys_recv s 0) = {7} \<and>
    (\<exists>req\<in>set (dl_appended (sys_pump s)). rq_Mailbox req = ''INBOX'' \<and> Uid (rq_Message req) = 7)"
proof -
  obtain s where s: "moves [''INBOX''] s" "sys_recv s 0 = ex_deleted" using example_run by blast
  have e: "stored ex_deleted = {7}" "4 * ticks ex_deleted < (2 :: nat) ^ 64"
    by (simp_all add: ex_deleted_def ex_sys_def)
  have "4 * ticks (sys_recv s 0) < (2 :: nat) ^ 64" "7 \<in> stored (sys_recv s 0)"
    by (simp_all only: s(2) e, simp)
  from deleted_only_after_delivery [OF s(1) this] s e(1) show ?thesis
    by (intro exI [of _ s]) auto
qed

end
