(* ===== verification/ReceiverQuit.thy ===== *)
theory ReceiverQuit
  imports ReceiverSafety
begin

text \<open>
  The receiver on its way out. The steps of the receiver's system are split by who makes
  them, the loop with the event it takes or a goroutine, so that other parts of the program
  can be joined to the loop's events. Then: from every state in which the loop was asked to
  quit it can reach its exit, whatever it was doing, without anything from outside.
\<close>

section \<open>Turns of the loop and moves of its goroutines\<close>

fun after_turn :: "loop_event \<Rightarrow> goroutine list \<Rightarrow> loop_next outcome \<Rightarrow> recv_sys \<Rightarrow> recv_sys" where
  "after_turn ev ws (Completes (Continue l sp)) s =
     (turned ev (ws @ spawned_work sp) s)\<lparr>loop := l\<rparr>"
| "after_turn ev ws (Completes (Done l)) s = (turned ev ws s)\<lparr>loop := l, status := Exited\<rparr>"
| "after_turn ev ws (Panics m) s = (turned ev ws s)\<lparr>status := Crashed m\<rparr>"
| "after_turn ev ws Blocks s = (turned ev ws s)\<lparr>status := Stuck\<rparr>"

inductive recv_turn :: "loop_event \<Rightarrow> recv_sys \<Rightarrow> recv_sys \<Rightarrow> bool" where
  recv_turnI: "status s = Running \<Longrightarrow> loop_takes s ev ws \<Longrightarrow>
    t = after_turn ev ws (tick order ev (loop s)) s \<Longrightarrow>
    (status t = Running \<longrightarrow> map_iteration (messages (rcv (loop t))) order) \<Longrightarrow> recv_turn ev s t"

inductive recv_work :: "recv_sys \<Rightarrow> recv_sys \<Rightarrow> bool" where
  goes_on: "work s = ws @ g # vs \<Longrightarrow> go_step (loop s) g g' st \<Longrightarrow>
    recv_work s (s\<lparr>work := ws @ g' # vs, stored := stored s \<union> st\<rparr>)"
| finishes: "work s = ws @ Finishing opn # vs \<Longrightarrow>
    chan_send opn (opChan (loop s)) = Completes ch \<Longrightarrow>
    recv_work s (s\<lparr>loop := (loop s)\<lparr>opChan := ch\<rparr>, work := ws @ vs\<rparr>)"

inductive_cases recv_turnE: "recv_turn ev s t"
inductive_cases recv_workE: "recv_work s t"

lemma turn_ticks:
  assumes "recv_turn ev r r'"
  shows "ticks r' = Suc (ticks r)"
  using assms
proof cases
  case (recv_turnI ws order)
  then show ?thesis
    by (cases "(ev, ws, tick order ev (loop r), r)" rule: after_turn.cases) (auto simp: turned_def)
qed

lemma recv_turn_step:
  assumes "recv_turn ev s t"
  shows "recv_step s t"
  using assms
proof cases
  case (recv_turnI ws order)
  show ?thesis
  proof (cases "tick order ev (loop s)")
    case (Completes n)
    show ?thesis
    proof (cases n)
      case (Continue l sp)
      then have "map_iteration (messages (rcv l)) order"
        using recv_turnI Completes by (simp add: turned_def)
      with turn_continue [OF recv_turnI(1,2), of order l sp] recv_turnI(3) Completes Continue
      show ?thesis by simp
    next
      case (Done l)
      with turn_exit [OF recv_turnI(1,2), of order l] recv_turnI(3) Completes show ?thesis by simp
    qed
  qed (use recv_turnI in \<open>auto intro: turn_panic turn_stuck\<close>)
qed

lemma recv_work_step: "recv_work s t \<Longrightarrow> recv_step s t"
  by (cases rule: recv_work.cases) (auto intro: work_goes_on work_finishes)

text \<open>Together they are the steps of the receiver.\<close>

lemma recv_step_iff: "recv_step s t \<longleftrightarrow> (\<exists>ev. recv_turn ev s t) \<or> recv_work s t"
proof
  assume "recv_step s t"
  then show "(\<exists>ev. recv_turn ev s t) \<or> recv_work s t"
  proof cases
    case (turn_continue ev ws order l sp)
    then show ?thesis
      by (auto intro!: exI [of _ ev] recv_turnI [where order = order and ws = ws] simp: turned_def)
  next
    case (turn_exit ev ws order l)
    then show ?thesis
      by (auto intro!: exI [of _ ev] recv_turnI [where order = order and ws = ws] simp: turned_def)
  next
    case (turn_panic ev ws order m)
    then show ?thesis
      by (auto intro!: exI [of _ ev] recv_turnI [where order = order and ws = ws] simp: turned_def)
  next
    case (turn_stuck ev ws order)
    then show ?thesis
      by (auto intro!: exI [of _ ev] recv_turnI [where order = order and ws = ws] simp: turned_def)
  qed (blast intro: goes_on finishes)+
qed (blast intro: recv_turn_step recv_work_step)

section \<open>What a turn hands out\<close>

definition sent_by :: "recv_sys \<Rightarrow> imap_message list" where
  "sent_by r = outSent (rcv (loop r))"

lemma handleFetch_loop_sent:
  assumes "distinct uids"
  shows "outSent (fst (handleFetch_loop fetched uids mr num)) =
    outSent mr @ map (\<lambda>uid. the (fetched uid)) (filter (\<lambda>uid. messages mr uid = None) uids)"
  using assms
proof (induction uids arbitrary: mr num)
  case (Cons uid uids)
  show ?case
  proof (cases "messages mr uid = None")
    case True
    define mr1 where "mr1 = mr\<lparr>messages := (messages mr)(uid \<mapsto> length (heap mr)),
        heap := heap mr @ [\<lparr>ms_UID = uid, ms_SeqNum = SeqNum (the (fetched uid)),
          ms_Message = the (fetched uid), ms_State = StateUnacked\<rparr>],
        outSent := outSent mr @ [the (fetched uid)]\<rparr>"
    have "filter (\<lambda>u. messages mr1 u = None) uids = filter (\<lambda>u. messages mr u = None) uids"
      using Cons.prems by (auto simp: mr1_def intro!: filter_cong)
    moreover have "handleFetch_loop fetched (uid # uids) mr num = handleFetch_loop fetched uids mr1 (num + 1)"
      using True by (simp add: mr1_def Let_def)
    ultimately show ?thesis using Cons True by (simp add: mr1_def)
  qed (use Cons in auto)
qed simp

primrec next_state :: "loop_next \<Rightarrow> run_state" where
  "next_state (Continue l sp) = l"
| "next_state (Done l) = l"

lemma run_reset_rcv [simp]: "rcv (run_reset f s) = rcv s"
  by (simp add: run_reset_def split: prod.splits)

lemma start_work_rcv: "rcv (next_state (start_work order s)) = rcv s"
  by (simp add: start_work_def start_fetch_or_idle_def Let_def)

lemma none_operation_rcv: "none_operation opn s = Completes t \<Longrightarrow> rcv t = rcv s"
  by (cases opn) (auto simp: none_operation_def obind_eq_Completes dest!: run_flag_frame)

lemma switch_none_rcv: "switch_none order opn s = Completes n \<Longrightarrow> rcv (next_state n) = rcv s"
  by (auto simp: switch_none_def obind_eq_Completes Let_def start_work_rcv
      split: if_splits dest!: none_operation_rcv run_flag_frame)

lemma switch_busy_rcv:
  "switch_idle opn s = Completes n \<Longrightarrow> rcv (next_state n) = rcv s \<and> (\<exists>l sp. n = Continue l sp)"
  "switch_fetch opn s = Completes n \<Longrightarrow> rcv (next_state n) = rcv s \<and> (\<exists>l sp. n = Continue l sp)"
  "switch_delete opn s = Completes n \<Longrightarrow> rcv (next_state n) = rcv s \<and> (\<exists>l sp. n = Continue l sp)"
  by (auto simp: switch_idle_def switch_fetch_def switch_delete_def finish_operation_def
      obind_eq_Completes split: if_splits operation.splits dest!: run_flag_frame)

lemma tick_rcv:
  assumes "tick order ev s = Completes n" and "select_event ev s = Completes (opn, u)"
  shows "rcv (next_state n) = rcv u" and "rs_state u \<noteq> StateNone \<Longrightarrow> \<exists>l sp. n = Continue l sp"
  using assms switch_none_rcv switch_busy_rcv
  by (auto simp: tick_def split: sstate.splits)

text \<open>The messages an event makes the loop hand out.\<close>

fun handed_by :: "loop_event \<Rightarrow> run_state \<Rightarrow> imap_message list" where
  "handed_by (EvFetchResult r order) s =
     (if flagged WantQuit s then []
      else map (\<lambda>uid. the (fr_Messages r uid)) (filter (\<lambda>uid. messages (rcv s) uid = None) order))"
| "handed_by _ s = []"

lemma select_sent:
  assumes "select_event ev s = Completes (opn, u)" and "\<forall>r order. ev = EvFetchResult r order \<longrightarrow> distinct order"
  shows "outSent (rcv u) = outSent (rcv s) @ handed_by ev s"
    and "\<forall>r order. ev = EvFetchResult r order \<longrightarrow> rs_state u = StateInFetch"
proof -
  show "outSent (rcv u) = outSent (rcv s) @ handed_by ev s"
  proof (cases ev)
    case (EvFetchResult r order)
    then show ?thesis
      using assms handleFetch_loop_sent [of order "fr_Messages r" "rcv s" 0]
      by (auto simp: handleFetch_def split: if_splits)
  next
    case (EvDeleteResult r)
    with assms show ?thesis
      using outSent_kept(1) [of r "rcv s"]
      by (auto simp: obind_eq_Completes split: if_splits prod.splits dest: schedule_frame)
  next
    case (EvAck r)
    with assms show ?thesis
      using outSent_kept(2) [of r "rcv s"]
      by (auto simp: obind_eq_Completes split: prod.splits dest: schedule_frame)
  qed (use assms in \<open>auto simp: obind_eq_Completes chan_recv_def split: if_splits list.splits
    dest: run_flag_frame(1)\<close>)
  show "\<forall>r order. ev = EvFetchResult r order \<longrightarrow> rs_state u = StateInFetch"
    using assms(1) by (auto split: if_splits)
qed

lemma takes_distinct: "loop_takes s ev ws \<Longrightarrow> \<forall>r order. ev = EvFetchResult r order \<longrightarrow> distinct order"
  by (auto simp: map_iteration_def elim!: loop_takes.cases)

lemma turn_sent:
  assumes "recv_turn ev r r'"
  shows "sent_by r' = sent_by r @ handed_by ev (loop r) \<or> sent_by r' = sent_by r \<and> status r' \<noteq> Running"
    and "status r' \<noteq> Running \<Longrightarrow> sent_by r' = sent_by r"
proof -
  obtain ws order where takes: "loop_takes r ev ws"
    and r': "r' = after_turn ev ws (tick order ev (loop r)) r"
    using assms by cases blast
  note d = takes_distinct [OF takes]
  have "(sent_by r' = sent_by r @ handed_by ev (loop r) \<or> sent_by r' = sent_by r \<and> status r' \<noteq> Running)
    \<and> (status r' \<noteq> Running \<longrightarrow> sent_by r' = sent_by r)"
  proof (cases "tick order ev (loop r)")
    case (Completes n)
    then obtain opn u where sel: "select_event ev (loop r) = Completes (opn, u)"
      by (auto simp: tick_def obind_eq_Completes)
    note t = tick_rcv [OF Completes sel]
    note s = select_sent [OF sel d]
    show ?thesis
    proof (cases n)
      case (Continue l sp)
      then show ?thesis using t(1) s(1) r' Completes assms
        by (auto simp: sent_by_def turned_def elim: recv_turnE)
    next
      case (Done l)
      with t(2) s(2) have "\<forall>x y. ev \<noteq> EvFetchResult x y" by auto
      then have "handed_by ev (loop r) = []" by (cases ev) auto
      with Done t(1) s(1) r' Completes show ?thesis by (auto simp: sent_by_def turned_def)
    qed
  qed (use r' in \<open>auto simp: sent_by_def turned_def\<close>)
  then show "sent_by r' = sent_by r @ handed_by ev (loop r) \<or> sent_by r' = sent_by r \<and> status r' \<noteq> Running"
    and "status r' \<noteq> Running \<Longrightarrow> sent_by r' = sent_by r" by auto
qed

section \<open>Turns that hand out nothing\<close>

text \<open>Events that need nothing but the receiver itself and the passing of time.\<close>

fun quiet :: "loop_event \<Rightarrow> bool" where
  "quiet EvTimeout = True"
| "quiet EvOp = True"
| "quiet (EvFetchResult r order) = True"
| "quiet (EvDeleteResult r) = True"
| "quiet _ = False"

text \<open>A goroutine that goes on with nothing from the server: its calls return, but no more.\<close>

definition silent_server :: server_answers where
  "silent_server = \<lparr>sv_Mailbox = None, sv_Fetch = \<lambda>_ _. ([], None),
     sv_UidStore = \<lambda>_ _ _. ([], None), sv_Expunge = None\<rparr>"

inductive quiet_go :: "run_state \<Rightarrow> goroutine \<Rightarrow> goroutine \<Rightarrow> u32 set \<Rightarrow> bool" where
  quiet_idle: "quiet_go l (IdleRunning stop) (Finishing OperationIDLEFinish) {}"
| quiet_fetch: "quiet_go l (FetchRunning existing) (Finishing OperationFetchFinish) {}"
| quiet_delete: "map_iteration m order \<Longrightarrow>
    doDelete silent_server (deref (rcv l) m) order = ([], calls) \<Longrightarrow>
    quiet_go l (DeleteRunning m) (DeleteSending []) (store_uids calls)"
| quiet_deleted: "quiet_go l (DeleteSending []) (Finishing OperationDeleteFinish) {}"

inductive quiet_work :: "recv_sys \<Rightarrow> recv_sys \<Rightarrow> bool" where
  quiet_goes_on: "work s = ws @ g # vs \<Longrightarrow> quiet_go (loop s) g g' st \<Longrightarrow>
    quiet_work s (s\<lparr>work := ws @ g' # vs, stored := stored s \<union> st\<rparr>)"
| quiet_finishes: "work s = ws @ Finishing opn # vs \<Longrightarrow>
    chan_send opn (opChan (loop s)) = Completes ch \<Longrightarrow>
    quiet_work s (s\<lparr>loop := (loop s)\<lparr>opChan := ch\<rparr>, work := ws @ vs\<rparr>)"

lemma quiet_go_step: "quiet_go l g g' st \<Longrightarrow> go_step l g g' st"
proof (induction rule: quiet_go.induct)
  case (quiet_fetch l existing)
  have "doFetch silent_server existing (fetchBufferSize (rcv l)) [] = (False, [])"
    by (simp add: doFetch_def silent_server_def)
  then show ?case by (rule fetch_nothing)
qed (auto intro: go_step.intros)

lemma quiet_work_recv: "quiet_work s t \<Longrightarrow> recv_work s t"
  by (induction rule: quiet_work.induct) (auto intro: recv_work.intros quiet_go_step)

definition quiet_step :: "recv_sys \<Rightarrow> recv_sys \<Rightarrow> bool" where
  "quiet_step s t \<longleftrightarrow>
     (\<exists>ev. quiet ev \<and> recv_turn ev s t \<and> sent_by t = sent_by s) \<or> quiet_work s t"

lemma quiet_turn_step:
  assumes "quiet ev" and "recv_turn ev s t" and "flagged WantQuit (loop s)"
  shows "quiet_step s t"
proof -
  have "handed_by ev (loop s) = []" using assms(3) by (cases ev) auto
  with turn_sent(1) [OF assms(2)] assms(1,2) show ?thesis by (auto simp: quiet_step_def)
qed

lemma quiet_work_step: "quiet_work s t \<Longrightarrow> quiet_step s t"
  by (auto simp: quiet_step_def)

lemma quiet_recv_step: "quiet_step s t \<Longrightarrow> recv_step s t"
  by (auto simp: quiet_step_def recv_step_iff intro: quiet_work_recv)

section \<open>A receiver that was asked to quit\<close>

text \<open>With \<open>k\<close> more iterations the flag counters are still far from wrapping.\<close>

definition quitting :: "nat \<Rightarrow> recv_sys \<Rightarrow> bool" where
  "quitting k s \<longleftrightarrow> recv_ok s \<and> status s = Running \<and> flagged WantQuit (loop s)
     \<and> 4 * (ticks s + k) < (2 :: nat) ^ 64"

lemma quitting_flagged: "quitting k s \<Longrightarrow> flagged WantQuit (loop s)"
  by (simp add: quitting_def)

lemma quitting_running: "quitting k s \<Longrightarrow> running_ok s"
  by (auto simp: quitting_def recv_ok_def)

text \<open>What the loop makes of a quiet event, in \<open>StateNone\<close> and in its other states.\<close>

definition done_or_deleting :: "recv_sys \<Rightarrow> loop_event \<Rightarrow> goroutine list \<Rightarrow> recv_sys \<Rightarrow> bool" where
  "done_or_deleting s ev ws t \<longleftrightarrow>
     status t = Exited \<or>
     (status t = Running \<and> rs_state (loop t) = StateInDelete \<and> nextToProcess (loop t) = Map.empty
       \<and> nextToProcess (loop s) \<noteq> Map.empty \<and> (\<exists>m. work t = ws @ [DeleteRunning m])
       \<and> opChan (loop t) = ev_chan ev (loop s))"

definition carried :: "recv_sys \<Rightarrow> loop_event \<Rightarrow> goroutine list \<Rightarrow> recv_sys \<Rightarrow> bool" where
  "carried s ev ws t \<longleftrightarrow> status t = Running \<and> work t = ws
     \<and> ((\<forall>r. ev \<noteq> EvDeleteResult r) \<longrightarrow> nextToProcess (loop t) = nextToProcess (loop s))
     \<and> (if ev_operation ev (loop s) = finish_of (rs_state (loop s))
        then rs_state (loop t) = StateNone
          \<and> opChan (loop t) = (ev_chan ev (loop s))\<lparr>cbuf := cbuf (ev_chan ev (loop s)) @ [OperationNone]\<rparr>
        else rs_state (loop t) = rs_state (loop s) \<and> opChan (loop t) = ev_chan ev (loop s))"

lemma select_todo:
  assumes "select_event ev l = Completes (opn, u)" and "quiet ev" and "\<forall>r. ev \<noteq> EvDeleteResult r"
  shows "nextToProcess u = nextToProcess l"
  using assms by (cases ev) (auto simp: chan_recv_def split: if_splits list.splits)

text \<open>Every event the loop can take leads to a turn.\<close>

lemma turn_exists:
  assumes ok: "running_ok s" and st: "status s = Running" and takes: "loop_takes s ev ws"
    and bound: "4 * Suc (ticks s) < (2 :: nat) ^ 64"
  obtains u n where "select_event ev (loop s) = Completes (ev_operation ev (loop s), u)"
    and "selected (acked s) ev (loop s) (ev_operation ev (loop s), u)"
    and "recv_turn ev s (after_turn ev ws (Completes n) s)"
    and "rs_state (loop s) = StateNone \<Longrightarrow> started (acked s \<union> ev_acks ev) u n"
    and "rs_state (loop s) \<noteq> StateNone \<Longrightarrow>
      carried_on (acked s \<union> ev_acks ev) (ev_operation ev (loop s)) u n"
proof -
  obtain u where sel: "select_event ev (loop s) = Completes (ev_operation ev (loop s), u)"
    using turn_result [OF ok takes bound] by metis
  have u: "selected (acked s) ev (loop s) (ev_operation ev (loop s), u)"
    using turn_result [OF ok takes bound] sel by (metis outcome.inject prod.inject)
  then have "finite (dom (messages (rcv u)))" by (simp add: selected_def data_ok_def known_ok_def)
  then obtain order where order: "map_iteration (messages (rcv u)) order"
    using finite_distinct_list by (metis map_iteration_def)
  obtain n where n: "tick order ev (loop s) = Completes n"
    and none: "rs_state (loop s) = StateNone \<Longrightarrow> started (acked s \<union> ev_acks ev) u n"
    and busy: "rs_state (loop s) \<noteq> StateNone \<Longrightarrow>
      carried_on (acked s \<union> ev_acks ev) (ev_operation ev (loop s)) u n"
    using turn_result [OF ok takes bound, of order] sel by (metis outcome.inject prod.inject)
  have "recv_turn ev s (after_turn ev ws (Completes n) s)"
  proof (rule recv_turnI)
    show "status (after_turn ev ws (Completes n) s) = Running \<longrightarrow>
        map_iteration (messages (rcv (loop (after_turn ev ws (Completes n) s)))) order"
    proof (cases "rs_state (loop s) = StateNone")
      case True
      with none order show ?thesis by (cases n) (auto simp: started_def turned_def)
    next
      case False
      with busy order show ?thesis by (auto simp: carried_on_def turned_def)
    qed
  qed (simp_all add: takes n st)
  with sel u none busy that show thesis by blast
qed

lemma quiet_turn:
  assumes q: "quitting (Suc k) s" and takes: "loop_takes s ev ws" and "quiet ev"
  obtains t where "recv_turn ev s t" and "status t = Exited \<or> quitting k t"
    and "ticks t = Suc (ticks s)"
    and "rs_state (loop s) = StateNone \<Longrightarrow> done_or_deleting s ev ws t"
    and "rs_state (loop s) \<noteq> StateNone \<Longrightarrow> carried s ev ws t"
proof -
  let ?A = "acked s \<union> ev_acks ev"
  have ok: "running_ok s" by (rule quitting_running [OF q])
  have bound: "status s = Running" "4 * Suc (ticks s) < (2 :: nat) ^ 64"
    using q by (simp_all add: quitting_def)
  obtain u n where sel: "select_event ev (loop s) = Completes (ev_operation ev (loop s), u)"
    and "selected (acked s) ev (loop s) (ev_operation ev (loop s), u)"
    and turn': "recv_turn ev s (after_turn ev ws (Completes n) s)"
    and none: "rs_state (loop s) = StateNone \<Longrightarrow> started ?A u n"
    and busy: "rs_state (loop s) \<noteq> StateNone \<Longrightarrow> carried_on ?A (ev_operation ev (loop s)) u n"
    using turn_exists [OF ok bound(1) takes bound(2)] by metis
  then have u: "data_ok ?A u" "flagged WantQuit u" "opChan u = ev_chan ev (loop s)"
    "rs_state u = rs_state (loop s)"
    using q by (auto simp: selected_def quitting_def)
  define t where "t = after_turn ev ws (Completes n) s"
  have turn: "recv_turn ev s t" using turn' by (simp add: t_def)
  have todo: "(\<forall>r. ev \<noteq> EvDeleteResult r) \<longrightarrow> nextToProcess u = nextToProcess (loop s)"
    using select_todo [OF sel \<open>quiet ev\<close>] by blast
  have ticks: "ticks t = Suc (ticks s)" by (cases n) (simp_all add: t_def turned_def)
  have fate: "status t = Exited \<or> status t = Running \<and> flagged WantQuit (loop t)"
    using none busy u(2)
    by (cases "rs_state (loop s) = StateNone"; cases n)
      (auto simp: t_def turned_def started_def carried_on_def quitting_def q [unfolded quitting_def])
  have "recv_inv t"
    using q recv_step_inv [OF _ recv_turn_step [OF turn]] by (simp add: quitting_def recv_inv_def)
  then have "recv_ok t" using q ticks by (simp add: recv_inv_def quitting_def)
  with fate q ticks have left: "status t = Exited \<or> quitting k t"
    by (auto simp: quitting_def)
  have "done_or_deleting s ev ws t" if "rs_state (loop s) = StateNone"
  proof (cases n)
    case (Done l)
    then show ?thesis by (simp add: done_or_deleting_def t_def)
  next
    case (Continue l sp)
    with none [OF that] u(2) obtain m where m: "sp = Some (SpawnDelete m)" "rs_state l = StateInDelete"
      "m = nextToProcess u" "m \<noteq> Map.empty" "nextToProcess l = Map.empty" "opChan l = opChan u"
      by (auto simp: started_def split: option.splits spawn.splits)
    have "\<forall>r. ev \<noteq> EvDeleteResult r" using takes_fit(1) [OF ok takes] that by auto
    with todo m Continue u(3) q show ?thesis
      by (auto simp: done_or_deleting_def t_def turned_def spawned_work_def quitting_def)
  qed
  moreover have "carried s ev ws t" if "rs_state (loop s) \<noteq> StateNone"
    using busy [OF that] todo u(3,4) q
    by (auto simp: carried_def carried_on_def t_def turned_def spawned_work_def quitting_def)
  ultimately show thesis using that [OF turn left ticks] by blast
qed

section \<open>The way to the exit\<close>

lemma quitting_mono: "quitting k s \<Longrightarrow> j \<le> k \<Longrightarrow> quitting j s"
  by (auto simp: quitting_def)

lemma quitting_work:
  assumes "quitting k s" and work: "recv_work s t"
  shows "quitting k t" and "rs_state (loop t) = rs_state (loop s)"
    and "nextToProcess (loop t) = nextToProcess (loop s)"
proof -
  have "status t = status s \<and> ticks t = ticks s \<and> flagged WantQuit (loop t) = flagged WantQuit (loop s)
    \<and> rs_state (loop t) = rs_state (loop s) \<and> nextToProcess (loop t) = nextToProcess (loop s)"
    using work by cases (auto simp: flagged_def)
  moreover have "recv_inv t"
    using recv_step_inv [OF _ recv_work_step [OF work]] assms(1) by (simp add: quitting_def recv_inv_def)
  ultimately show "quitting k t" and "rs_state (loop t) = rs_state (loop s)"
    and "nextToProcess (loop t) = nextToProcess (loop s)"
    using assms(1) by (auto simp: quitting_def recv_inv_def)
qed

text \<open>A fetch result holds finitely many messages, so the loop can visit them.\<close>

definition results_finite :: "recv_sys \<Rightarrow> bool" where
  "results_finite s \<longleftrightarrow> (\<forall>r. FetchSending r \<in> set (work s) \<longrightarrow> finite (dom (fr_Messages r)))"

lemma readMessages_finite: "finite (dom (snd (readMessages ch order)))"
proof -
  have "finite (dom m) \<Longrightarrow> finite (dom (foldl (\<lambda>m msg. m(Uid msg \<mapsto> msg)) m ch))" for m
    by (induction ch arbitrary: m) auto
  then show ?thesis by (simp add: readMessages_def Let_def)
qed

lemma doFetch_finite:
  assumes "doFetch sv existing n order = (b, [r])"
  shows "finite (dom (fr_Messages r))"
proof -
  obtain seqset ch where "fr_Messages r = snd (readMessages ch order)"
    using assms by (auto simp: doFetch_def Let_def split: option.splits if_splits prod.splits)
      (metis snd_conv)
  then show ?thesis by (simp add: readMessages_finite)
qed

lemma results_finite_step:
  assumes "results_finite s" and "recv_step s t"
  shows "results_finite t"
proof -
  have takes: "set ws \<inter> range FetchSending \<subseteq> set (work s)" if "loop_takes s ev ws" for ev ws
    using that by cases auto
  have spawn: "set (spawned_work sp) \<inter> range FetchSending = {}" for sp
    by (cases sp; cases "the sp") (auto simp: spawned_work_def)
  show ?thesis
    using assms(2)
  proof cases
    case (work_goes_on ws g vs g' st)
    from work_goes_on(3) have "finite (dom (fr_Messages r))" if "g' = FetchSending r" for r
      using that by cases (auto intro: doFetch_finite)
    with work_goes_on assms(1) show ?thesis by (auto simp: results_finite_def)
  next
    case (turn_continue ev ws order l sp)
    with assms(1) takes [OF turn_continue(3)] spawn [of sp] show ?thesis
      by (auto simp: results_finite_def turned_def)
  qed (use assms(1) takes in \<open>auto simp: results_finite_def turned_def\<close>)
qed

interpretation recv_results: invariant_system recv_init recv_step results_finite
  by unfold_locales (auto simp: recv_init_def recv_start_def results_finite_def
      intro: results_finite_step)

text \<open>The results a goroutine still has to hand to the loop.\<close>

fun results_of :: "goroutine \<Rightarrow> nat" where
  "results_of (FetchSending r) = 1"
| "results_of (DeleteSending rs) = length rs"
| "results_of _ = 0"

definition results_left :: "recv_sys \<Rightarrow> nat" where
  "results_left s = sum_list (map results_of (work s))"

text \<open>Where the receiver is on its way: at \<open>StateNone\<close>, or busy with a goroutine.\<close>

definition at_none :: "nat \<Rightarrow> recv_sys \<Rightarrow> bool" where
  "at_none k s \<longleftrightarrow> quitting k s \<and> rs_state (loop s) = StateNone"

definition busy_with :: "nat \<Rightarrow> goroutine \<Rightarrow> recv_sys \<Rightarrow> bool" where
  "busy_with k g s \<longleftrightarrow> quitting k s \<and> rs_state (loop s) \<noteq> StateNone \<and> work s = [g]
     \<and> cbuf (opChan (loop s)) = [] \<and> results_finite s"

abbreviation quietly :: "recv_sys \<Rightarrow> recv_sys \<Rightarrow> bool" where
  "quietly \<equiv> quiet_step\<^sup>*\<^sup>*"

lemma busy_ok: "busy_with k g s \<Longrightarrow> running_ok s"
  by (auto simp: busy_with_def intro: quitting_running)

lemma busy_belongs:
  "busy_with k g s \<Longrightarrow> belongs (rs_state (loop s)) g \<and> work_ok (acked s) (loop s) g"
  using busy_ok [of k g s] by (auto simp: busy_with_def running_ok_def phase_ok_def)

lemma chan_of: "running_ok s \<Longrightarrow> ccap (opChan (loop s)) = 1 \<and> \<not> cclosed (opChan (loop s))"
  by (simp add: running_ok_def phase_ok_def)

lemma busy_goes_on:
  assumes "busy_with k g s" and "quiet_go (loop s) g g' st"
  obtains t where "quiet_step s t" and "busy_with k g' t" and "nextToProcess (loop t) = nextToProcess (loop s)"
proof -
  let ?t = "s\<lparr>work := [] @ g' # [], stored := stored s \<union> st\<rparr>"
  have quiet: "quiet_work s ?t"
    by (rule quiet_goes_on [where g = g]) (use assms in \<open>auto simp: busy_with_def\<close>)
  have work: "recv_work s ?t" by (rule quiet_work_recv [OF quiet])
  from quitting_work [OF _ work, of k] assms(1) results_finite_step [OF _ recv_work_step [OF work]]
  have "busy_with k g' ?t" "nextToProcess (loop ?t) = nextToProcess (loop s)"
    by (auto simp: busy_with_def)
  with that [of ?t] quiet_work_step [OF quiet] show thesis by simp
qed

lemma busy_finishes:
  assumes busy: "busy_with (Suc k) (Finishing (finish_of (rs_state (loop s)))) s"
  obtains t where "quietly s t" and "at_none k t" and "nextToProcess (loop t) = nextToProcess (loop s)"
proof -
  let ?fin = "finish_of (rs_state (loop s))"
  let ?ch = "(opChan (loop s))\<lparr>cbuf := [?fin]\<rparr>"
  let ?t = "s\<lparr>loop := (loop s)\<lparr>opChan := ?ch\<rparr>, work := [] @ []\<rparr>"
  have "chan_send ?fin (opChan (loop s)) = Completes ?ch"
    using busy chan_of [OF busy_ok [OF busy]] by (simp add: chan_send_def busy_with_def)
  then have quiet: "quiet_work s ?t"
    by (intro quiet_finishes [where opn = ?fin]) (use busy in \<open>simp_all add: busy_with_def\<close>)
  have work: "recv_work s ?t" by (rule quiet_work_recv [OF quiet])
  from quitting_work [OF _ work, of "Suc k"] busy
  have t: "quitting (Suc k) ?t" by (simp add: busy_with_def)
  have "loop_takes ?t EvOp []" using loop_takes.intros(4) [of ?t] by simp
  from quiet_turn [OF t this] obtain t' where t': "recv_turn EvOp ?t t'" "status t' = Exited \<or> quitting k t'"
    "rs_state (loop ?t) \<noteq> StateNone \<Longrightarrow> carried ?t EvOp [] t'" by (metis quiet.simps(2))
  have "carried ?t EvOp [] t'" using t'(3) busy by (simp add: busy_with_def)
  with t'(2) have "at_none k t'" "nextToProcess (loop t') = nextToProcess (loop s)"
    by (auto simp: carried_def at_none_def)
  moreover have "quietly s t'"
    using quiet_work_step [OF quiet] quiet_turn_step [OF _ t'(1) quitting_flagged [OF t]]
    by (meson converse_rtranclp_into_rtranclp quiet.simps(2) r_into_rtranclp)
  ultimately show thesis using that by blast
qed

text \<open>The loop takes a result of its goroutine.\<close>

lemma busy_result:
  assumes busy: "busy_with (Suc k) g s" and takes: "loop_takes s ev [g']" and "quiet ev"
    and "ev_operation ev (loop s) = OperationNone" and "cbuf (ev_chan ev (loop s)) = []"
  obtains t where "quiet_step s t" and "busy_with k g' t" and "rs_state (loop t) = rs_state (loop s)"
proof -
  have q: "quitting (Suc k) s" and st: "rs_state (loop s) \<noteq> StateNone" and fin: "results_finite s"
    using busy by (simp_all add: busy_with_def)
  obtain t where t: "recv_turn ev s t" "status t = Exited \<or> quitting k t"
    "rs_state (loop s) \<noteq> StateNone \<Longrightarrow> carried s ev [g'] t"
    using quiet_turn [OF q takes \<open>quiet ev\<close>] by metis
  have "OperationNone \<noteq> finish_of (rs_state (loop s))" using st by (cases "rs_state (loop s)") auto
  with t(2) t(3) [OF st] assms(4,5) st have "busy_with k g' t" "rs_state (loop t) = rs_state (loop s)"
    using results_finite_step [OF fin recv_turn_step [OF t(1)]]
    by (auto simp: busy_with_def carried_def)
  with that [of t] quiet_turn_step [OF \<open>quiet ev\<close> t(1) quitting_flagged [OF q]] show thesis by blast
qed

lemma busy_delete_results:
  assumes "busy_with (length rs + k) (DeleteSending rs) s"
  shows "\<exists>t. quietly s t \<and> busy_with k (DeleteSending []) t \<and> rs_state (loop t) = rs_state (loop s)"
  using assms
proof (induction rs arbitrary: s)
  case (Cons r rs)
  then have takes: "loop_takes s (EvDeleteResult r) [DeleteSending rs]"
    using loop_takes.intros(7) [of s "[]" r rs "[]"] by (simp add: busy_with_def)
  obtain t where t: "quiet_step s t" "busy_with (length rs + k) (DeleteSending rs) t"
    "rs_state (loop t) = rs_state (loop s)"
    using busy_result [OF _ takes, of "length rs + k" "DeleteSending (r # rs)"] Cons.prems
    by (auto simp: busy_with_def)
  from Cons.IH [OF t(2)] t show ?case by (metis converse_rtranclp_into_rtranclp)
qed auto

text \<open>A goroutine comes to its end; a delete in progress leaves nothing to retry.\<close>

lemma silent_delete:
  assumes "work_ok A l (DeleteRunning m)" and "0 \<notin> A"
  shows "\<exists>st. quiet_go l (DeleteRunning m) (DeleteSending []) st"
proof -
  have m: "ptrs_ok A (rcv l) m" using assms(1) by simp
  then have "finite (dom m)" by (simp add: ptrs_ok_def)
  then obtain order where order: "map_iteration m order"
    using finite_distinct_list by (metis map_iteration_def)
  note it = map_iterationD [OF order]
  have acked: "acked_uids (deref (rcv l) m) order = order" by (rule acked_deref [OF m it(2)])
  have known: "ms_State (the (deref (rcv l) m u)) = StateAcked" if "u \<in> set order" for u
    using m it(2) that by (auto simp: ptrs_ok_def deref_def)
  obtain rs calls where d: "doDelete silent_server (deref (rcv l) m) order = (rs, calls)" by fastforce
  have "fst (cl_UidStore silent_server seqset item val) = []" for seqset item val
    by (simp add: cl_UidStore_def silent_server_def goimap_command_def)
  then have "set rs \<subseteq> {\<lparr>dr_UID = ms_UID (the (deref (rcv l) m u)), dr_State = StateDeleted\<rparr> | u.
      u \<in> set order \<and> ms_State (the (deref (rcv l) m u)) = StateDeleted}"
    using d by (auto simp: doDelete_def collect_deletions_eq Let_def split: if_splits)
  with known have "rs = []" by (auto simp: subset_iff) (metis list.set_intros(1) neq_Nil_conv state.distinct(5))
  with quiet_delete [OF order] d show ?thesis by blast
qed

lemma busy_to_finishing:
  assumes busy: "busy_with (results_of g + Suc k) g s" and "0 \<notin> acked s"
  shows "\<exists>t. quietly s t \<and> busy_with (Suc k) (Finishing (finish_of (rs_state (loop t)))) t
    \<and> ((\<exists>m. g = DeleteRunning m) \<longrightarrow> nextToProcess (loop t) = nextToProcess (loop s))"
proof -
  note b = busy_belongs [OF busy]
  have end_of: "busy_with (Suc k) (Finishing (finish_of (rs_state (loop t)))) t"
    if "busy_with (Suc k) (Finishing opn) t" for opn t
    using that busy_belongs [OF that] by (cases "rs_state (loop t)") auto
  have one: "\<exists>t. quietly s t \<and> busy_with (Suc k) (Finishing (finish_of (rs_state (loop t)))) t
      \<and> nextToProcess (loop t) = nextToProcess (loop s)"
    if "quiet_go (loop s) g (Finishing opn) st" "results_of g = 0" for opn st
    using busy_goes_on [OF busy that(1)] that(2) end_of by (metis add_0 r_into_rtranclp)
  show ?thesis
  proof (cases g)
    case (IdleRunning stop)
    then show ?thesis using one [OF quiet_idle [of "loop s" stop, folded IdleRunning]] by auto
  next
    case (FetchRunning existing)
    then show ?thesis using one [OF quiet_fetch [of "loop s" existing, folded FetchRunning]] by auto
  next
    case (FetchSending r)
    have "finite (dom (fr_Messages r))"
      using busy FetchSending by (simp add: busy_with_def results_finite_def)
    then obtain order where "map_iteration (fr_Messages r) order"
      using finite_distinct_list by (metis map_iteration_def)
    then have "loop_takes s (EvFetchResult r order) [Finishing OperationFetchFinish]"
      using loop_takes.intros(6) [of s "[]" r "[]" order] busy FetchSending by (simp add: busy_with_def)
    from busy_result [OF _ this, of "Suc k" g] busy FetchSending end_of show ?thesis
      by (auto simp: busy_with_def) (metis r_into_rtranclp)
  next
    case (DeleteRunning m)
    have "work_ok (acked s) (loop s) (DeleteRunning m)" using b DeleteRunning by simp
    from silent_delete [OF this assms(2)] obtain st where "quiet_go (loop s) g (DeleteSending []) st"
      using DeleteRunning by blast
    from busy_goes_on [OF busy this] DeleteRunning obtain t where t: "quiet_step s t"
      "busy_with (Suc k) (DeleteSending []) t" "nextToProcess (loop t) = nextToProcess (loop s)" by auto
    from busy_goes_on [OF t(2) quiet_deleted] obtain u where "quiet_step t u"
      "busy_with (Suc k) (Finishing OperationDeleteFinish) u" "nextToProcess (loop u) = nextToProcess (loop t)" .
    with t end_of show ?thesis by (metis converse_rtranclp_into_rtranclp r_into_rtranclp)
  next
    case (DeleteSending rs)
    obtain t where t: "quietly s t" "busy_with (Suc k) (DeleteSending []) t"
      using busy_delete_results [of rs "Suc k" s] busy DeleteSending by auto
    from busy_goes_on [OF t(2) quiet_deleted] obtain u where u: "quiet_step t u"
      "busy_with (Suc k) (Finishing OperationDeleteFinish) u" .
    have "quietly s u" using t(1) u(1) by (rule rtranclp.rtrancl_into_rtrancl)
    with end_of [OF u(2)] DeleteSending show ?thesis by (intro exI [of _ u]) simp
  next
    case (Finishing opn)
    with busy end_of show ?thesis by auto
  qed
qed

lemma quitting_acked: "quitting k s \<Longrightarrow> 0 \<notin> acked s"
  by (simp add: quitting_def recv_ok_def)

text \<open>In \<open>StateNone\<close> the loop exits, or deletes what it has to once more.\<close>

lemma none_turn:
  assumes none: "at_none (Suc k) s" and fin: "results_finite s"
  obtains t where "quiet_step s t" and "status t = Exited \<or>
    nextToProcess (loop s) \<noteq> Map.empty \<and> nextToProcess (loop t) = Map.empty
      \<and> (\<exists>m. busy_with k (DeleteRunning m) t)"
    and "4 * ticks t < (2 :: nat) ^ 64"
proof -
  have q: "quitting (Suc k) s" and st: "rs_state (loop s) = StateNone"
    using none by (simp_all add: at_none_def)
  have w: "work s = []" and buf: "cbuf (opChan (loop s)) \<in> {[], [OperationNone]}"
    using quitting_running [OF q] st by (auto simp: running_ok_def phase_ok_def split: if_splits)
  define ev where "ev = (if cbuf (opChan (loop s)) = [] then EvTimeout else EvOp)"
  have ev: "quiet ev" "loop_takes s ev []" "cbuf (ev_chan ev (loop s)) = []"
    using loop_takes.intros(3,4) [of s] w buf by (auto simp: ev_def)
  obtain t where t: "recv_turn ev s t" "status t = Exited \<or> quitting k t"
    "done_or_deleting s ev [] t" "ticks t = Suc (ticks s)"
    using quiet_turn [OF q ev(2,1)] st by metis
  have "results_finite t" by (rule results_finite_step [OF fin recv_turn_step [OF t(1)]])
  moreover have "4 * ticks t < (2 :: nat) ^ 64" using q t(4) by (simp add: quitting_def)
  ultimately show thesis using t(2,3) ev(3)
    by (intro that [of t] quiet_turn_step [OF ev(1) t(1) quitting_flagged [OF q]])
      (auto simp: done_or_deleting_def busy_with_def)
qed

lemma quiet_keeps_finite: "quietly s t \<Longrightarrow> results_finite s \<Longrightarrow> results_finite t"
  by (induction rule: rtranclp_induct) (auto intro: results_finite_step quiet_recv_step)

lemma busy_to_none:
  assumes busy: "busy_with (results_of g + Suc k) g s"
  obtains t where "quietly s t" and "at_none k t" and "results_finite t"
    and "(\<exists>m. g = DeleteRunning m) \<Longrightarrow> nextToProcess (loop t) = nextToProcess (loop s)"
proof -
  have "0 \<notin> acked s" using busy by (auto simp: busy_with_def dest: quitting_acked)
  from busy_to_finishing [OF busy this] obtain u where u: "quietly s u"
    "busy_with (Suc k) (Finishing (finish_of (rs_state (loop u)))) u"
    "(\<exists>m. g = DeleteRunning m) \<longrightarrow> nextToProcess (loop u) = nextToProcess (loop s)" by blast
  obtain t where t: "quietly u t" "at_none k t" "nextToProcess (loop t) = nextToProcess (loop u)"
    using busy_finishes [OF u(2)] .
  have "quietly s t" using u(1) t(1) by (rule rtranclp_trans)
  moreover have "results_finite t"
    using quiet_keeps_finite [OF t(1)] u(2) by (simp add: busy_with_def)
  ultimately show thesis using that t u(3) by auto
qed

lemma none_exits:
  assumes none: "at_none 3 s" and fin: "results_finite s"
  shows "\<exists>t. quietly s t \<and> status t = Exited \<and> 4 * ticks t < 2 ^ 64"
proof -
  have none2: "at_none (Suc 2) s" using none by (simp add: numeral_3_eq_3)
  obtain t where t: "quiet_step s t" "status t = Exited \<or>
    nextToProcess (loop t) = Map.empty \<and> (\<exists>m. busy_with 2 (DeleteRunning m) t)"
    "4 * ticks t < (2 :: nat) ^ 64"
    using none_turn [OF none2 fin] by metis
  show ?thesis
  proof (cases "status t = Exited")
    case True
    with t(1,3) show ?thesis by blast
  next
    case False
    with t(2) obtain m where empty: "nextToProcess (loop t) = Map.empty"
      and "busy_with (results_of (DeleteRunning m) + Suc 1) (DeleteRunning m) t"
      by (auto simp: numeral_2_eq_2)
    from busy_to_none [OF this(2)] empty obtain u where u: "quietly t u" "at_none (Suc 0) u"
      "results_finite u" "nextToProcess (loop u) = Map.empty" by auto
    obtain v where v: "quiet_step u v" "status v = Exited" "4 * ticks v < (2 :: nat) ^ 64"
      using none_turn [OF u(2,3)] u(4) by metis
    have "quietly s v"
      by (meson t(1) u(1) v(1) converse_rtranclp_into_rtranclp rtranclp.rtrancl_into_rtrancl)
    with v(2,3) show ?thesis by blast
  qed
qed

text \<open>A busy loop first takes what is left in its operation channel.\<close>

lemma busy_flush:
  assumes q: "quitting (Suc k) s" and st: "rs_state (loop s) \<noteq> StateNone" and fin: "results_finite s"
  obtains t where "quietly s t" and "results_finite t"
    and "at_none k t \<or> (\<exists>g. busy_with k g t \<and> work s = [g])"
proof -
  note phase = quitting_running [OF q, unfolded running_ok_def phase_ok_def]
  show thesis
  proof (cases "cbuf (opChan (loop s)) = []")
    case True
    with phase st obtain g where "work s = [g]" by (auto split: if_splits)
    with True st fin quitting_mono [OF q, of k] that [of s] show thesis
      by (auto simp: busy_with_def)
  next
    case False
    have takes: "loop_takes s EvOp (work s)" using False by (rule loop_takes.intros(4))
    obtain t where t: "recv_turn EvOp s t" "status t = Exited \<or> quitting k t"
      "carried s EvOp (work s) t"
      using quiet_turn [OF q takes] st by (metis quiet.simps(2))
    have fin': "results_finite t" by (rule results_finite_step [OF fin recv_turn_step [OF t(1)]])
    have quiet: "quietly s t" using quiet_turn_step [OF _ t(1) quitting_flagged [OF q]] by simp
    show thesis
    proof (cases "work s = []")
      case True
      with phase st have "cbuf (opChan (loop s)) = [finish_of (rs_state (loop s))]" by simp
      with t(2,3) have "at_none k t" by (auto simp: carried_def at_none_def)
      with that [OF quiet fin'] show thesis by blast
    next
      case busy: False
      with phase False obtain g where "work s = [g]" "cbuf (opChan (loop s)) = [OperationNone]"
        by (auto split: if_splits)
      moreover have "OperationNone \<noteq> finish_of (rs_state (loop s))" using st by (cases "rs_state (loop s)") auto
      ultimately have "busy_with k g t" using t(2,3) st fin' by (auto simp: carried_def busy_with_def)
      with that [OF quiet fin'] \<open>work s = [g]\<close> show thesis by blast
    qed
  qed
qed

lemma quitting_exits:
  assumes "recv_reachable s" and bound: "4 * (ticks s + results_left s + 5) < (2 :: nat) ^ 64"
    and "status s = Running" and "flagged WantQuit (loop s)"
  shows "\<exists>t. quietly s t \<and> status t = Exited \<and> 4 * ticks t < 2 ^ 64"
proof -
  have q: "quitting (Suc (results_left s + 4)) s"
    using reachable_ok [OF assms(1)] assms(2-4) by (simp add: quitting_def)
  have fin: "results_finite s" by (rule recv_results.reachable_inv [OF assms(1)])
  show ?thesis
  proof (cases "rs_state (loop s) = StateNone")
    case True
    then have "at_none 3 s" using quitting_mono [OF q, of 3] by (simp add: at_none_def)
    from none_exits [OF this fin] show ?thesis .
  next
    case False
    obtain t where t: "quietly s t" "results_finite t"
      "at_none (results_left s + 4) t \<or> (\<exists>g. busy_with (results_left s + 4) g t \<and> work s = [g])"
      using busy_flush [OF q False fin] .
    obtain u where u: "quietly t u" "at_none 3 u" "results_finite u"
    proof (cases "at_none (results_left s + 4) t")
      case True
      then have "at_none 3 t" using quitting_mono by (force simp: at_none_def)
      with t(2) that [of t] show thesis by simp
    next
      case False
      with t(3) obtain g where "busy_with (results_left s + 4) g t" "work s = [g]" by blast
      then have "busy_with (results_of g + Suc 3) g t" by (simp add: results_left_def)
      from busy_to_none [OF this] that show thesis by metis
    qed
    from none_exits [OF u(2,3)] t(1) u(1) show ?thesis by (meson rtranclp_trans)
  qed
qed

text \<open>Taking the request to quit leaves no more results to wait for, and hands out nothing.\<close>

lemma flag_kept:
  assumes "running_ok s" and "4 * Suc (ticks s) < (2 :: nat) ^ 64"
    and turn: "recv_turn ev s t" and "status t = Running" and "ev = EvQuit \<or> flagged WantQuit (loop s)"
  shows "flagged WantQuit (loop t)"
proof -
  obtain ws order where takes: "loop_takes s ev ws"
    and t: "t = after_turn ev ws (tick order ev (loop s)) s"
    using turn by cases blast
  obtain u n where u: "selected (acked s) ev (loop s) (ev_operation ev (loop s), u)"
    and n: "tick order ev (loop s) = Completes n"
    and none: "rs_state (loop s) = StateNone \<Longrightarrow> started (acked s \<union> ev_acks ev) u n"
    and busy: "rs_state (loop s) \<noteq> StateNone \<Longrightarrow>
      carried_on (acked s \<union> ev_acks ev) (ev_operation ev (loop s)) u n"
    using turn_result [OF assms(1) takes assms(2), of order] by metis
  have "flagged WantQuit u" using u assms(5) by (auto simp: selected_def)
  with none busy t n assms(4) show ?thesis
    by (cases "rs_state (loop s) = StateNone"; cases n) (auto simp: turned_def started_def carried_on_def)
qed

lemma quit_turn:
  assumes "running_ok s" and "status s = Running" and bound: "4 * Suc (ticks s) < (2 :: nat) ^ 64"
  obtains t where "recv_turn EvQuit s t" and "status t = Exited \<or> status t = Running"
    and "ticks t = Suc (ticks s)" and "results_left t = results_left s" and "sent_by t = sent_by s"
proof -
  obtain u n where turn: "recv_turn EvQuit s (after_turn EvQuit (work s) (Completes n) s)"
    and u: "selected (acked s) EvQuit (loop s) (ev_operation EvQuit (loop s), u)"
    and none: "rs_state (loop s) = StateNone \<Longrightarrow> started (acked s \<union> ev_acks EvQuit) u n"
    and busy: "rs_state (loop s) \<noteq> StateNone \<Longrightarrow>
      carried_on (acked s \<union> ev_acks EvQuit) (ev_operation EvQuit (loop s)) u n"
    using turn_exists [OF assms(1,2) loop_takes.intros(1) bound] by metis
  let ?t = "after_turn EvQuit (work s) (Completes n) s"
  have "results_left ?t = results_left s"
    using none busy u
    by (cases "rs_state (loop s) = StateNone"; cases n)
      (auto simp: results_left_def turned_def started_def carried_on_def spawned_work_def selected_def
        split: option.splits spawn.splits)
  moreover have "sent_by ?t = sent_by s" using turn_sent(1) [OF turn] by auto
  moreover have "status ?t = Exited \<or> status ?t = Running" "ticks ?t = Suc (ticks s)"
    using assms(2) by (cases n; simp add: turned_def)+
  ultimately show thesis using that [OF turn] by blast
qed

text \<open>
  C14: a receiver that was asked to quit always has a way to its exit, whatever state it is
  in and whatever it is doing on the server: nothing is needed but the return of the calls
  that are under way, their results, one more round of deletions, and the passing of time;
  no acknowledgement, no update from the server and no second request. The bound on the
  iterations leaves room for those results and five iterations more.
\<close>

theorem receiver_can_quit:
  assumes "recv_reachable s" and "4 * (ticks s + results_left s + 5) < (2 :: nat) ^ 64"
    and "status s = Running" and "flagged WantQuit (loop s)"
  shows "\<exists>t. quiet_step\<^sup>*\<^sup>* s t \<and> status t = Exited"
  using quitting_exits [OF assms] by blast

theorem receiver_can_quit_witness:
  "\<exists>s t. recv_reachable s \<and> flagged WantQuit (loop s) \<and> work s = [IdleRunning 1]
    \<and> quiet_step\<^sup>*\<^sup>* s t \<and> status t = Exited"
proof -
  obtain k where k: "recv_reachable (ex_sys k [IdleRunning 1] {} 2)" "flagged WantQuit k"
    using ex_quitting_reachable by blast
  let ?s = "ex_sys k [IdleRunning 1] {} 2"
  have s: "status ?s = Running" "loop ?s = k" "work ?s = [IdleRunning 1]"
    "4 * (ticks ?s + results_left ?s + 5) < (2 :: nat) ^ 64"
    by (simp_all add: ex_sys_def results_left_def)
  from receiver_can_quit [OF k(1) s(4,1)] k s(2,3) show ?thesis by metis
qed

end
