(* ===== verification/Program.thy ===== *)
theory Program
  imports Composition ReceiverQuit
begin

text \<open>
  The whole program with the channels between its parts, from the start of the command to
  the end of \<open>Close\<close>: the receivers (\<open>receiver/receiver.go\<close>) with their goroutines, each
  with its outgoing channel, its channel of acknowledgements and the two channels of its
  \<open>Close\<close>; the loop of the pump with the ingest client (\<open>multipump/multipump.go\<close>,
  \<open>pump/pump.go\<close>, \<open>ingest/ingest.go\<close>); and the main goroutine, which asks the loop to stop,
  waits for it, and closes the parts (\<open>multipump/util.go\<close>, \<open>cmd/run\<close>, \<open>cmd/run-multi\<close>).
  A receiver hands out the messages of a fetch one by one and takes no event before the last
  of them has found its place in the channel. The program refines \<open>mailpump_step\<close>.
\<close>

section \<open>A receiver and its channels\<close>

text \<open>
  Where a call of a receiver's \<open>Close\<close> is: not made, about to write \<open>wantQuit\<close>, waiting for
  \<open>hasQuit\<close>, about to log the client out, or back.
\<close>

datatype close_call = NotClosing | WritingQuit | AwaitingQuit | ClientLogout | CloseReturned

text \<open>
  \<open>ru_outgoing\<close> are the messages \<open>handleFetch\<close> has still to write to the outgoing channel;
  \<open>ru_returned\<close> says that \<open>run\<close> has written \<open>hasQuit\<close> and returned.
\<close>

record receiver_unit =
  ru_sys :: recv_sys
  ru_outgoing :: "imap_message list"
  ru_acks :: "ackRequest chan"
  ru_wantQuit :: "unit chan"
  ru_hasQuit :: "unit chan"
  ru_returned :: bool
  ru_close :: close_call

definition new_unit :: "mailReceiver \<Rightarrow> receiver_unit" where
  "new_unit mr =
     \<lparr>ru_sys = recv_start mr, ru_outgoing = [], ru_acks = make_chan (unat (fetchBufferSize mr)),
      ru_wantQuit = make_chan 1, ru_hasQuit = make_chan 1, ru_returned = False,
      ru_close = NotClosing\<rparr>"

text \<open>An event that comes through a channel is what the channel yields.\<close>

definition take_event :: "loop_event \<Rightarrow> receiver_unit \<Rightarrow> receiver_unit option" where
  "take_event ev u =
     (case ev of
        EvAck a \<Rightarrow>
          (case chan_recv (ru_acks u) of
             Completes (Some b, ch) \<Rightarrow> if b = a then Some (u\<lparr>ru_acks := ch\<rparr>) else None
           | _ \<Rightarrow> None)
      | EvQuit \<Rightarrow>
          (case chan_recv (ru_wantQuit u) of
             Completes (Some _, ch) \<Rightarrow> Some (u\<lparr>ru_wantQuit := ch\<rparr>)
           | _ \<Rightarrow> None)
      | _ \<Rightarrow> Some u)"

text \<open>
  The steps of a receiver on its own: a turn of its loop, which may leave messages to hand
  out, a move of a goroutine, the end of \<open>run\<close>, and those of \<open>Close\<close> once it was called.
\<close>

inductive unit_step :: "receiver_unit \<Rightarrow> receiver_unit \<Rightarrow> bool" where
  unit_turn: "ru_outgoing u = [] \<Longrightarrow> take_event ev u = Some u' \<Longrightarrow> recv_turn ev (ru_sys u) r \<Longrightarrow>
    unit_step u (u'\<lparr>ru_sys := r, ru_outgoing := drop (length (sent_by (ru_sys u))) (sent_by r)\<rparr>)"
| unit_work: "recv_work (ru_sys u) r \<Longrightarrow> unit_step u (u\<lparr>ru_sys := r\<rparr>)"
| run_returns: "status (ru_sys u) = Exited \<Longrightarrow> \<not> ru_returned u \<Longrightarrow>
    chan_send () (ru_hasQuit u) = Completes ch \<Longrightarrow>
    unit_step u (u\<lparr>ru_hasQuit := ch, ru_returned := True\<rparr>)"
| close_writes: "ru_close u = WritingQuit \<Longrightarrow> chan_send () (ru_wantQuit u) = Completes ch \<Longrightarrow>
    unit_step u (u\<lparr>ru_wantQuit := ch, ru_close := AwaitingQuit\<rparr>)"
| close_reads: "ru_close u = AwaitingQuit \<Longrightarrow> chan_recv (ru_hasQuit u) = Completes (Some (), ch) \<Longrightarrow>
    unit_step u (u\<lparr>ru_hasQuit := ch, ru_close := ClientLogout\<rparr>)"
| close_logs_out: "ru_close u = ClientLogout \<Longrightarrow> unit_step u (u\<lparr>ru_close := CloseReturned\<rparr>)"

inductive_cases unit_stepE: "unit_step u u'"

section \<open>The program\<close>

text \<open>
  The main goroutine is in the command's loop, in the deferred \<open>Close\<close> of the pump, or back
  from it. \<open>pr_stopped\<close> says that it closed the stop channel, \<open>pr_ingest_quit\<close> that the
  ingest client's \<open>Close\<close> closed its \<open>wantQuit\<close>.
\<close>

datatype main_place = InCommand | InClose | CommandEnded

record program =
  pr_units :: "nat \<Rightarrow> receiver_unit"
  pr_pump :: delivery
  pr_main :: main_place
  pr_stopped :: bool
  pr_ingest_quit :: bool

definition program_init :: "program \<Rightarrow> bool" where
  "program_init s \<longleftrightarrow>
     (\<forall>i. \<exists>cfg mr. NewReceiver None cfg = Inr mr \<and> pr_units s i = new_unit mr)
     \<and> deliver_init (pr_pump s) \<and> pr_main s = InCommand \<and> \<not> pr_stopped s \<and> \<not> pr_ingest_quit s"

text \<open>
  The steps of the loop and the ingest client that no channel of a receiver takes part in;
  the loop returns only when it was stopped, the ingest goroutine only when it was told to.
\<close>

definition pump_inner :: "string list \<Rightarrow> program \<Rightarrow> delivery \<Rightarrow> bool" where
  "pump_inner targets s d \<longleftrightarrow> deliver_step True targets (pr_pump s) d
     \<and> dl_handed d = dl_handed (pr_pump s) \<and> dl_acks d = dl_acks (pr_pump s)
     \<and> (dl_pump d = Returned \<longrightarrow> dl_pump (pr_pump s) = Returned \<or> pr_stopped s)
     \<and> (ig_shutdown (dl_ig d) \<longrightarrow> ig_shutdown (dl_ig (pr_pump s)) \<or> pr_ingest_quit s)"

text \<open>
  With \<open>parallel\<close> the ingest client is closed together with the receivers, as the single
  pump does; without, after them, as the other does.
  The signal is the first one, which closes the stop channel; a second one in the command's
  loop ends the process by force (\<open>signal_loop\<close>), and once the pump is being closed
  signals are no longer read.
\<close>

inductive program_step :: "bool \<Rightarrow> string list \<Rightarrow> program \<Rightarrow> program \<Rightarrow> bool"
  for parallel :: bool and targets :: "string list" where
  receiver: "i < length targets \<Longrightarrow> unit_step (pr_units s i) u \<Longrightarrow>
    program_step parallel targets s (s\<lparr>pr_units := (pr_units s)(i := u)\<rparr>)"
| hand_out: "i < length targets \<Longrightarrow> ru_outgoing (pr_units s i) = msg # ms \<Longrightarrow>
    length (dl_incoming (pr_pump s) i) < incoming_cap \<Longrightarrow>
    program_step parallel targets s
      (s\<lparr>pr_units := (pr_units s)(i := (pr_units s i)\<lparr>ru_outgoing := ms\<rparr>),
         pr_pump := (pr_pump s)\<lparr>dl_incoming := push i msg (dl_incoming (pr_pump s)),
           dl_handed := push i msg (dl_handed (pr_pump s))\<rparr>\<rparr>)"
| acknowledge: "dl_pump (pr_pump s) = Acking i uid err \<Longrightarrow> i < length targets \<Longrightarrow>
    Ack uid err (ru_acks (pr_units s i)) = Completes ch \<Longrightarrow>
    program_step parallel targets s
      (s\<lparr>pr_units := (pr_units s)(i := (pr_units s i)\<lparr>ru_acks := ch\<rparr>),
         pr_pump := (pr_pump s)\<lparr>dl_pump := Selecting, dl_acks := push i (uid, err) (dl_acks (pr_pump s))\<rparr>\<rparr>)"
| pump: "pump_inner targets s d \<Longrightarrow> program_step parallel targets s (s\<lparr>pr_pump := d\<rparr>)"
| signal: "pr_main s = InCommand \<Longrightarrow> \<not> pr_stopped s \<Longrightarrow> program_step parallel targets s (s\<lparr>pr_stopped := True\<rparr>)"
| pump_done: "pr_main s = InCommand \<Longrightarrow> dl_pump (pr_pump s) = Returned \<Longrightarrow>
    program_step parallel targets s
      (s\<lparr>pr_main := InClose,
         pr_units := (\<lambda>i. if i < length targets then (pr_units s i)\<lparr>ru_close := WritingQuit\<rparr>
                          else pr_units s i)\<rparr>)"
| ingest_close: "pr_main s = InClose \<Longrightarrow>
    parallel \<or> (\<forall>i < length targets. ru_close (pr_units s i) = CloseReturned) \<Longrightarrow>
    program_step parallel targets s (s\<lparr>pr_ingest_quit := True\<rparr>)"
| close_returns: "pr_main s = InClose \<Longrightarrow>
    \<forall>i < length targets. ru_close (pr_units s i) = CloseReturned \<Longrightarrow>
    pr_ingest_quit s \<Longrightarrow> ig_phase (dl_ig (pr_pump s)) = Finished \<Longrightarrow>
    program_step parallel targets s (s\<lparr>pr_main := CommandEnded\<rparr>)"

inductive_cases program_stepE: "program_step parallel targets s t"

abbreviation runs :: "bool \<Rightarrow> string list \<Rightarrow> program \<Rightarrow> bool" where
  "runs parallel targets \<equiv> reachable program_init (program_step parallel targets)"

section \<open>The invariant of a receiver with its channels\<close>

text \<open>
  Outgoing messages were written by the loop; a loop that is not running has none; the
  acknowledgements in the channel were made by the pump; and \<open>Close\<close> is where its two
  channels say.
\<close>

definition close_ok :: "receiver_unit \<Rightarrow> bool" where
  "close_ok u \<longleftrightarrow>
     ccap (ru_wantQuit u) = 1 \<and> \<not> cclosed (ru_wantQuit u)
     \<and> ccap (ru_hasQuit u) = 1 \<and> \<not> cclosed (ru_hasQuit u)
     \<and> (ru_close u \<in> {NotClosing, WritingQuit} \<longrightarrow> cbuf (ru_wantQuit u) = [])
     \<and> (ru_close u \<in> {ClientLogout, CloseReturned} \<longrightarrow> ru_returned u)
     \<and> (ru_returned u \<longrightarrow> status (ru_sys u) = Exited)
     \<and> cbuf (ru_hasQuit u) =
         (if ru_returned u \<and> ru_close u \<in> {NotClosing, WritingQuit, AwaitingQuit} then [()] else [])"

definition unit_ok :: "(u32 \<times> go_error option) set \<Rightarrow> receiver_unit \<Rightarrow> bool" where
  "unit_ok A u \<longleftrightarrow> recv_inv (ru_sys u) \<and> set (ru_outgoing u) \<subseteq> set (sent_by (ru_sys u))
     \<and> (status (ru_sys u) \<noteq> Running \<longrightarrow> ru_outgoing u = [])
     \<and> \<not> cclosed (ru_acks u) \<and> (\<forall>a\<in>set (cbuf (ru_acks u)). (ar_UID a, ar_Error a) \<in> A)
     \<and> acked (ru_sys u) \<subseteq> {uid. (uid, None) \<in> A} \<and> close_ok u"

lemma new_unit_ok:
  assumes "NewReceiver None cfg = Inr mr"
  shows "unit_ok A (new_unit mr)"
proof -
  have "recv_init (recv_start mr)" using assms by (auto simp: recv_init_def)
  from recv_init_inv [OF this] recv_init_acked [OF this] show ?thesis
    by (auto simp: unit_ok_def new_unit_def close_ok_def make_chan_def)
qed

lemma unit_ok_mono: "unit_ok A u \<Longrightarrow> A \<subseteq> B \<Longrightarrow> unit_ok B u"
  by (auto simp: unit_ok_def)

lemma take_event_frame:
  assumes "take_event ev u = Some u'"
  shows "ru_sys u' = ru_sys u \<and> ru_outgoing u' = ru_outgoing u \<and> ru_hasQuit u' = ru_hasQuit u
    \<and> ru_returned u' = ru_returned u \<and> ru_close u' = ru_close u
    \<and> (\<forall>a. ev = EvAck a \<longrightarrow> a \<in> set (cbuf (ru_acks u)))
    \<and> set (cbuf (ru_acks u')) \<subseteq> set (cbuf (ru_acks u)) \<and> cclosed (ru_acks u') = cclosed (ru_acks u)
    \<and> ccap (ru_acks u') = ccap (ru_acks u)
    \<and> ccap (ru_wantQuit u') = ccap (ru_wantQuit u) \<and> cclosed (ru_wantQuit u') = cclosed (ru_wantQuit u)
    \<and> (cbuf (ru_wantQuit u) = [] \<longrightarrow> cbuf (ru_wantQuit u') = [])"
  using assms by (cases ev)
    (auto simp: take_event_def chan_recv_def split: outcome.splits option.splits prod.splits list.splits if_splits)

lemma after_turn_acked: "acked (after_turn ev ws out r) = acked r \<union> ev_acks ev"
  by (cases "(ev, ws, out, r)" rule: after_turn.cases) (auto simp: turned_def)

lemma turn_acked: "recv_turn ev r r' \<Longrightarrow> acked r' = acked r \<union> ev_acks ev"
  by (cases rule: recv_turn.cases) (auto simp: after_turn_acked)

lemma work_frame:
  "recv_work r r' \<Longrightarrow> acked r' = acked r \<and> status r' = status r \<and> sent_by r' = sent_by r
    \<and> ticks r' = ticks r"
  by (cases rule: recv_work.cases) (auto simp: sent_by_def)

section \<open>Every step keeps the invariant\<close>

lemma sent_grows:
  assumes "recv_turn ev r r'"
  shows "set (sent_by r) \<subseteq> set (sent_by r')"
  using turn_sent(1) [OF assms] by auto

lemma turn_running: "recv_turn ev r r' \<Longrightarrow> status r = Running"
  by (auto elim: recv_turnE)

lemma unit_turn_ok:
  assumes ok: "unit_ok A u" and "ru_outgoing u = []" and take_ev: "take_event ev u = Some u'"
    and turn: "recv_turn ev (ru_sys u) r"
  shows "unit_ok A (u'\<lparr>ru_sys := r, ru_outgoing := drop (length (sent_by (ru_sys u))) (sent_by r)\<rparr>)"
proof -
  note f = take_event_frame [OF take_ev]
  have "acked r \<subseteq> {uid. (uid, None) \<in> A}"
  proof -
    have "ev_acks ev \<subseteq> {uid. (uid, None) \<in> A}"
    proof (cases ev)
      case (EvAck a)
      with f have "a \<in> set (cbuf (ru_acks u))" by simp
      with ok have "(ar_UID a, ar_Error a) \<in> A" by (simp add: unit_ok_def)
      with EvAck show ?thesis by auto
    qed auto
    with turn_acked [OF turn] ok show ?thesis by (simp add: unit_ok_def)
  qed
  moreover have "recv_inv r" using recv_step_inv [OF _ recv_turn_step [OF turn]] ok by (simp add: unit_ok_def)
  moreover have "status r \<noteq> Running \<Longrightarrow> drop (length (sent_by (ru_sys u))) (sent_by r) = []"
    using turn_sent(2) [OF turn] by simp
  moreover have "\<not> ru_returned u" using ok turn_running [OF turn] by (auto simp: unit_ok_def close_ok_def)
  moreover have "set (drop n (sent_by r)) \<subseteq> set (sent_by r)" for n by (rule set_drop_subset)
  moreover have "\<forall>a\<in>set (cbuf (ru_acks u')). (ar_UID a, ar_Error a) \<in> A"
    using f ok by (meson subsetD unit_ok_def)
  moreover have "cbuf (ru_wantQuit u) = [] \<longrightarrow> cbuf (ru_wantQuit u') = []" using f by simp
  ultimately show ?thesis using ok f by (simp add: unit_ok_def close_ok_def)
qed

lemma unit_step_ok:
  assumes ok: "unit_ok A u" and step: "unit_step u u'"
  shows "unit_ok A u'"
  using step
proof cases
  case (unit_turn ev u'' r)
  with unit_turn_ok [OF ok] show ?thesis by simp
next
  case (unit_work r)
  with ok work_frame [OF unit_work(2)] recv_step_inv [OF _ recv_work_step [OF unit_work(2)]]
  show ?thesis by (simp add: unit_ok_def close_ok_def)
next
  case (run_returns ch)
  with ok show ?thesis
    by (cases "ru_close u") (auto simp: unit_ok_def close_ok_def chan_send_def split: if_splits)
next
  case (close_writes ch)
  with ok show ?thesis by (auto simp: unit_ok_def close_ok_def chan_send_def split: if_splits)
next
  case (close_reads ch)
  with ok show ?thesis
    by (auto simp: unit_ok_def close_ok_def chan_recv_def split: if_splits list.splits)
next
  case close_logs_out
  with ok show ?thesis by (auto simp: unit_ok_def close_ok_def)
qed

text \<open>
  What holds of the whole: besides the parts, that the pump has only what the receivers
  handed out, and that \<open>Close\<close> runs only after the loop has returned.
\<close>

fun after_quit :: "ingest_phase \<Rightarrow> bool" where
  "after_quit Draining = True"
| "after_quit (DrainResponding req r) = True"
| "after_quit LoggingOut = True"
| "after_quit Finished = True"
| "after_quit _ = False"

definition main_ok :: "string list \<Rightarrow> program \<Rightarrow> bool" where
  "main_ok targets s \<longleftrightarrow>
     (\<forall>i < length targets. (ru_close (pr_units s i) = NotClosing) = (pr_main s = InCommand))
     \<and> (pr_main s \<noteq> InCommand \<longrightarrow> dl_pump (pr_pump s) = Returned)
     \<and> (pr_main s = InCommand \<longrightarrow> \<not> pr_ingest_quit s)
     \<and> (after_quit (ig_phase (dl_ig (pr_pump s))) \<longrightarrow> ig_shutdown (dl_ig (pr_pump s)))
     \<and> (ig_shutdown (dl_ig (pr_pump s)) \<longrightarrow> pr_ingest_quit s)
     \<and> (pr_main s = CommandEnded \<longrightarrow> pr_ingest_quit s \<and> ig_phase (dl_ig (pr_pump s)) = Finished
          \<and> (\<forall>i < length targets. ru_close (pr_units s i) = CloseReturned))"

definition program_inv :: "string list \<Rightarrow> program \<Rightarrow> bool" where
  "program_inv targets s \<longleftrightarrow>
     (\<forall>i. unit_ok (set (dl_acks (pr_pump s) i)) (pr_units s i)
        \<and> set (dl_handed (pr_pump s) i) \<subseteq> set (sent_by (ru_sys (pr_units s i))))
     \<and> deliver_inv targets (pr_pump s) \<and> main_ok targets s"

lemma program_init_inv: "program_init s \<Longrightarrow> program_inv targets s"
proof -
  assume init: "program_init s"
  then have "unit_ok A (pr_units s i) \<and> ru_close (pr_units s i) = NotClosing" for A i
    using new_unit_ok by (metis (no_types, lifting) new_unit_def program_init_def receiver_unit.select_convs(7))
  with init deliver_init_inv show ?thesis
    by (auto simp: program_inv_def program_init_def deliver_init_def ingest_NewClient_def main_ok_def)
qed

text \<open>The steps of the pump, as steps of the delivery.\<close>

lemma acknowledge_step:
  assumes "dl_pump d = Acking i uid err"
  shows "deliver_step True targets d (d\<lparr>dl_pump := Selecting, dl_acks := push i (uid, err) (dl_acks d)\<rparr>)"
  using assms by (rule deliver_step.ack_taken)

lemma Ack_taken:
  assumes "Ack uid err ch = Completes ch'" and "\<not> cclosed ch"
  shows "\<not> cclosed ch' \<and> ccap ch' = ccap ch \<and> set (cbuf ch') \<subseteq> insert \<lparr>ar_UID = uid, ar_Error = err\<rparr> (set (cbuf ch))"
  using assms by (auto simp: Ack_def chan_send_def split: if_splits)

lemma deliver_step_close:
  assumes "deliver_step True targets d d'"
  shows "dl_pump d = Returned \<longrightarrow> dl_pump d' = Returned"
    and "ig_phase (dl_ig d) = Finished \<longrightarrow> ig_phase (dl_ig d') = Finished"
    and "ig_shutdown (dl_ig d) \<longrightarrow> ig_shutdown (dl_ig d')"
    and "(after_quit (ig_phase (dl_ig d)) \<longrightarrow> ig_shutdown (dl_ig d)) \<Longrightarrow>
      after_quit (ig_phase (dl_ig d')) \<longrightarrow> ig_shutdown (dl_ig d')"
  using assms by (cases; auto simp: step_defs)+

lemma unit_step_close:
  assumes "unit_step u u'"
  shows "(ru_close u' = NotClosing) = (ru_close u = NotClosing)"
    and "ru_close u = CloseReturned \<Longrightarrow> ru_close u' = CloseReturned"
    and "set (sent_by (ru_sys u)) \<subseteq> set (sent_by (ru_sys u'))"
proof -
  have "((ru_close u' = NotClosing) = (ru_close u = NotClosing))
    \<and> (ru_close u = CloseReturned \<longrightarrow> ru_close u' = CloseReturned)
    \<and> set (sent_by (ru_sys u)) \<subseteq> set (sent_by (ru_sys u'))"
    using assms
  proof cases
    case (unit_turn ev u'' r)
    with take_event_frame [OF unit_turn(3)] sent_grows [OF unit_turn(4)] show ?thesis by simp
  next
    case (unit_work r)
    with work_frame [OF unit_work(2)] show ?thesis by simp
  qed simp_all
  then show "(ru_close u' = NotClosing) = (ru_close u = NotClosing)"
    "ru_close u = CloseReturned \<Longrightarrow> ru_close u' = CloseReturned"
    "set (sent_by (ru_sys u)) \<subseteq> set (sent_by (ru_sys u'))" by auto
qed

lemma hand_out_unit:
  assumes "unit_ok A u" and "ru_outgoing u = msg # ms"
  shows "unit_ok A (u\<lparr>ru_outgoing := ms\<rparr>)" and "msg \<in> set (sent_by (ru_sys u))"
  using assms by (auto simp: unit_ok_def close_ok_def)

lemma acknowledge_unit:
  assumes "unit_ok A u" and "Ack uid err (ru_acks u) = Completes ch" and "insert (uid, err) A \<subseteq> B"
  shows "unit_ok B (u\<lparr>ru_acks := ch\<rparr>)"
proof -
  have "\<not> cclosed (ru_acks u)" using assms(1) by (simp add: unit_ok_def)
  note taken = Ack_taken [OF assms(2) this]
  have "A \<subseteq> B" using assms(3) by auto
  with assms(1) have "unit_ok B u" by (rule unit_ok_mono)
  moreover have "\<forall>a\<in>set (cbuf ch). (ar_UID a, ar_Error a) \<in> B"
    using taken assms(3) \<open>unit_ok B u\<close> by (auto simp: unit_ok_def)
  ultimately show ?thesis using taken by (simp add: unit_ok_def close_ok_def)
qed

lemma closing_unit:
  "unit_ok A u \<Longrightarrow> ru_close u = NotClosing \<Longrightarrow> unit_ok A (u\<lparr>ru_close := WritingQuit\<rparr>)"
  by (simp add: unit_ok_def close_ok_def)

lemma program_step_inv:
  assumes inv: "program_inv targets s" and step: "program_step parallel targets s t"
  shows "program_inv targets t"
proof -
  have units: "unit_ok (set (dl_acks (pr_pump s) i)) (pr_units s i)"
    and handed: "set (dl_handed (pr_pump s) i) \<subseteq> set (sent_by (ru_sys (pr_units s i)))" for i
    using inv by (auto simp: program_inv_def)
  have pump_ok: "deliver_inv targets (pr_pump s)" and main: "main_ok targets s"
    using inv by (simp_all add: program_inv_def)
  show ?thesis
    using step
  proof cases
    case (receiver i u)
    note c = unit_step_close [OF receiver(3)]
    have "main_ok targets t"
      using main c(1,2) receiver(1,2) by (auto simp: main_ok_def)
    moreover have "unit_ok (set (dl_acks (pr_pump t) j)) (pr_units t j)" for j
      using receiver(1) unit_step_ok [OF units receiver(3)] units by simp
    moreover have "set (dl_handed (pr_pump t) j) \<subseteq> set (sent_by (ru_sys (pr_units t j)))" for j
      using receiver(1) handed [of j] c(3) by auto
    moreover have "deliver_inv targets (pr_pump t)" using receiver(1) pump_ok by simp
    ultimately show ?thesis by (simp add: program_inv_def)
  next
    case (hand_out i msg ms)
    note h = hand_out_unit [OF units hand_out(3)]
    have "deliver_inv targets (pr_pump t)"
      using deliver_step_inv [OF pump_ok deliver_step.hand [OF hand_out(2,4)]] hand_out(1) by simp
    moreover have "main_ok targets t" using main hand_out(1,2) by (auto simp: main_ok_def)
    ultimately show ?thesis using hand_out(1) h units handed by (auto simp: program_inv_def)
  next
    case (acknowledge i uid err ch)
    have "unit_ok (set (dl_acks (pr_pump t) j)) (pr_units t j)" for j
      using acknowledge_unit [OF units acknowledge(4)] units acknowledge(1) by auto
    moreover have "deliver_inv targets (pr_pump t)"
      using deliver_step_inv [OF pump_ok acknowledge_step [OF acknowledge(2)]] acknowledge(1) by simp
    moreover have "main_ok targets t" using main acknowledge(1,2) by (auto simp: main_ok_def)
    ultimately show ?thesis using acknowledge(1) handed by (auto simp: program_inv_def)
  next
    case (pump d)
    then have d: "deliver_step True targets (pr_pump s) d" "dl_handed d = dl_handed (pr_pump s)"
      "dl_acks d = dl_acks (pr_pump s)" "ig_shutdown (dl_ig d) \<longrightarrow> ig_shutdown (dl_ig (pr_pump s)) \<or> pr_ingest_quit s"
      by (auto simp: pump_inner_def)
    note k = deliver_step_close [OF d(1)]
    have "main_ok targets t" using main k d(4) pump(1) unfolding main_ok_def by auto
    with pump(1) d units handed deliver_step_inv [OF pump_ok d(1)] show ?thesis
      by (auto simp: program_inv_def)
  next
    case pump_done
    have "unit_ok (set (dl_acks (pr_pump t) i)) (pr_units t i)" for i
      using units [of i] closing_unit [OF units, of i] main pump_done by (auto simp: main_ok_def)
    moreover have "main_ok targets t" using main pump_done by (auto simp: main_ok_def)
    ultimately show ?thesis using pump_done handed pump_ok by (auto simp: program_inv_def)
  next
    case signal
    with inv main show ?thesis by (auto simp: program_inv_def main_ok_def)
  next
    case ingest_close
    with inv main show ?thesis by (auto simp: program_inv_def main_ok_def)
  next
    case close_returns
    with inv main show ?thesis by (auto simp: program_inv_def main_ok_def)
  qed
qed

interpretation program: invariant_system program_init "program_step parallel targets" "program_inv targets"
  for parallel targets
  by unfold_locales (auto intro: program_init_inv program_step_inv)

section \<open>Refinement\<close>

text \<open>The program without its channels and its main goroutine.\<close>

definition abs_program :: "program \<Rightarrow> mailpump" where
  "abs_program s = \<lparr>sys_recv = (\<lambda>i. ru_sys (pr_units s i)), sys_pump = pr_pump s\<rparr>"

lemma abs_init: "program_init s \<Longrightarrow> mailpump_init (abs_program s)"
proof -
  assume init: "program_init s"
  have "recv_init (ru_sys (pr_units s i))" for i
  proof -
    obtain cfg mr where "NewReceiver None cfg = Inr mr" "pr_units s i = new_unit mr"
      using init unfolding program_init_def by blast
    then show ?thesis by (auto simp: recv_init_def new_unit_def)
  qed
  with init show ?thesis by (simp add: mailpump_init_def abs_program_def program_init_def)
qed

lemma unit_step_abs:
  assumes "unit_step u u'"
  shows "ru_sys u' = ru_sys u \<or> recv_step (ru_sys u) (ru_sys u')"
  using assms by cases (auto intro: recv_turn_step recv_work_step)

lemma program_step_abs:
  assumes inv: "program_inv targets s" and step: "program_step parallel targets s t"
  shows "abs_program t = abs_program s \<or> mailpump_step targets (abs_program s) (abs_program t)"
proof -
  have inv': "program_inv targets t" by (rule program_step_inv [OF inv step])
  have handed: "set (dl_handed (pr_pump t) i) \<subseteq> set (sent_by (ru_sys (pr_units t i)))" for i
    using inv' by (simp add: program_inv_def)
  have pump_only: "mailpump_step targets (abs_program s) (abs_program t)"
    if "deliver_step True targets (pr_pump s) (pr_pump t)"
      and "\<And>i. ru_sys (pr_units t i) = ru_sys (pr_units s i)"
    using pump_moves [of targets "abs_program s" "pr_pump t"] that handed
    by (fastforce simp: abs_program_def sent_by_def)
  show ?thesis
    using step
  proof cases
    case (receiver i u)
    show ?thesis
    proof (cases "ru_sys u = ru_sys (pr_units s i)")
      case True
      with receiver(1) show ?thesis by (auto simp: abs_program_def fun_eq_iff)
    next
      case False
      then have "recv_step (ru_sys (pr_units s i)) (ru_sys u)" using unit_step_abs [OF receiver(3)] by auto
      moreover have "unit_ok (set (dl_acks (pr_pump t) i)) (pr_units t i)"
        using inv' by (simp add: program_inv_def)
      then have "acked (ru_sys u) \<subseteq> pump_acks (pr_pump s) i"
        using receiver(1) by (simp add: unit_ok_def pump_acks_def)
      ultimately have "mailpump_step targets (abs_program s)
        ((abs_program s)\<lparr>sys_recv := (sys_recv (abs_program s))(i := ru_sys u)\<rparr>)"
        by (intro receiver_moves) (auto simp: abs_program_def)
      moreover have "abs_program t = (abs_program s)\<lparr>sys_recv := (sys_recv (abs_program s))(i := ru_sys u)\<rparr>"
        using receiver(1) by (auto simp: abs_program_def fun_eq_iff)
      ultimately show ?thesis by simp
    qed
  next
    case (hand_out i msg ms)
    then have "deliver_step True targets (pr_pump s) (pr_pump t)"
      using deliver_step.hand [OF hand_out(2,4)] by simp
    then show ?thesis using pump_only hand_out(1) by auto
  next
    case (acknowledge i uid err ch)
    then have "deliver_step True targets (pr_pump s) (pr_pump t)"
      using acknowledge_step [OF acknowledge(2)] by simp
    then show ?thesis using pump_only acknowledge(1) by auto
  next
    case (pump d)
    then show ?thesis using pump_only by (auto simp: pump_inner_def)
  qed (auto simp: abs_program_def fun_eq_iff)
qed

lemma program_reachable_abs:
  "runs parallel targets s \<Longrightarrow> reachable mailpump_init (mailpump_step targets) (abs_program s)"
proof (induction rule: reachable.induct)
  case (reach_init s)
  then show ?case by (intro reachable.reach_init abs_init)
next
  case (reach_step s t)
  have "program_inv targets s" by (rule program.reachable_inv [OF reach_step(1)])
  from program_step_abs [OF this reach_step(2)] reach_step(3) show ?case
    by (auto intro: reachable.reach_step)
qed

end
