(* ===== verification/ProgramSafety.thy ===== *)
theory ProgramSafety
  imports Program
begin

text \<open>
  What the program guarantees from its start to its end, and runs of it with one source,
  which the theorems are applied to: a message travels from its mailbox to the other server
  and is deleted.
\<close>

section \<open>Runs with one source\<close>

text \<open>The states of a run in which only the first source does something.\<close>

definition ex_delivery ::
  "pump_phase \<Rightarrow> ingest_phase \<Rightarrow> imap_message list \<Rightarrow> Response list \<Rightarrow> imap_message list \<Rightarrow>
    request list \<Rightarrow> (u32 \<times> go_error option) list \<Rightarrow> delivery"
where
  "ex_delivery p g inc rs handed app acks =
     \<lparr>dl_ig = \<lparr>ig_shutdown = False, ig_incoming_closed = False, ig_phase = g\<rparr>, dl_pump = p,
      dl_incoming = (\<lambda>_. [])(0 := inc), dl_responses = (\<lambda>_. [])(0 := rs),
      dl_handed = (\<lambda>_. [])(0 := handed), dl_appended = app, dl_acks = (\<lambda>_. [])(0 := acks),
      dl_crashed = False\<rparr>"

definition ex_unit :: "recv_sys \<Rightarrow> imap_message list \<Rightarrow> ackRequest list \<Rightarrow> receiver_unit" where
  "ex_unit r out acks =
     \<lparr>ru_sys = r, ru_outgoing = out, ru_acks = \<lparr>cbuf = acks, ccap = 20, cclosed = False\<rparr>,
      ru_wantQuit = make_chan 1, ru_hasQuit = make_chan 1, ru_returned = False,
      ru_close = NotClosing\<rparr>"

definition ex_program :: "receiver_unit \<Rightarrow> delivery \<Rightarrow> program" where
  "ex_program u d =
     \<lparr>pr_units = (\<lambda>_. new_unit (ex_known None))(0 := u), pr_pump = d, pr_main = InCommand,
      pr_stopped = False, pr_ingest_quit = False\<rparr>"

lemma ex_delivery_simps [simp]:
  "ig_phase (dl_ig (ex_delivery p g inc rs handed app acks)) = g"
  "ig_shutdown (dl_ig (ex_delivery p g inc rs handed app acks)) = False"
  "dl_pump (ex_delivery p g inc rs handed app acks) = p"
  "dl_incoming (ex_delivery p g inc rs handed app acks) = (\<lambda>_. [])(0 := inc)"
  "dl_responses (ex_delivery p g inc rs handed app acks) = (\<lambda>_. [])(0 := rs)"
  "dl_handed (ex_delivery p g inc rs handed app acks) = (\<lambda>_. [])(0 := handed)"
  "dl_appended (ex_delivery p g inc rs handed app acks) = app"
  "dl_acks (ex_delivery p g inc rs handed app acks) = (\<lambda>_. [])(0 := acks)"
  by (simp_all add: ex_delivery_def)

lemma ex_unit_simps [simp]:
  "ru_sys (ex_unit r out acks) = r" "ru_outgoing (ex_unit r out acks) = out"
  "ru_acks (ex_unit r out acks) = \<lparr>cbuf = acks, ccap = 20, cclosed = False\<rparr>"
  by (simp_all add: ex_unit_def)

abbreviation ex_runs :: "string \<Rightarrow> string list \<Rightarrow> bool \<Rightarrow> receiver_unit \<Rightarrow> delivery \<Rightarrow> bool" where
  "ex_runs mb mbs parallel u d \<equiv> runs parallel (mb # mbs) (ex_program u d)"

lemma ex_program_init:
  "program_init (ex_program (ex_unit (recv_start (ex_known None)) [] [])
     (ex_delivery Selecting Waiting [] [] [] [] []))"
proof -
  have "ex_unit (recv_start (ex_known None)) [] [] = new_unit (ex_known None)"
    by (simp add: ex_unit_def new_unit_def make_chan_def ex_known_def)
  moreover have "deliver_init (ex_delivery Selecting Waiting [] [] [] [] [])"
    by (simp add: deliver_init_def ingest_NewClient_def ex_delivery_def fun_eq_iff)
  ultimately show ?thesis
    using ex_start by (auto simp: program_init_def ex_program_def)
qed

lemma ex_runs_start:
  "ex_runs mb mbs parallel (ex_unit (recv_start (ex_known None)) [] [])
     (ex_delivery Selecting Waiting [] [] [] [] [])"
  by (rule reach_init [of program_init, OF ex_program_init])

lemma ex_receiver_step:
  assumes "unit_step u u'"
  shows "program_step parallel (mb # mbs) (ex_program u d) (ex_program u' d)"
proof -
  have "program_step parallel (mb # mbs) (ex_program u d)
      ((ex_program u d)\<lparr>pr_units := (pr_units (ex_program u d))(0 := u')\<rparr>)"
    by (rule program_step.receiver) (use assms in \<open>simp_all add: ex_program_def\<close>)
  then show ?thesis by (simp add: ex_program_def)
qed

lemma ex_receiver:
  "ex_runs mb mbs parallel u d \<Longrightarrow> unit_step u u' \<Longrightarrow> ex_runs mb mbs parallel u' d"
  by (blast intro: reach_step ex_receiver_step)

lemma ex_pump:
  assumes "ex_runs mb mbs parallel u d" and "deliver_step True (mb # mbs) d d'"
    and "dl_handed d' = dl_handed d" and "dl_acks d' = dl_acks d"
    and "dl_pump d' \<noteq> Returned" and "\<not> ig_shutdown (dl_ig d')"
  shows "ex_runs mb mbs parallel u d'"
proof -
  have "pump_inner (mb # mbs) (ex_program u d) d'"
    using assms by (simp add: pump_inner_def ex_program_def)
  with assms(1) have "runs parallel (mb # mbs) ((ex_program u d)\<lparr>pr_pump := d'\<rparr>)"
    by (blast intro: reach_step program_step.pump)
  then show ?thesis by (simp add: ex_program_def)
qed

lemma ex_hand_out:
  assumes "ex_runs mb mbs parallel (ex_unit r (msg # ms) k) (ex_delivery p g inc rs handed app acks)"
    and "length inc < incoming_cap"
  shows "ex_runs mb mbs parallel (ex_unit r ms k) (ex_delivery p g (inc @ [msg]) rs (handed @ [msg]) app acks)"
proof -
  let ?s = "ex_program (ex_unit r (msg # ms) k) (ex_delivery p g inc rs handed app acks)"
  have step: "program_step parallel (mb # mbs) ?s
      (?s\<lparr>pr_units := (pr_units ?s)(0 := (pr_units ?s 0)\<lparr>ru_outgoing := ms\<rparr>),
         pr_pump := (pr_pump ?s)\<lparr>dl_incoming := push 0 msg (dl_incoming (pr_pump ?s)),
           dl_handed := push 0 msg (dl_handed (pr_pump ?s))\<rparr>\<rparr>)"
    by (rule program_step.hand_out) (use assms(2) in \<open>simp_all add: ex_program_def\<close>)
  from reach_step [OF assms(1), OF step] show ?thesis
    by (simp add: ex_program_def ex_delivery_def ex_unit_def push_def)
qed

lemma ex_acknowledge:
  assumes "ex_runs mb mbs parallel (ex_unit r out k) (ex_delivery (Acking 0 uid err) g inc rs handed app acks)"
    and "uid \<noteq> 0" and "length k < 20"
  shows "ex_runs mb mbs parallel (ex_unit r out (k @ [\<lparr>ar_UID = uid, ar_Error = err\<rparr>]))
    (ex_delivery Selecting g inc rs handed app (acks @ [(uid, err)]))"
proof -
  let ?s = "ex_program (ex_unit r out k) (ex_delivery (Acking 0 uid err) g inc rs handed app acks)"
  let ?ch = "\<lparr>cbuf = k @ [\<lparr>ar_UID = uid, ar_Error = err\<rparr>], ccap = 20, cclosed = False\<rparr>"
  have step: "program_step parallel (mb # mbs) ?s
      (?s\<lparr>pr_units := (pr_units ?s)(0 := (pr_units ?s 0)\<lparr>ru_acks := ?ch\<rparr>),
         pr_pump := (pr_pump ?s)\<lparr>dl_pump := Selecting, dl_acks := push 0 (uid, err) (dl_acks (pr_pump ?s))\<rparr>\<rparr>)"
    by (rule program_step.acknowledge)
      (use assms(2,3) in \<open>simp_all add: ex_program_def Ack_def chan_send_def\<close>)
  from reach_step [OF assms(1), OF step] show ?thesis
    by (simp add: ex_program_def ex_delivery_def ex_unit_def push_def)
qed

text \<open>The pump takes a message through to its acknowledgement.\<close>

definition sent_request :: "string \<Rightarrow> imap_message \<Rightarrow> request" where
  "sent_request mb msg = \<lparr>rq_Mailbox = mb, rq_UID = Uid msg, rq_Message = msg, rq_ch = 0\<rparr>"

lemma ex_taken:
  assumes "ex_runs mb mbs parallel u (ex_delivery Selecting Waiting (msg # inc) [] handed app acks)"
    and "Uid msg \<noteq> 0"
  shows "ex_runs mb mbs parallel u (ex_delivery (Acking 0 (Uid msg) None) Waiting inc [] handed
    (app @ [sent_request mb msg]) acks)"
proof -
  let ?req = "sent_request mb msg" and ?r = "append_response (sent_request mb msg) None"
  have req: "IngestMessage (dl_ig (ex_delivery Selecting Waiting (msg # inc) [] handed app acks)) mb msg 0 = Inr ?req"
    using assms(2) by (simp add: IngestMessage_def isShutdown_def sent_request_def)
  have "deliver_step True (mb # mbs) (ex_delivery Selecting Waiting (msg # inc) [] handed app acks)
      (ex_delivery (Sending ?req) Waiting inc [] handed app acks)"
    using deliver_step.take_message [OF _ _ _ multi_tick_recv,
        of "ex_delivery Selecting Waiting (msg # inc) [] handed app acks" 0 "mb # mbs" msg inc] req
    by (simp add: ex_delivery_def)
  from ex_pump [OF assms(1) this]
  have 1: "ex_runs mb mbs parallel u (ex_delivery (Sending ?req) Waiting inc [] handed app acks)" by simp
  have "deliver_step True (mb # mbs) (ex_delivery (Sending ?req) Waiting inc [] handed app acks)
      (ex_delivery Selecting (Appending ?req) inc [] handed app acks)"
    using deliver_step.send_taken [of "ex_delivery (Sending ?req) Waiting inc [] handed app acks" ?req]
    by (simp add: ex_delivery_def step_defs)
  from ex_pump [OF 1 this]
  have 2: "ex_runs mb mbs parallel u (ex_delivery Selecting (Appending ?req) inc [] handed app acks)" by simp
  have "deliver_step True (mb # mbs) (ex_delivery Selecting (Appending ?req) inc [] handed app acks)
      (ex_delivery Selecting (Responding ?req ?r) inc [] handed (app @ [?req]) acks)"
    using deliver_step.append [of "ex_delivery Selecting (Appending ?req) inc [] handed app acks" ?req True _ None]
    by (simp add: ex_delivery_def step_defs)
  from ex_pump [OF 2 this]
  have 3: "ex_runs mb mbs parallel u (ex_delivery Selecting (Responding ?req ?r) inc [] handed (app @ [?req]) acks)" by simp
  have "deliver_step True (mb # mbs) (ex_delivery Selecting (Responding ?req ?r) inc [] handed (app @ [?req]) acks)
      (ex_delivery Selecting Waiting inc [?r] handed (app @ [?req]) acks)"
    using deliver_step.respond [of "ex_delivery Selecting (Responding ?req ?r) inc [] handed (app @ [?req]) acks" ?req ?r True]
    by (simp add: ex_delivery_def step_defs push_def sent_request_def)
  from ex_pump [OF 3 this]
  have 4: "ex_runs mb mbs parallel u (ex_delivery Selecting Waiting inc [?r] handed (app @ [?req]) acks)" by simp
  have "deliver_step True (mb # mbs) (ex_delivery Selecting Waiting inc [?r] handed (app @ [?req]) acks)
      (ex_delivery (Acking 0 (Uid msg) None) Waiting inc [] handed (app @ [?req]) acks)"
    using deliver_step.take_response [OF _ _ _ multi_tick_ingest,
        of "ex_delivery Selecting Waiting inc [?r] handed (app @ [?req]) acks" 0 "mb # mbs" ?r "[]"]
    by (simp add: ex_delivery_def append_response_def sent_request_def)
  from ex_pump [OF 4 this] show ?thesis by simp
qed

section \<open>A message from source to destination\<close>

text \<open>A turn of the receiver in such a run; what comes through a channel is at its head.\<close>

lemma ex_unit_turn:
  assumes "tick order ev l = Completes (Continue l' sp)" and "loop_takes (ex_sys l w A n) ev ws"
    and "map_iteration (messages (rcv l')) order" and "\<forall>a. ev = EvAck a \<longrightarrow> k = a # k'"
    and "ev \<noteq> EvQuit" and "\<forall>a. ev \<noteq> EvAck a \<Longrightarrow> k' = k"
  shows "unit_step (ex_unit (ex_sys l w A n) [] k)
    (ex_unit (ex_sys l' (ws @ spawned_work sp) (A \<union> ev_acks ev) (Suc n))
      (drop (length (outSent (rcv l))) (outSent (rcv l'))) k')"
proof -
  let ?r = "ex_sys l' (ws @ spawned_work sp) (A \<union> ev_acks ev) (Suc n)"
  have turn: "recv_turn ev (ex_sys l w A n) ?r"
    by (rule recv_turnI [where order = order and ws = ws])
      (use assms(1-3) in \<open>simp_all add: ex_sys_def turned_def\<close>)
  have "take_event ev (ex_unit (ex_sys l w A n) [] k) = Some (ex_unit (ex_sys l w A n) [] k')"
    using assms(4-6) by (cases ev) (simp_all add: take_event_def chan_recv_def ex_unit_def)
  from unit_turn [OF _ this, of ?r] turn show ?thesis
    by (simp add: ex_unit_def sent_by_def ex_sys_def)
qed

lemma ex_unit_work:
  "recv_work r r' \<Longrightarrow> unit_step (ex_unit r out k) (ex_unit r' out k)"
  using unit_work [of "ex_unit r out k" r'] by (simp add: ex_unit_def)

lemma ex_work:
  assumes "go_step l g g' st"
  shows "recv_work (ex_sys l [g] A n) ((ex_sys l [g'] A n)\<lparr>stored := st\<rparr>)"
  using goes_on [of "ex_sys l [g] A n" "[]" g "[]" g' st] assms by (simp add: ex_sys_def)

lemma ex_unit_at:
  assumes "ex_runs mb mbs parallel (ex_unit r out k) d"
    and "unit_step (ex_unit r out k) (ex_unit (ex_sys l' w' A' n') out' k')"
    and "n' = n''" and "w' = w''" and "A' = A''" and "out' = out''"
  shows "ex_runs mb mbs parallel (ex_unit (ex_sys l' w'' A'' n'') out'' k') d"
  using ex_receiver [OF assms(1,2)] assms(3-6) by simp

lemma ex_fetched_run:
  "ex_runs mb mbs parallel (ex_unit (ex_sys (ex_fetching None) [FetchSending ex_result] {} 1) [] [])
     (ex_delivery Selecting Waiting [] [] [] [] [])"
proof -
  have start: "recv_start (ex_known None) = ex_sys (run_init (ex_known None)) [] {} 0"
    by (simp add: recv_start_def ex_sys_def)
  have "ex_runs mb mbs parallel (ex_unit (ex_sys (ex_fetching None) [FetchRunning []] {} 1) [] [])
      (ex_delivery Selecting Waiting [] [] [] [] [])"
    by (rule ex_unit_at [OF ex_runs_start [unfolded start] ex_unit_turn [OF ex_turn1 ex_takes_any(1)]])
      (simp_all add: map_iteration_def spawned_work_def ex_states)
  moreover have "go_step (ex_fetching None) (FetchRunning []) (FetchSending ex_result) {}"
    by (rule fetch_result [of ex_server _ _ "[7]" False]) (use ex_fetch in \<open>simp add: ex_states\<close>)
  from ex_unit_work [OF ex_work [OF this]]
  have "unit_step (ex_unit (ex_sys (ex_fetching None) [FetchRunning []] {} 1) [] [])
      (ex_unit (ex_sys (ex_fetching None) [FetchSending ex_result] {} 1) [] [])"
    by (simp add: ex_sys_def)
  ultimately show ?thesis by (rule ex_receiver)
qed

lemma ex_fetched_turn:
  "unit_step (ex_unit (ex_sys (ex_fetching None) [FetchSending ex_result] {} 1) [] [])
     (ex_unit (ex_sys (ex_fetching (Some StateUnacked)) [Finishing OperationFetchFinish] {} 2) [ex_msg] [])"
proof -
  have "unit_step (ex_unit (ex_sys (ex_fetching None) [FetchSending ex_result] {} 1) [] [])
      (ex_unit (ex_sys (ex_fetching (Some StateUnacked)) ([Finishing OperationFetchFinish] @ spawned_work None)
        ({} \<union> ev_acks (EvFetchResult ex_result [7])) (Suc 1))
        (drop (length (outSent (rcv (ex_fetching None)))) (outSent (rcv (ex_fetching (Some StateUnacked))))) [])"
    by (rule ex_unit_turn [OF ex_turn2 ex_takes [where ws = "[]" and vs = "[]", simplified]])
      (simp_all add: map_iteration_def ex_states ex_result_def)
  then show ?thesis by (simp add: spawned_work_def ex_states numeral_2_eq_2)
qed

lemma ex_handed_run:
  "ex_runs mb mbs parallel
     (ex_unit (ex_sys (ex_fetching (Some StateUnacked)) [Finishing OperationFetchFinish] {} 2) [ex_msg] [])
     (ex_delivery Selecting Waiting [] [] [] [] [])"
  by (rule ex_receiver [OF ex_fetched_run ex_fetched_turn])

lemma ex_acked_run:
  "ex_runs mb mbs parallel
     (ex_unit (ex_sys (ex_acked StateNone [OperationNone]) [] {7} 4) [] [])
     (ex_delivery Selecting Waiting [] [] [ex_msg] [sent_request mb ex_msg] [(7, None)])"
proof -
  let ?d = "ex_delivery Selecting Waiting [] [] [ex_msg] [sent_request mb ex_msg] [(7, None)]"
  have uid: "Uid ex_msg = 7" by (simp add: ex_msg_def)
  from ex_hand_out [OF ex_handed_run]
  have "ex_runs mb mbs parallel
      (ex_unit (ex_sys (ex_fetching (Some StateUnacked)) [Finishing OperationFetchFinish] {} 2) [] [])
      (ex_delivery Selecting Waiting [ex_msg] [] [ex_msg] [] [])" by simp
  from ex_acknowledge [OF ex_taken [OF this]]
  have "ex_runs mb mbs parallel
      (ex_unit (ex_sys (ex_fetching (Some StateUnacked)) [Finishing OperationFetchFinish] {} 2) [] [ex_ack]) ?d"
    by (simp add: uid ex_ack_def)
  then have "ex_runs mb mbs parallel
      (ex_unit (ex_sys (ex_acked StateInFetch []) [Finishing OperationFetchFinish] {7} 3) [] []) ?d"
    by (rule ex_unit_at [OF _ ex_unit_turn [OF ex_turn3 ex_takes_any(3)]])
      (simp_all add: map_iteration_def spawned_work_def ex_states ex_ack_def)
  moreover have "recv_work (ex_sys (ex_acked StateInFetch []) [Finishing OperationFetchFinish] {7} 3)
      (ex_sys (ex_acked StateInFetch [OperationFetchFinish]) [] {7} 3)"
    using finishes [of "ex_sys (ex_acked StateInFetch []) [Finishing OperationFetchFinish] {7} 3" "[]" _ "[]"]
    by (simp add: ex_sys_def ex_states chan_send_def)
  ultimately have "ex_runs mb mbs parallel
      (ex_unit (ex_sys (ex_acked StateInFetch [OperationFetchFinish]) [] {7} 3) [] []) ?d"
    by (blast intro: ex_receiver ex_unit_work)
  then show ?thesis
    by (rule ex_unit_at [OF _ ex_unit_turn [OF ex_turn4 ex_takes_any(2)]])
      (simp_all add: map_iteration_def spawned_work_def ex_states)
qed

lemma ex_deleted_run:
  "ex_runs mb mbs parallel (ex_unit ex_deleted [] [])
     (ex_delivery Selecting Waiting [] [] [ex_msg] [sent_request mb ex_msg] [(7, None)])"
proof -
  let ?d = "ex_delivery Selecting Waiting [] [] [ex_msg] [sent_request mb ex_msg] [(7, None)]"
  have "ex_runs mb mbs parallel (ex_unit (ex_sys ex_deleting [DeleteRunning [7 \<mapsto> 0]] {7} 5) [] []) ?d"
    by (rule ex_unit_at [OF ex_acked_run ex_unit_turn [OF ex_turn5 ex_takes_any(2)]])
      (simp_all add: map_iteration_def spawned_work_def ex_states)
  moreover have "go_step ex_deleting (DeleteRunning [7 \<mapsto> 0]) (DeleteSending []) {7}"
  proof -
    have "store_uids [CUidStore (AddNum [7] []) ''+FLAGS'' [DeletedFlag], CExpunge] = {7}"
      by (auto simp: Contains_AddNum)
    with delete_runs [of "[7 \<mapsto> 0]" "[7]" ex_server ex_deleting] ex_delete_fails show ?thesis
      by (simp add: map_iteration_def ex_states)
  qed
  ultimately show ?thesis
    using ex_receiver ex_unit_work [OF ex_work] by (simp add: ex_deleted_def)
qed

end
