(* ===== verification/ProgramClose.thy ===== *)
theory ProgramClose
  imports ProgramSafety
begin

text \<open>
  The end of the program: when \<open>Close\<close> comes back. Every receiver that can place the
  messages it has still to hand out exits and is closed, whatever it is doing; the ingest
  client ends if there is room for its last response; and if not, nothing ever ends.
\<close>

section \<open>A receiver that is being closed\<close>

text \<open>Once \<open>Close\<close> waits, its request is in the channel or known to the loop.\<close>

definition asked :: "receiver_unit \<Rightarrow> bool" where
  "asked u \<longleftrightarrow> recv_reachable (ru_sys u)
     \<and> (ru_close u = AwaitingQuit \<and> status (ru_sys u) = Running
          \<and> 4 * ticks (ru_sys u) < (2 :: nat) ^ 64 \<longrightarrow>
        cbuf (ru_wantQuit u) \<noteq> [] \<or> flagged WantQuit (loop (ru_sys u)))"

lemma take_event_quit:
  assumes "take_event ev u = Some u'"
  shows "ev \<noteq> EvQuit \<Longrightarrow> ru_wantQuit u' = ru_wantQuit u"
  using assms by (cases ev)
    (auto simp: take_event_def split: outcome.splits option.splits prod.splits if_splits)

lemma unit_step_asked:
  assumes "asked u" and step: "unit_step u u'"
  shows "asked u'"
proof -
  have reach: "recv_reachable (ru_sys u')"
    using unit_step_abs [OF step] assms(1) by (auto simp: asked_def intro: reach_step)
  show ?thesis
    using step
  proof cases
    case (unit_turn ev u'' r)
    note f = take_event_frame [OF unit_turn(3)]
    have "cbuf (ru_wantQuit u') \<noteq> [] \<or> flagged WantQuit (loop (ru_sys u'))"
      if "ru_close u' = AwaitingQuit" "status (ru_sys u') = Running"
        "4 * ticks (ru_sys u') < (2 :: nat) ^ 64"
    proof (cases "ev = EvQuit \<or> flagged WantQuit (loop (ru_sys u))")
      case True
      have "status (ru_sys u) = Running" by (rule turn_running [OF unit_turn(4)])
      moreover have bound: "4 * Suc (ticks (ru_sys u)) < (2 :: nat) ^ 64"
        using that(3) turn_ticks [OF unit_turn(4)] unit_turn(1) by simp
      ultimately have "running_ok (ru_sys u)"
        using reachable_ok [of "ru_sys u"] assms(1) by (auto simp: asked_def recv_ok_def)
      from flag_kept [OF this bound unit_turn(4) _ True] that(2) unit_turn(1) show ?thesis by simp
    next
      case False
      then have "cbuf (ru_wantQuit u) \<noteq> []"
        using assms(1) that f turn_ticks [OF unit_turn(4)] turn_running [OF unit_turn(4)] unit_turn(1)
        by (simp add: asked_def)
      with take_event_quit [OF unit_turn(3)] False unit_turn(1) show ?thesis by simp
    qed
    with reach show ?thesis by (simp add: asked_def)
  next
    case (unit_work r)
    have "flagged WantQuit (loop r) = flagged WantQuit (loop (ru_sys u))"
      using unit_work(2) by cases (auto simp: flagged_def)
    with assms(1) work_frame [OF unit_work(2)] unit_work(1) reach show ?thesis by (simp add: asked_def)
  next
    case (close_writes ch)
    with reach show ?thesis by (auto simp: asked_def chan_send_def split: if_splits)
  qed (use assms(1) reach in \<open>simp_all add: asked_def\<close>)
qed

lemma nothing_out: "ru_outgoing u = [] \<Longrightarrow> u\<lparr>ru_outgoing := []\<rparr> = u"
  by (cases u) simp

text \<open>Quiet steps of the receiver are steps of it with its channels.\<close>

lemma quiet_unit_step:
  assumes "quiet_step (ru_sys u) r" and "ru_outgoing u = []"
  shows "unit_step u (u\<lparr>ru_sys := r\<rparr>)"
proof -
  consider (turn) ev where "quiet ev" "recv_turn ev (ru_sys u) r" "sent_by r = sent_by (ru_sys u)"
    | (move) "recv_work (ru_sys u) r"
    using assms(1) by (auto simp: quiet_step_def intro: quiet_work_recv)
  then show ?thesis
  proof cases
    case turn
    have "take_event ev u = Some u" using turn(1) by (cases ev) (simp_all add: take_event_def)
    from unit_turn [OF assms(2) this turn(2)] turn(3) show ?thesis
      using nothing_out [of "u\<lparr>ru_sys := r\<rparr>"] assms(2) by simp
  qed (rule unit_work)
qed

lemma quiet_unit_steps:
  assumes "quietly (ru_sys u) r" and "ru_outgoing u = []"
  shows "unit_step\<^sup>*\<^sup>* u (u\<lparr>ru_sys := r\<rparr>)"
  using assms
proof (induction rule: rtranclp_induct)
  case (step y z)
  from quiet_unit_step [of "u\<lparr>ru_sys := y\<rparr>" z] step.hyps(2) assms(2)
  have "unit_step (u\<lparr>ru_sys := y\<rparr>) (u\<lparr>ru_sys := z\<rparr>)" by simp
  with step.IH [OF assms(2)] show ?case by (rule rtranclp.rtrancl_into_rtrancl)
qed simp

text \<open>A bound that leaves room for what the receiver has to do until it exits.\<close>

definition far_from_wrapping :: "receiver_unit \<Rightarrow> bool" where
  "far_from_wrapping u \<longleftrightarrow> 4 * (ticks (ru_sys u) + results_left (ru_sys u) + 6) < (2 :: nat) ^ 64"

lemma flagged_exits:
  assumes "asked u" and "status (ru_sys u) = Running" and "flagged WantQuit (loop (ru_sys u))"
    and "4 * (ticks (ru_sys u) + results_left (ru_sys u) + 5) < (2 :: nat) ^ 64" and "ru_outgoing u = []"
  obtains r where "unit_step\<^sup>*\<^sup>* u (u\<lparr>ru_sys := r\<rparr>)" and "status r = Exited"
proof -
  have "recv_reachable (ru_sys u)" using assms(1) by (simp add: asked_def)
  from quitting_exits [OF this assms(4,2,3)] quiet_unit_steps [OF _ assms(5)] that show thesis by blast
qed

lemma chan_one_send: "ccap c = 1 \<Longrightarrow> \<not> cclosed c \<Longrightarrow> cbuf c = [] \<Longrightarrow>
    chan_send x c = Completes (c\<lparr>cbuf := [x]\<rparr>)"
  by (simp add: chan_send_def)

lemma unit_exits:
  assumes ok: "unit_ok A u" and "asked u" and close: "ru_close u = AwaitingQuit"
    and far: "far_from_wrapping u" and out: "ru_outgoing u = []"
  obtains u' where "unit_step\<^sup>*\<^sup>* u u'" and "status (ru_sys u') = Exited"
    and "ru_close u' = AwaitingQuit" and "ru_outgoing u' = []"
proof (cases "status (ru_sys u) = Running")
  case True
  have reach: "recv_reachable (ru_sys u)" using assms(2) by (simp add: asked_def)
  have running: "running_ok (ru_sys u)"
    using reachable_ok [OF reach] far True by (auto simp: far_from_wrapping_def recv_ok_def)
  show thesis
  proof (cases "flagged WantQuit (loop (ru_sys u))")
    case flagged: True
    obtain r where "unit_step\<^sup>*\<^sup>* u (u\<lparr>ru_sys := r\<rparr>)" "status r = Exited"
      using flagged_exits [OF assms(2) True flagged _ out] far by (auto simp: far_from_wrapping_def)
    with that [of "u\<lparr>ru_sys := r\<rparr>"] close out show thesis by simp
  next
    case False
    then obtain q where q: "cbuf (ru_wantQuit u) = q"  "q \<noteq> []"
      using assms(2) True far close by (auto simp: asked_def far_from_wrapping_def)
    then obtain c where c: "take_event EvQuit u = Some (u\<lparr>ru_wantQuit := c\<rparr>)"
      by (cases q) (auto simp: take_event_def chan_recv_def)
    obtain r where r: "recv_turn EvQuit (ru_sys u) r" "status r = Exited \<or> status r = Running"
      "ticks r = Suc (ticks (ru_sys u))" "results_left r = results_left (ru_sys u)"
      "sent_by r = sent_by (ru_sys u)"
      using quit_turn [OF running True] far by (auto simp: far_from_wrapping_def)
    let ?u = "u\<lparr>ru_wantQuit := c, ru_sys := r\<rparr>"
    have step: "unit_step u ?u"
      using unit_turn [OF out c r(1)] r(5) nothing_out [of ?u] out by simp
    show thesis
    proof (cases "status r = Exited")
      case True
      with that [of ?u] step close out show thesis by auto
    next
      case running': False
      have "4 * Suc (ticks (ru_sys u)) < (2 :: nat) ^ 64" using far by (simp add: far_from_wrapping_def)
      then have "flagged WantQuit (loop r)"
        using flag_kept [OF running _ r(1)] r(2) running' by simp
      with flagged_exits [of ?u] unit_step_asked [OF assms(2) step] r(2-4) running' far out
      obtain r' where "unit_step\<^sup>*\<^sup>* ?u (?u\<lparr>ru_sys := r'\<rparr>)" "status r' = Exited"
        by (auto simp: far_from_wrapping_def)
      with that [of "?u\<lparr>ru_sys := r'\<rparr>"] step close out show thesis
        by (simp add: converse_rtranclp_into_rtranclp)
    qed
  qed
next
  case False
  have "4 * ticks (ru_sys u) < (2 :: nat) ^ 64" using far by (simp add: far_from_wrapping_def)
  then have "status (ru_sys u) = Exited"
    using reachable_ok [of "ru_sys u"] assms(2) False by (auto simp: asked_def recv_ok_def)
  with that [of u] close out show thesis by simp
qed

lemma unit_closes:
  assumes ok: "unit_ok A u" and asked: "asked u" and close: "ru_close u \<noteq> NotClosing"
    and far: "far_from_wrapping u" and out: "ru_outgoing u = []"
  obtains u' where "unit_step\<^sup>*\<^sup>* u u'" and "ru_close u' = CloseReturned"
proof -
  have closes: "\<exists>u'. unit_step\<^sup>*\<^sup>* v u' \<and> ru_close u' = CloseReturned"
    if v: "unit_ok A v" "asked v" "ru_close v = AwaitingQuit" "far_from_wrapping v" "ru_outgoing v = []" for v
  proof -
    obtain w where w: "unit_step\<^sup>*\<^sup>* v w" "status (ru_sys w) = Exited" "ru_close w = AwaitingQuit"
      using unit_exits [OF v] by metis
    have "unit_ok A w" using w(1) v(1) by (induction rule: rtranclp_induct) (auto intro: unit_step_ok)
    then have hq: "ccap (ru_hasQuit w) = 1" "\<not> cclosed (ru_hasQuit w)"
      "cbuf (ru_hasQuit w) = (if ru_returned w then [()] else [])"
      using w(3) by (auto simp: unit_ok_def close_ok_def)
    obtain x where x: "unit_step\<^sup>*\<^sup>* w x" "cbuf (ru_hasQuit x) = [()]" "ru_close x = AwaitingQuit"
    proof (cases "ru_returned w")
      case True
      with hq w(3) that [of w] show thesis by simp
    next
      case False
      with hq have "cbuf (ru_hasQuit w) = []" by simp
      from run_returns [OF w(2) False chan_one_send [OF hq(1,2) this]] w(3)
        that [of "w\<lparr>ru_hasQuit := (ru_hasQuit w)\<lparr>cbuf := [()]\<rparr>, ru_returned := True\<rparr>"]
      show thesis by (simp add: r_into_rtranclp)
    qed
    then obtain ch where "chan_recv (ru_hasQuit x) = Completes (Some (), ch)"
      by (simp add: chan_recv_def)
    note close_reads [OF x(3) this]
    moreover have "unit_step (x\<lparr>ru_hasQuit := ch, ru_close := ClientLogout\<rparr>)
        (x\<lparr>ru_hasQuit := ch, ru_close := ClientLogout\<rparr>\<lparr>ru_close := CloseReturned\<rparr>)"
      by (rule close_logs_out) simp
    ultimately have "unit_step\<^sup>*\<^sup>* v
        (x\<lparr>ru_hasQuit := ch, ru_close := ClientLogout\<rparr>\<lparr>ru_close := CloseReturned\<rparr>)"
      using w(1) x(1) by (meson rtranclp.rtrancl_into_rtrancl rtranclp_trans)
    then show ?thesis by (intro exI conjI) (assumption, simp)
  qed
  show thesis
  proof (cases "ru_close u")
    case WritingQuit
    then have "ccap (ru_wantQuit u) = 1" "\<not> cclosed (ru_wantQuit u)" "cbuf (ru_wantQuit u) = []"
      using ok by (auto simp: unit_ok_def close_ok_def)
    from close_writes [OF WritingQuit chan_one_send [OF this]] obtain c where
      step: "unit_step u (u\<lparr>ru_wantQuit := c, ru_close := AwaitingQuit\<rparr>)" by blast
    let ?v = "u\<lparr>ru_wantQuit := c, ru_close := AwaitingQuit\<rparr>"
    have "far_from_wrapping ?v" using far by (simp add: far_from_wrapping_def)
    with closes [of ?v] unit_step_ok [OF ok step] unit_step_asked [OF asked step] out step that
    show thesis by (auto intro: converse_rtranclp_into_rtranclp)
  next
    case AwaitingQuit
    with closes [of u] ok asked far out that show thesis by blast
  next
    case ClientLogout
    from close_logs_out [OF this] that [of "u\<lparr>ru_close := CloseReturned\<rparr>"] show thesis
      by (simp add: r_into_rtranclp)
  qed (use close that [of u] in simp_all)
qed

section \<open>Closing the receivers of the program\<close>

text \<open>The invariants of the program the proofs below use.\<close>

definition closing_inv :: "string list \<Rightarrow> program \<Rightarrow> bool" where
  "closing_inv targets s \<longleftrightarrow> program_inv targets s \<and> (\<forall>i. asked (pr_units s i))
     \<and> (\<forall>i. length (dl_incoming (pr_pump s) i) \<le> incoming_cap)"

lemma deliver_incoming:
  assumes "deliver_step orderly targets d d'"
  shows "\<forall>i. length (dl_incoming d' i) \<le> max incoming_cap (length (dl_incoming d i))"
  using assms by cases auto

lemma closing_inv_init: "program_init s \<Longrightarrow> closing_inv targets s"
proof -
  assume init: "program_init s"
  have "asked (pr_units s i)" for i
  proof -
    obtain cfg mr where "NewReceiver None cfg = Inr mr" "pr_units s i = new_unit mr"
      using init unfolding program_init_def by blast
    moreover from this have "recv_reachable (recv_start mr)"
      by (intro reach_init) (auto simp: recv_init_def)
    ultimately show ?thesis by (simp add: asked_def new_unit_def)
  qed
  moreover have "dl_incoming (pr_pump s) i = []" for i
    using init by (auto simp: program_init_def deliver_init_def)
  ultimately show ?thesis using program_init_inv [OF init] by (simp add: closing_inv_def)
qed

lemma closing_inv_step:
  assumes inv: "closing_inv targets s" and step: "program_step parallel targets s t"
  shows "closing_inv targets t"
proof -
  have asked: "asked (pr_units s i)" and cap: "length (dl_incoming (pr_pump s) i) \<le> incoming_cap"
    and pinv: "program_inv targets s" for i
    using inv by (simp_all add: closing_inv_def)
  have "(\<forall>i. asked (pr_units t i)) \<and> (\<forall>i. length (dl_incoming (pr_pump t) i) \<le> incoming_cap)"
    using step
  proof cases
    case (receiver i u)
    with unit_step_asked [OF asked receiver(3)] asked cap show ?thesis by simp
  next
    case (hand_out i msg ms)
    with asked cap show ?thesis by (auto simp: asked_def)
  next
    case (acknowledge i uid err ch)
    with asked cap show ?thesis by (auto simp: asked_def)
  next
    case (pump d)
    have "length (dl_incoming d i) \<le> incoming_cap" for i
      using deliver_incoming [of True targets "pr_pump s" d] pump(2) cap [of i]
      by (auto simp: pump_inner_def dest: spec [of _ i])
    with asked pump(1) show ?thesis by simp
  next
    case pump_done
    with asked cap show ?thesis by (auto simp: asked_def)
  qed (use asked cap in simp_all)
  with program_step_inv [OF pinv step] show ?thesis by (simp add: closing_inv_def)
qed

interpretation closing: invariant_system program_init "program_step parallel targets" "closing_inv targets"
  for parallel targets
  by unfold_locales (auto intro: closing_inv_init closing_inv_step)

text \<open>
  A receiver is free when the messages it still hands out have room in its channel, the
  ingest client when the response it will write has.
\<close>

definition receiver_free :: "program \<Rightarrow> nat \<Rightarrow> bool" where
  "receiver_free s i \<longleftrightarrow>
     length (dl_incoming (pr_pump s) i) + length (ru_outgoing (pr_units s i)) \<le> incoming_cap"

definition ingest_free :: "delivery \<Rightarrow> bool" where
  "ingest_free d \<longleftrightarrow>
     (case ig_phase (dl_ig d) of
        Appending req \<Rightarrow> length (dl_responses d (rq_ch req)) < responses_cap
      | Responding req r \<Rightarrow> length (dl_responses d (rq_ch req)) < responses_cap
      | DrainResponding req r \<Rightarrow> length (dl_responses d (rq_ch req)) < responses_cap
      | _ \<Rightarrow> True)"

lemma ingest_free_cong:
  "dl_ig d' = dl_ig d \<Longrightarrow> dl_responses d' = dl_responses d \<Longrightarrow> ingest_free d' = ingest_free d"
  by (cases "ig_phase (dl_ig d)") (simp_all add: ingest_free_def)

text \<open>
  Steps of the program that no receiver's goroutines and clients take part in: the receivers
  stay as they are, and a \<open>Close\<close> that is about to log out stays there.
\<close>

definition keeps_client :: "receiver_unit \<Rightarrow> receiver_unit \<Rightarrow> bool" where
  "keeps_client u u' \<longleftrightarrow> ru_sys u' = ru_sys u \<and> (ru_close u = ClientLogout \<longrightarrow> ru_close u' = ClientLogout)"

lemma keeps_client_refl [simp]: "keeps_client u u"
  by (simp add: keeps_client_def)

definition apart_step :: "bool \<Rightarrow> string list \<Rightarrow> program \<Rightarrow> program \<Rightarrow> bool" where
  "apart_step parallel targets s t \<longleftrightarrow>
     program_step parallel targets s t \<and> (\<forall>i. keeps_client (pr_units s i) (pr_units t i))"

abbreviation apart_steps :: "bool \<Rightarrow> string list \<Rightarrow> program \<Rightarrow> program \<Rightarrow> bool" where
  "apart_steps parallel targets \<equiv> (apart_step parallel targets)\<^sup>*\<^sup>*"

lemma apart_steps_run: "apart_steps parallel targets s t \<Longrightarrow> (program_step parallel targets)\<^sup>*\<^sup>* s t"
  by (rule rtranclp_mono [THEN predicate2D]) (auto simp: apart_step_def)

text \<open>Nothing but unit \<open>i\<close> and its channel changes.\<close>

definition only :: "nat \<Rightarrow> program \<Rightarrow> program \<Rightarrow> bool" where
  "only i s t \<longleftrightarrow> pr_main t = pr_main s \<and> dl_pump (pr_pump t) = dl_pump (pr_pump s)
     \<and> dl_ig (pr_pump t) = dl_ig (pr_pump s) \<and> dl_responses (pr_pump t) = dl_responses (pr_pump s)
     \<and> (\<forall>j. j \<noteq> i \<longrightarrow> pr_units t j = pr_units s j
          \<and> dl_incoming (pr_pump t) j = dl_incoming (pr_pump s) j)"

lemma only_trans: "only i s t \<Longrightarrow> only i t u \<Longrightarrow> only i s u"
  by (simp add: only_def)

lemma unit_runs:
  assumes "unit_step\<^sup>*\<^sup>* (pr_units s i) u" and "i < length targets"
  shows "(program_step parallel targets)\<^sup>*\<^sup>* s (s\<lparr>pr_units := (pr_units s)(i := u)\<rparr>)"
  using assms(1)
proof (induction rule: rtranclp_induct)
  case base
  have "s\<lparr>pr_units := (pr_units s)(i := pr_units s i)\<rparr> = s" by (cases s) simp
  then show ?case by simp
next
  case (step y z)
  let ?s = "s\<lparr>pr_units := (pr_units s)(i := y)\<rparr>"
  have "program_step parallel targets ?s (?s\<lparr>pr_units := (pr_units ?s)(i := z)\<rparr>)"
    by (rule program_step.receiver) (use assms(2) step.hyps(2) in simp_all)
  then have "program_step parallel targets ?s (s\<lparr>pr_units := (pr_units s)(i := z)\<rparr>)" by simp
  with step.IH show ?case by (rule rtranclp.rtrancl_into_rtrancl)
qed

lemma hands_all_out:
  assumes "i < length targets" and "receiver_free s i"
  shows "\<exists>t. apart_steps parallel targets s t \<and> only i s t
    \<and> pr_units t i = (pr_units s i)\<lparr>ru_outgoing := []\<rparr>"
  using assms(2)
proof (induction "ru_outgoing (pr_units s i)" arbitrary: s)
  case Nil
  then have "only i s s \<and> pr_units s i = (pr_units s i)\<lparr>ru_outgoing := []\<rparr>"
    using nothing_out [of "pr_units s i"] by (simp add: only_def)
  then show ?case by blast
next
  case (Cons msg ms)
  let ?t = "s\<lparr>pr_units := (pr_units s)(i := (pr_units s i)\<lparr>ru_outgoing := ms\<rparr>),
    pr_pump := (pr_pump s)\<lparr>dl_incoming := push i msg (dl_incoming (pr_pump s)),
      dl_handed := push i msg (dl_handed (pr_pump s))\<rparr>\<rparr>"
  have room: "length (dl_incoming (pr_pump s) i) < incoming_cap"
    using Cons.prems Cons.hyps(2) [symmetric] by (simp add: receiver_free_def)
  have "program_step parallel targets s ?t"
    by (rule program_step.hand_out [OF assms(1) Cons.hyps(2) [symmetric] room])
  then have step: "apart_step parallel targets s ?t" by (simp add: apart_step_def keeps_client_def)
  have only: "only i s ?t" by (simp add: only_def)
  have "receiver_free ?t i"
    using Cons.prems Cons.hyps(2) [symmetric] by (simp add: receiver_free_def)
  with Cons.hyps(1) [of ?t] obtain u where u: "apart_steps parallel targets ?t u" "only i ?t u"
    "pr_units u i = (pr_units ?t i)\<lparr>ru_outgoing := []\<rparr>" by auto
  have "apart_steps parallel targets s u" using step u(1) by (rule converse_rtranclp_into_rtranclp)
  moreover have "pr_units u i = (pr_units s i)\<lparr>ru_outgoing := []\<rparr>" using u(3) by simp
  ultimately show ?case using only_trans [OF only u(2)] by blast
qed

lemma receiver_closes:
  assumes inv: "closing_inv targets s" and main: "pr_main s = InClose" and i: "i < length targets"
    and free: "receiver_free s i" and far: "far_from_wrapping (pr_units s i)"
  shows "\<exists>t. (program_step parallel targets)\<^sup>*\<^sup>* s t \<and> only i s t \<and> ru_close (pr_units t i) = CloseReturned"
proof -
  obtain t where "apart_steps parallel targets s t" and t: "only i s t"
    "pr_units t i = (pr_units s i)\<lparr>ru_outgoing := []\<rparr>"
    using hands_all_out [OF i free] by blast
  note t = apart_steps_run [OF this(1)] t
  have inv': "closing_inv targets t" by (rule closing.steps_inv [OF t(1) inv])
  then have ok: "unit_ok (set (dl_acks (pr_pump t) i)) (pr_units t i)" "asked (pr_units t i)"
    and "main_ok targets t"
    by (simp_all add: closing_inv_def program_inv_def)
  then have "ru_close (pr_units t i) \<noteq> NotClosing"
    using t(2) main i by (auto simp: main_ok_def only_def)
  moreover have "far_from_wrapping (pr_units t i)" using far t(3) by (simp add: far_from_wrapping_def)
  ultimately obtain u where u: "unit_step\<^sup>*\<^sup>* (pr_units t i) u" "ru_close u = CloseReturned"
    using unit_closes [OF ok] t(3) by auto
  let ?t = "t\<lparr>pr_units := (pr_units t)(i := u)\<rparr>"
  have "(program_step parallel targets)\<^sup>*\<^sup>* s ?t"
    using t(1) unit_runs [OF u(1) i] by (rule rtranclp_trans)
  moreover have "only i s ?t" using t(2) by (simp add: only_def)
  ultimately show ?thesis using u(2) by (intro exI [of _ ?t]) simp
qed

lemma receivers_close:
  assumes inv: "closing_inv targets s" and main: "pr_main s = InClose"
    and each: "\<forall>i < length targets. receiver_free s i \<and> far_from_wrapping (pr_units s i)"
    and "k \<le> length targets"
  shows "\<exists>t. (program_step parallel targets)\<^sup>*\<^sup>* s t \<and> pr_main t = InClose
    \<and> dl_pump (pr_pump t) = dl_pump (pr_pump s) \<and> dl_ig (pr_pump t) = dl_ig (pr_pump s)
    \<and> dl_responses (pr_pump t) = dl_responses (pr_pump s)
    \<and> (\<forall>i < k. ru_close (pr_units t i) = CloseReturned)
    \<and> (\<forall>i \<ge> k. pr_units t i = pr_units s i \<and> dl_incoming (pr_pump t) i = dl_incoming (pr_pump s) i)"
  using assms(4)
proof (induction k)
  case 0
  with main show ?case by blast
next
  case (Suc k)
  then obtain t where t: "(program_step parallel targets)\<^sup>*\<^sup>* s t" "pr_main t = InClose"
    "dl_pump (pr_pump t) = dl_pump (pr_pump s)" "dl_ig (pr_pump t) = dl_ig (pr_pump s)"
    "dl_responses (pr_pump t) = dl_responses (pr_pump s)"
    "\<forall>i < k. ru_close (pr_units t i) = CloseReturned"
    "\<forall>i \<ge> k. pr_units t i = pr_units s i \<and> dl_incoming (pr_pump t) i = dl_incoming (pr_pump s) i"
    by auto
  have k: "k < length targets" "receiver_free t k" "far_from_wrapping (pr_units t k)"
    using Suc.prems each t(7) by (simp_all add: receiver_free_def)
  obtain u where u: "(program_step parallel targets)\<^sup>*\<^sup>* t u" "only k t u"
    "ru_close (pr_units u k) = CloseReturned"
    using receiver_closes [OF closing.steps_inv [OF t(1) inv] t(2) k] by blast
  have "\<forall>i < Suc k. ru_close (pr_units u i) = CloseReturned"
    using u(2,3) t(6) by (auto simp: only_def less_Suc_eq)
  moreover have "(program_step parallel targets)\<^sup>*\<^sup>* s u" using t(1) u(1) by (rule rtranclp_trans)
  ultimately show ?case using u(2) t(2-5,7) by (intro exI [of _ u]) (auto simp: only_def)
qed

section \<open>Closing the ingest client\<close>

definition ending :: "ingest_phase \<Rightarrow> program \<Rightarrow> bool" where
  "ending p s \<longleftrightarrow> pr_main s = InClose \<and> dl_pump (pr_pump s) = Returned \<and> pr_ingest_quit s
     \<and> ig_phase (dl_ig (pr_pump s)) = p"

lemma ingest_moves:
  assumes "ending p s" and "deliver_step True targets (pr_pump s) d"
    and "dl_handed d = dl_handed (pr_pump s)" and "dl_acks d = dl_acks (pr_pump s)"
    and "dl_pump d = Returned" and "ig_phase (dl_ig d) = p'"
  shows "\<exists>t. apart_step parallel targets s t \<and> ending p' t \<and> pr_units t = pr_units s"
proof -
  have "pump_inner targets s d" using assms by (simp add: pump_inner_def ending_def)
  from program_step.pump [OF this, of parallel] assms(1,5,6) show ?thesis
    by (intro exI [of _ "s\<lparr>pr_pump := d\<rparr>"]) (simp add: ending_def apart_step_def)
qed

text \<open>A phase from which the ingest goroutine ends with its remaining moves.\<close>

definition ends :: "bool \<Rightarrow> string list \<Rightarrow> program \<Rightarrow> bool" where
  "ends parallel targets s \<longleftrightarrow>
     (\<exists>t. apart_steps parallel targets s t \<and> ending Finished t \<and> pr_units t = pr_units s)"

lemma ends_step:
  "\<exists>t. apart_step parallel targets s t \<and> ending p' t \<and> pr_units t = pr_units s \<Longrightarrow>
    (\<And>t. ending p' t \<Longrightarrow> ends parallel targets t) \<Longrightarrow> ends parallel targets s"
  unfolding ends_def by (metis converse_rtranclp_into_rtranclp)

lemma ends_finished: "ending Finished s \<Longrightarrow> ends parallel targets s"
  by (auto simp: ends_def)

lemma ends_logging_out: "ending LoggingOut s \<Longrightarrow> ends parallel targets s"
  by (rule ends_step [OF ingest_moves [OF _ deliver_step.ingest_finish] ends_finished])
    (simp_all add: ending_def step_defs)

lemma ends_draining: "ending Draining s \<Longrightarrow> ends parallel targets s"
  by (rule ends_step [OF ingest_moves [OF _ deliver_step.drain_empty] ends_logging_out])
    (simp_all add: ending_def step_defs)

lemma ends_waiting: "ending Waiting s \<Longrightarrow> ends parallel targets s"
  by (rule ends_step [OF ingest_moves [OF _ deliver_step.ingest_quit] ends_draining])
    (simp_all add: ending_def step_defs)

lemma ends_responding:
  "ending (Responding req r) s \<Longrightarrow> ingest_free (pr_pump s) \<Longrightarrow> ends parallel targets s"
  by (rule ends_step [OF ingest_moves [OF _ deliver_step.respond] ends_waiting])
    (simp_all add: ending_def step_defs ingest_free_def)

lemma ends_drain_responding:
  "ending (DrainResponding req r) s \<Longrightarrow> ingest_free (pr_pump s) \<Longrightarrow> ends parallel targets s"
  by (rule ends_step [OF ingest_moves [OF _ deliver_step.drain_respond] ends_draining])
    (simp_all add: ending_def step_defs ingest_free_def)

lemma ends_appending:
  assumes "ending (Appending req) s" and "ingest_free (pr_pump s)"
  shows "ends parallel targets s"
proof -
  let ?d = "(pr_pump s)\<lparr>dl_ig := run_append req None (dl_ig (pr_pump s)),
    dl_appended := dl_appended (pr_pump s) @ [req]\<rparr>"
  have "deliver_step True targets (pr_pump s) ?d"
    using deliver_step.append [of "pr_pump s" req True targets None] assms(1) by (simp add: ending_def)
  then have "pump_inner targets s ?d" using assms(1) by (simp add: pump_inner_def ending_def step_defs)
  then have step: "apart_step parallel targets s (s\<lparr>pr_pump := ?d\<rparr>)"
    by (simp add: apart_step_def program_step.pump)
  have "ending (Responding req (append_response req None)) (s\<lparr>pr_pump := ?d\<rparr>)"
    using assms(1) by (simp add: ending_def run_append_def)
  moreover have "ingest_free (pr_pump (s\<lparr>pr_pump := ?d\<rparr>))"
    using assms by (simp add: ingest_free_def ending_def run_append_def)
  ultimately have "ends parallel targets (s\<lparr>pr_pump := ?d\<rparr>)" by (rule ends_responding)
  with step show ?thesis
    unfolding ends_def by (auto intro: converse_rtranclp_into_rtranclp)
qed

lemma ingest_ends:
  assumes "ending (ig_phase (dl_ig (pr_pump s))) s" and "ingest_free (pr_pump s)"
  shows "ends parallel targets s"
proof (cases "ig_phase (dl_ig (pr_pump s))")
  case (Appending req)
  with assms ends_appending show ?thesis by simp
next
  case (Responding req r)
  with assms ends_responding show ?thesis by simp
next
  case (DrainResponding req r)
  with assms ends_drain_responding show ?thesis by simp
qed (use assms ends_waiting ends_draining ends_logging_out ends_finished in simp_all)

text \<open>\<open>Close\<close> comes back.\<close>

lemma close_completes:
  assumes inv: "closing_inv targets s" and main: "pr_main s = InClose"
    and each: "\<forall>i < length targets. receiver_free s i \<and> far_from_wrapping (pr_units s i)"
    and free: "ingest_free (pr_pump s)"
  shows "\<exists>t. (program_step parallel targets)\<^sup>*\<^sup>* s t \<and> pr_main t = CommandEnded"
proof -
  obtain t where t: "(program_step parallel targets)\<^sup>*\<^sup>* s t" "pr_main t = InClose"
    "dl_pump (pr_pump t) = dl_pump (pr_pump s)" "dl_ig (pr_pump t) = dl_ig (pr_pump s)"
    "dl_responses (pr_pump t) = dl_responses (pr_pump s)"
    and closed: "\<forall>i < length targets. ru_close (pr_units t i) = CloseReturned"
    using receivers_close [OF inv main each order_refl] by blast
  have "program_inv targets s" using inv by (simp add: closing_inv_def)
  then have pump: "dl_pump (pr_pump s) = Returned"
    using main by (simp add: program_inv_def main_ok_def)
  let ?u = "t\<lparr>pr_ingest_quit := True\<rparr>"
  have su: "(program_step parallel targets)\<^sup>*\<^sup>* s ?u"
    using t(1) ingest_close [of t parallel targets] t(2) closed by (simp add: rtranclp.rtrancl_into_rtrancl)
  have "ending (ig_phase (dl_ig (pr_pump ?u))) ?u" using t pump by (simp add: ending_def)
  moreover have "ingest_free (pr_pump ?u)"
    using free ingest_free_cong [of "pr_pump t" "pr_pump s"] t(4,5) by simp
  ultimately have "ends parallel targets ?u" by (rule ingest_ends)
  then obtain v where v: "(program_step parallel targets)\<^sup>*\<^sup>* ?u v" "ending Finished v"
    "pr_units v = pr_units t"
    by (auto simp: ends_def dest: apart_steps_run)
  have "program_step parallel targets v (v\<lparr>pr_main := CommandEnded\<rparr>)"
    by (rule close_returns) (use v(2,3) closed in \<open>simp_all add: ending_def\<close>)
  with su v(1) have "(program_step parallel targets)\<^sup>*\<^sup>* s (v\<lparr>pr_main := CommandEnded\<rparr>)"
    by (meson rtranclp.rtrancl_into_rtrancl rtranclp_trans)
  then show ?thesis by (intro exI conjI) (assumption, simp)
qed

section \<open>When it does not\<close>

text \<open>
  After the loop of the pump has returned nothing takes messages or responses any more: a
  receiver that has more to hand out than there is room, and an ingest client whose response
  has none, stay where they are.
\<close>

definition stuck_somewhere :: "string list \<Rightarrow> program \<Rightarrow> bool" where
  "stuck_somewhere targets s \<longleftrightarrow> dl_pump (pr_pump s) = Returned
     \<and> ((\<exists>i < length targets. \<not> receiver_free s i) \<or> \<not> ingest_free (pr_pump s))"

lemma returned_step:
  assumes "deliver_step True targets d d'" and "dl_pump d = Returned"
    and "dl_handed d' = dl_handed d"
  shows "dl_incoming d' = dl_incoming d" and "dl_pump d' = Returned"
    and "\<not> ingest_free d \<Longrightarrow> \<not> ingest_free d'"
proof -
  have "dl_incoming d' = dl_incoming d \<and> dl_pump d' = Returned \<and> (\<not> ingest_free d \<longrightarrow> \<not> ingest_free d')"
    using assms(1)
  proof cases
    case (hand i msg)
    with assms(3) have "push i msg (dl_handed d) i = dl_handed d i" by simp
    then show ?thesis by simp
  next
    case (append req err)
    with assms(2) show ?thesis by (simp add: ingest_free_def run_append_def)
  qed (use assms(2) in \<open>auto simp: ingest_free_def step_defs\<close>)
  then show "dl_incoming d' = dl_incoming d" and "dl_pump d' = Returned"
    and "\<not> ingest_free d \<Longrightarrow> \<not> ingest_free d'" by auto
qed

lemma stuck_step:
  assumes inv: "closing_inv targets s" and stuck: "stuck_somewhere targets s"
    and step: "program_step parallel targets s t"
  shows "stuck_somewhere targets t"
proof -
  have cap: "length (dl_incoming (pr_pump s) i) \<le> incoming_cap" for i
    using inv by (simp add: closing_inv_def)
  have pump: "dl_pump (pr_pump s) = Returned" using stuck by (simp add: stuck_somewhere_def)
  have "dl_pump (pr_pump t) = Returned \<and> (\<forall>i. \<not> receiver_free s i \<longrightarrow> \<not> receiver_free t i)
    \<and> (\<not> ingest_free (pr_pump s) \<longrightarrow> \<not> ingest_free (pr_pump t))"
    using step
  proof cases
    case (receiver i u)
    have "\<not> receiver_free t i" if "\<not> receiver_free s i"
    proof -
      have out: "ru_outgoing (pr_units s i) \<noteq> []" using that cap [of i] by (auto simp: receiver_free_def)
      have "ru_outgoing u = ru_outgoing (pr_units s i)"
        using receiver(3) by cases (use out in simp_all)
      with that receiver(1) show ?thesis by (simp add: receiver_free_def)
    qed
    with receiver(1) pump show ?thesis by (auto simp: receiver_free_def)
  next
    case (hand_out i msg ms)
    have "ingest_free (pr_pump t) = ingest_free (pr_pump s)"
      by (rule ingest_free_cong) (simp_all add: hand_out(1))
    with hand_out pump show ?thesis by (auto simp: receiver_free_def)
  next
    case (pump d)
    then have "deliver_step True targets (pr_pump s) d" "dl_handed d = dl_handed (pr_pump s)"
      by (simp_all add: pump_inner_def)
    from returned_step [OF this(1) \<open>dl_pump (pr_pump s) = Returned\<close> this(2)] pump(1) show ?thesis
      by (auto simp: receiver_free_def)
  qed (use pump in \<open>auto simp: receiver_free_def ingest_free_def\<close>)
  with stuck show ?thesis by (auto simp: stuck_somewhere_def)
qed

lemma stuck_steps:
  assumes "(program_step parallel targets)\<^sup>*\<^sup>* s t" and "closing_inv targets s" and "stuck_somewhere targets s"
  shows "stuck_somewhere targets t"
  using assms
proof (induction rule: rtranclp_induct)
  case (step y z)
  have "closing_inv targets y" by (rule closing.steps_inv [OF step.hyps(1) step.prems(1)])
  with step show ?case by (blast intro: stuck_step)
qed

lemma stuck_not_ended:
  assumes inv: "closing_inv targets s" and stuck: "stuck_somewhere targets s"
  shows "pr_main s \<noteq> CommandEnded"
proof
  assume ended: "pr_main s = CommandEnded"
  have pinv: "program_inv targets s" and cap: "length (dl_incoming (pr_pump s) i) \<le> incoming_cap" for i
    using inv by (simp_all add: closing_inv_def)
  from pinv ended have closed: "\<forall>i < length targets. ru_close (pr_units s i) = CloseReturned"
    and "ig_phase (dl_ig (pr_pump s)) = Finished"
    by (simp_all add: program_inv_def main_ok_def)
  then have "ingest_free (pr_pump s)" by (simp add: ingest_free_def)
  moreover have "receiver_free s i" if "i < length targets" for i
  proof -
    have "unit_ok (set (dl_acks (pr_pump s) i)) (pr_units s i)" using pinv by (simp add: program_inv_def)
    with closed that have "ru_outgoing (pr_units s i) = []" by (auto simp: unit_ok_def close_ok_def)
    with cap [of i] show ?thesis by (simp add: receiver_free_def)
  qed
  ultimately show False using stuck by (auto simp: stuck_somewhere_def)
qed

section \<open>Runs that end\<close>

text \<open>A run that is told to stop while the loop of the pump is in its select.\<close>

definition ex_closing :: "string list \<Rightarrow> receiver_unit \<Rightarrow> delivery \<Rightarrow> program" where
  "ex_closing targets u d = (ex_program u (d\<lparr>dl_pump := Returned\<rparr>))
     \<lparr>pr_main := InClose, pr_stopped := True,
      pr_units := (\<lambda>i. if i < length targets
         then (pr_units (ex_program u d) i)\<lparr>ru_close := WritingQuit\<rparr> else pr_units (ex_program u d) i)\<rparr>"

lemma ex_closing_steps:
  assumes "dl_pump d = Selecting" and "\<not> ig_shutdown (dl_ig d)" and "ru_close u = NotClosing"
  shows "apart_steps parallel (mb # mbs) (ex_program u d) (ex_closing (mb # mbs) u d)"
proof -
  let ?s = "ex_program u d"
  let ?t = "?s\<lparr>pr_stopped := True\<rparr>"
  let ?v = "?t\<lparr>pr_pump := d\<lparr>dl_pump := Returned\<rparr>\<rparr>"
  have "program_step parallel (mb # mbs) ?s ?t"
    by (rule program_step.signal) (simp_all add: ex_program_def)
  then have 1: "apart_step parallel (mb # mbs) ?s ?t" by (simp add: apart_step_def)
  have "deliver_step True (mb # mbs) d (d\<lparr>dl_pump := Returned\<rparr>)"
    using deliver_step.take_stop [OF assms(1) multi_tick_stop, of True "mb # mbs"] by simp
  then have "pump_inner (mb # mbs) ?t (d\<lparr>dl_pump := Returned\<rparr>)"
    using assms(2) by (simp add: pump_inner_def ex_program_def)
  from program_step.pump [OF this] have 2: "apart_step parallel (mb # mbs) ?t ?v"
    by (simp add: apart_step_def)
  have "program_step parallel (mb # mbs) ?v
      (?v\<lparr>pr_main := InClose, pr_units := (\<lambda>i. if i < length (mb # mbs)
         then (pr_units ?v i)\<lparr>ru_close := WritingQuit\<rparr> else pr_units ?v i)\<rparr>)"
    by (rule program_step.pump_done) (simp_all add: ex_program_def)
  moreover have "ru_close (pr_units ?v i) \<noteq> ClientLogout" for i
    using assms(3) by (simp add: ex_program_def new_unit_def)
  ultimately have "apart_step parallel (mb # mbs) ?v (ex_closing (mb # mbs) u d)"
    by (simp add: apart_step_def keeps_client_def ex_closing_def ex_program_def cong: if_cong)
  with 1 2 show ?thesis by (meson converse_rtranclp_into_rtranclp r_into_rtranclp)
qed

lemma ex_closing_run:
  assumes run: "ex_runs mb mbs parallel u d" and "dl_pump d = Selecting"
    and "\<not> ig_shutdown (dl_ig d)"
  shows "runs parallel (mb # mbs) (ex_closing (mb # mbs) u d)"
proof -
  have "ru_close u = NotClosing"
    using program.reachable_inv [OF run] by (auto simp: program_inv_def main_ok_def ex_program_def)
  from reachable_steps [OF run apart_steps_run [OF ex_closing_steps [OF assms(2,3) this]]]
  show ?thesis .
qed

lemma ex_handed_far:
  "far_from_wrapping ((ex_unit (ex_sys (ex_fetching (Some StateUnacked))
     [Finishing OperationFetchFinish] {} 2) [ex_msg] [])\<lparr>ru_close := WritingQuit\<rparr>)"
  by (simp add: far_from_wrapping_def results_left_def ex_sys_def ex_unit_def)

text \<open>A receiver that has exited does nothing any more.\<close>

lemma exited_stays:
  assumes "program_step parallel targets s t" and "status (ru_sys (pr_units s i)) = Exited"
    and "work (ru_sys (pr_units s i)) = []"
  shows "ru_sys (pr_units t i) = ru_sys (pr_units s i)"
  using assms(1)
proof cases
  case (receiver j u)
  have "ru_sys u = ru_sys (pr_units s j)" if "j = i"
    using receiver(3) by cases (use assms(2,3) that in \<open>auto elim: recv_turnE recv_workE\<close>)
  with receiver(1) show ?thesis by simp
qed auto

lemma ex_told_to_quit:
  obtains s where "runs True [''INBOX''] s" and "pr_main s = InClose" and "receiver_free s 0"
    and "ingest_free (pr_pump s)" and "status (ru_sys (pr_units s 0)) = Exited"
    and "work (ru_sys (pr_units s 0)) = []" and "ticks (ru_sys (pr_units s 0)) = 1"
proof -
  let ?u = "(ex_unit (recv_start (ex_known None)) [] [])\<lparr>ru_close := WritingQuit\<rparr>"
  let ?s = "ex_closing [''INBOX''] (ex_unit (recv_start (ex_known None)) [] [])
    (ex_delivery Selecting Waiting [] [] [] [] [])"
  have run: "runs True [''INBOX''] ?s" by (rule ex_closing_run [OF ex_runs_start]) simp_all
  have unit: "pr_units ?s 0 = ?u" by (simp add: ex_closing_def ex_program_def)
  have "\<exists>l. tick [] EvQuit (run_init (ex_known None)) = Completes (Done l)"
    unfolding ex_run_init by (simp add: ex_states) (simp add: ex_eval ex_flags_def)
  then obtain l where l: "tick [] EvQuit (run_init (ex_known None)) = Completes (Done l)" by blast
  define r where "r = after_turn EvQuit [] (Completes (Done l)) (recv_start (ex_known None))"
  have r: "status r = Exited" "work r = []" "ticks r = 1"
    by (simp_all add: r_def turned_def recv_start_def)
  have turn: "recv_turn EvQuit (recv_start (ex_known None)) r"
    by (rule recv_turnI [where ws = "[]" and order = "[]"])
      (use l loop_takes.intros(1) [of "recv_start (ex_known None)"] r(1)
        in \<open>simp_all add: r_def recv_start_def\<close>)
  let ?v = "?u\<lparr>ru_wantQuit := \<lparr>cbuf = [()], ccap = 1, cclosed = False\<rparr>, ru_close := AwaitingQuit\<rparr>"
  let ?w = "?v\<lparr>ru_wantQuit := make_chan 1, ru_sys := r\<rparr>"
  have "unit_step ?u ?v"
    by (rule close_writes) (simp_all add: ex_unit_def make_chan_def chan_send_def)
  moreover have "unit_step ?v ?w"
  proof -
    have "take_event EvQuit ?v = Some (?v\<lparr>ru_wantQuit := make_chan 1\<rparr>)"
      by (simp add: take_event_def chan_recv_def make_chan_def)
    from unit_turn [OF _ this, of r] turn turn_sent(2) [OF turn] r(1)
    show ?thesis by (simp add: ex_unit_def)
  qed
  ultimately have "unit_step\<^sup>*\<^sup>* (pr_units ?s 0) ?w"
    unfolding unit by (simp only: r_into_rtranclp converse_rtranclp_into_rtranclp)
  from reachable_steps [OF run unit_runs [OF this]]
  show thesis
    by (rule that) (use r in \<open>simp_all add: ex_closing_def ex_program_def receiver_free_def ingest_free_def\<close>)
qed

end
