(* ===== verification/ProgramDeadlock.thy ===== *)
theory ProgramDeadlock
  imports ProgramClose
begin

text \<open>
  Runs in which the channels between a receiver and the pump fill up: a mailbox with more
  messages than they hold, an honest server, and the default settings. Two batches that no
  one has taken when the program is told to stop keep it from ever ending; three, of which
  the receiver has not yet taken the acknowledgements, stop it for good while it runs.
\<close>

section \<open>A mailbox with sixty messages\<close>

definition mail_no :: "nat \<Rightarrow> imap_message" where
  "mail_no j = \<lparr>SeqNum = word_of_nat j, Uid = word_of_nat j, Flags = [], InternalDate = 0,
     Body = [(''BODY[]'', Some ''hello'')]\<rparr>"

definition mails :: "nat \<Rightarrow> nat \<Rightarrow> imap_message list" where
  "mails i j = map mail_no [Suc i..<Suc j]"

definition big_status :: MailboxStatus where
  "big_status = \<lparr>mb_Name = ''INBOX'', mb_Messages = 60\<rparr>"

text \<open>The server answers with the messages it was asked for, when they start after \<open>k\<close>.\<close>

definition honest_server :: "nat \<Rightarrow> server_answers" where
  "honest_server k = \<lparr>sv_Mailbox = Some big_status, sv_Fetch = \<lambda>_ _. (mails k (k + 20), None),
     sv_UidStore = \<lambda>_ _ _. ([], None), sv_Expunge = None\<rparr>"

text \<open>The receiver knows the first \<open>k\<close> messages.\<close>

definition knows :: "nat \<Rightarrow> mailReceiver" where
  "knows k =
     \<lparr>messages = (\<lambda>u. if 1 \<le> unat u \<and> unat u \<le> k then Some (unat u - 1) else None),
      heap = map (\<lambda>j. \<lparr>ms_UID = word_of_nat j, ms_SeqNum = word_of_nat j, ms_Message = mail_no j,
        ms_State = StateUnacked\<rparr>) [1..<Suc k],
      outSent = mails 0 k, batchSize = 15, idleFallbackInterval = 60000000000, fetchBufferSize = 20,
      fetchMaxInterval = 300000000000, disableDeletions = False\<rparr>"

lemma knows_nothing: "knows 0 = ex_known None"
  by (auto simp: knows_def ex_known_def mails_def)

lemma unat_small: "j < 2 ^ 32 \<Longrightarrow> unat (word_of_nat j :: u32) = j"
  by (simp add: unsigned_of_nat take_bit_nat_eq_self)

lemma knows_order:
  assumes "k < 2 ^ 32"
  shows "map_iteration (messages (knows k)) (map word_of_nat [1..<Suc k])"
proof -
  have "inj_on (word_of_nat :: nat \<Rightarrow> u32) {1..<Suc k}"
    using assms by (intro inj_on_inverseI [of _ unat]) (simp add: unat_small)
  moreover have "word_of_nat ` {1..<Suc k} = dom (messages (knows k))"
  proof -
    have "u \<in> word_of_nat ` {1..<Suc k}" if "1 \<le> unat u" "unat u \<le> k" for u :: u32
      using that by (intro image_eqI [of _ _ "unat u"]) auto
    moreover have "1 \<le> unat (word_of_nat j :: u32) \<and> unat (word_of_nat j :: u32) \<le> k"
      if "j \<in> {1..<Suc k}" for j
      using that assms by (simp add: unat_small)
    ultimately show ?thesis by (auto simp: knows_def split: if_splits)
  qed
  ultimately show ?thesis by (simp add: map_iteration_def distinct_map del: upt_Suc)
qed

definition known_numbers :: "nat \<Rightarrow> SeqSet" where
  "known_numbers k = buildCurrentSequence (deref (knows k) (messages (knows k))) (map word_of_nat [1..<Suc k])"

lemma deref_knows:
  assumes "1 \<le> j" "j \<le> k" "k < 2 ^ 32"
  shows "ms_SeqNum (the (deref (knows k) (messages (knows k)) (word_of_nat j))) = word_of_nat j"
proof -
  have "[1..<Suc k] ! (j - 1) = j" using assms by (subst nth_upt) auto
  with assms show ?thesis by (simp add: deref_def knows_def unat_small nth_append del: upt_Suc)
qed

lemma Contains_known:
  assumes "k < 2 ^ 32"
  shows "SeqSet_Contains (known_numbers k) q \<longleftrightarrow> 1 \<le> unat q \<and> unat q \<le> k"
proof -
  have "map (\<lambda>u. ms_SeqNum (the (deref (knows k) (messages (knows k)) u))) (map word_of_nat [1..<Suc k]) =
      map word_of_nat [1..<Suc k]"
    using deref_knows [OF _ _ assms] by (simp del: upt_Suc)
  then have "SeqSet_Contains (known_numbers k) q \<longleftrightarrow> q \<noteq> 0 \<and> q \<in> word_of_nat ` {1..<Suc k}"
    by (simp add: known_numbers_def buildCurrentSequence_eq Contains_AddNum comp_def del: upt_Suc)
  also have "\<dots> \<longleftrightarrow> 1 \<le> unat q \<and> unat q \<le> k"
  proof
    assume "q \<noteq> 0 \<and> q \<in> word_of_nat ` {1..<Suc k}"
    with assms show "1 \<le> unat q \<and> unat q \<le> k" by (auto simp: unat_small)
  next
    assume "1 \<le> unat q \<and> unat q \<le> k"
    then show "q \<noteq> 0 \<and> q \<in> word_of_nat ` {1..<Suc k}"
      by (auto intro: image_eqI [of _ _ "unat q"])
  qed
  finally show ?thesis .
qed

section \<open>The next twenty messages are fetched\<close>

lemma next_numbers:
  assumes "k \<le> 40"
  shows "fetch_numbers (known_numbers k) 60 20 = map word_of_nat [Suc k..<Suc (k + 20)]"
proof -
  have split: "[1..<61] = [1..<Suc k] @ [Suc k..<61]"
    using assms upt_add_eq_append [of 1 "Suc k" "60 - k"] by simp
  have "filter (\<lambda>q. \<not> SeqSet_Contains (known_numbers k) q) (map word_of_nat [1..<Suc k]) = []"
    using assms by (auto simp: filter_empty_conv Contains_known unat_small)
  moreover have "filter (\<lambda>q. \<not> SeqSet_Contains (known_numbers k) q) (map word_of_nat [Suc k..<61]) =
      map word_of_nat [Suc k..<61]"
    using assms by (auto simp: filter_id_conv Contains_known unat_small)
  moreover have "mailbox_numbers 60 = map word_of_nat ([1..<Suc k] @ [Suc k..<61])"
    unfolding split [symmetric] by (simp add: mailbox_numbers_def)
  ultimately show ?thesis
    using assms by (simp add: fetch_numbers_def take_map take_upt del: upt_Suc)
qed

definition batch :: "nat \<Rightarrow> fetchResult" where
  "batch k = (let (uids, ms) = readMessages (mails k (k + 20)) (map word_of_nat [Suc k..<Suc (k + 20)])
     in \<lparr>fr_UIDs = uids, fr_Messages = ms\<rparr>)"

lemma fetch_batch:
  assumes "k \<le> 40"
  shows "doFetch (honest_server k) (known_numbers k) 20 (map word_of_nat [Suc k..<Suc (k + 20)]) =
    (False, [batch k])"
proof -
  have seqset: "buildSeqSet (known_numbers k) big_status 20 = AddNum (map word_of_nat [Suc k..<Suc (k + 20)]) []"
    using next_numbers [OF assms] by (simp add: buildSeqSet_eq big_status_def del: upt_Suc)
  have nonzero: "(word_of_nat j :: u32) \<noteq> 0" if "Suc k \<le> j" "j \<le> k + 20" for j
    using that assms unat_small [of j] by auto
  have contains: "SeqSet_Contains (AddNum (map word_of_nat [Suc k..<Suc (k + 20)]) []) (word_of_nat j)"
    if "Suc k \<le> j" "j \<le> k + 20" for j
    using that nonzero by (simp add: Contains_AddNum del: upt_Suc)
  have "filter (Fetch_Handle False (AddNum (map word_of_nat [Suc k..<Suc (k + 20)]) [])) (mails k (k + 20)) =
      mails k (k + 20)"
    using contains by (auto simp: filter_id_conv mails_def mail_no_def Fetch_Handle_def)
  moreover have "\<not> SeqSet_Empty (AddNum (map word_of_nat [Suc k..<Suc (k + 20)]) [])"
    using contains [of "Suc k"] by (auto simp: SeqSet_Empty_def SeqSet_Contains_def search_def search_loop.simps)
  ultimately show ?thesis
    using seqset by (simp add: doFetch_def honest_server_def cl_Fetch_def goimap_command_def batch_def
        Let_def split_beta del: upt_Suc) (simp add: big_status_def)
qed

lemma batch_message:
  assumes "k \<le> 40" and "Suc k \<le> j" and "j \<le> k + 20"
  shows "fr_Messages (batch k) (word_of_nat j) = Some (mail_no j)"
proof -
  have "word_of_nat j \<in> Uid ` set (mails k (k + 20))"
    using assms by (auto simp: mails_def mail_no_def image_image simp del: upt_Suc)
  then have "word_of_nat j \<in> dom (fr_Messages (batch k))"
    using readMessages_dom [of "mails k (k + 20)"] by (simp add: batch_def split_beta)
  then obtain m where m: "fr_Messages (batch k) (word_of_nat j) = Some m" by blast
  then have "m \<in> set (mails k (k + 20)) \<and> Uid m = word_of_nat j"
    using readMessages_lookup [of Map.empty "mails k (k + 20)"]
    by (simp add: batch_def readMessages_def Let_def)
  then obtain i where i: "m = mail_no i" "Suc k \<le> i" "i \<le> k + 20" "(word_of_nat i :: u32) = word_of_nat j"
    by (auto simp: mails_def mail_no_def simp del: upt_Suc)
  have "i = unat (word_of_nat i :: u32)" using i(3) assms(1) unat_small [of i] by simp
  also have "\<dots> = unat (word_of_nat j :: u32)" by (simp only: i(4))
  also have "\<dots> = j" using assms unat_small [of j] by simp
  finally have "i = j" .
  with i m show ?thesis by simp
qed

lemma batch_order:
  assumes "k \<le> 40"
  shows "map_iteration (fr_Messages (batch k)) (map word_of_nat [Suc k..<Suc (k + 20)])"
proof -
  have "inj_on (word_of_nat :: nat \<Rightarrow> u32) {Suc k..<Suc (k + 20)}"
    using assms by (intro inj_on_inverseI [of _ unat]) (simp add: unat_small)
  moreover have "dom (fr_Messages (batch k)) = word_of_nat ` {Suc k..<Suc (k + 20)}"
    using readMessages_dom [of "mails k (k + 20)"]
    by (simp add: batch_def split_beta mails_def mail_no_def image_image del: upt_Suc)
  ultimately show ?thesis by (simp add: map_iteration_def distinct_map del: upt_Suc)
qed

lemma knows_next:
  assumes "Suc k < 2 ^ 32"
  shows "(knows k)\<lparr>messages := (messages (knows k))(word_of_nat (Suc k) \<mapsto> length (heap (knows k))),
      heap := heap (knows k) @ [\<lparr>ms_UID = word_of_nat (Suc k), ms_SeqNum = word_of_nat (Suc k),
        ms_Message = mail_no (Suc k), ms_State = StateUnacked\<rparr>],
      outSent := outSent (knows k) @ [mail_no (Suc k)]\<rparr> = knows (Suc k)"
    and "messages (knows k) (word_of_nat (Suc k)) = None"
proof -
  have uk: "unat (word_of_nat (Suc k) :: u32) = Suc k" using unat_small [OF assms] .
  have "(messages (knows k))(word_of_nat (Suc k) \<mapsto> k) = messages (knows (Suc k))"
  proof
    fix u :: u32
    have u: "u = word_of_nat (Suc k) \<longleftrightarrow> unat u = Suc k" 
      by (simp only: word_unat_eq_iff [of u "word_of_nat (Suc k)"] uk)
    have "messages (knows (Suc k)) u = (if unat u = Suc k then Some k else messages (knows k) u)"
      by (auto simp: knows_def le_Suc_eq)
    also have "\<dots> = ((messages (knows k))(word_of_nat (Suc k) \<mapsto> k)) u"
      by (simp only: fun_upd_apply u)
    finally show "((messages (knows k))(word_of_nat (Suc k) \<mapsto> k)) u = messages (knows (Suc k)) u"
      by (rule sym)
  qed
  then show "(knows k)\<lparr>messages := (messages (knows k))(word_of_nat (Suc k) \<mapsto> length (heap (knows k))),
      heap := heap (knows k) @ [\<lparr>ms_UID = word_of_nat (Suc k), ms_SeqNum = word_of_nat (Suc k),
        ms_Message = mail_no (Suc k), ms_State = StateUnacked\<rparr>],
      outSent := outSent (knows k) @ [mail_no (Suc k)]\<rparr> = knows (Suc k)"
    by (simp add: knows_def mails_def upt_Suc_append del: upt_Suc of_nat_Suc)
  show "messages (knows k) (word_of_nat (Suc k)) = None" using uk by (simp add: knows_def)
qed

lemma hand_batch_loop:
  assumes "\<forall>j. Suc k \<le> j \<and> j \<le> k + n \<longrightarrow> fetched (word_of_nat j) = Some (mail_no j)" and "k + n < 2 ^ 32"
  shows "fst (handleFetch_loop fetched (map word_of_nat [Suc k..<Suc (k + n)]) (knows k) num) = knows (k + n)"
  using assms
proof (induction n arbitrary: k num)
  case (Suc n)
  have upt: "[Suc k..<Suc (k + Suc n)] = Suc k # [Suc (Suc k)..<Suc (Suc k + n)]"
    by (simp add: upt_conv_Cons del: upt_Suc)
  have "fetched (word_of_nat (Suc k)) = Some (mail_no (Suc k))"
    using Suc.prems(1) by (simp del: of_nat_Suc)
  moreover have "SeqNum (mail_no (Suc k)) = word_of_nat (Suc k)" by (simp add: mail_no_def)
  moreover note knows_next [of k]
  moreover have "fst (handleFetch_loop fetched (map word_of_nat [Suc (Suc k)..<Suc (Suc k + n)])
      (knows (Suc k)) (num + 1)) = knows (Suc k + n)"
    by (rule Suc.IH) (use Suc.prems in auto)
  ultimately show ?case using Suc.prems(2) unfolding upt by (simp add: Let_def del: upt_Suc of_nat_Suc)
qed simp

lemma hand_batch:
  assumes "k \<le> 40"
  shows "fst (handleFetch (batch k) (map word_of_nat [Suc k..<Suc (k + 20)]) (knows k)) = knows (k + 20)"
  unfolding handleFetch_def by (rule hand_batch_loop) (use assms batch_message in auto)

section \<open>A round of the receiver\<close>

text \<open>
  The loop knows \<open>k\<close> messages; its fetch flag was raised \<open>a\<close> times and signals on channel \<open>c\<close>.
\<close>

definition round_loop ::
  "nat \<Rightarrow> sstate \<Rightarrow> uint \<Rightarrow> nat \<Rightarrow> nat \<Rightarrow> nat set \<Rightarrow> operation list \<Rightarrow> run_state"
where
  "round_loop k st a c n S ops =
     \<lparr>rcv = knows k, rs_state = st, nextToProcess = Map.empty,
      flags = ex_flags (ex_flag a c) (ex_flag 0 3), sigs = \<lparr>next_sig = n, closed_sigs = S\<rparr>,
      opChan = \<lparr>cbuf = ops, ccap = 1, cclosed = False\<rparr>, flagQuits = 0\<rparr>"

lemma round_loop_simps [simp]:
  "rcv (round_loop k st a c n S ops) = knows k" "rs_state (round_loop k st a c n S ops) = st"
  "opChan (round_loop k st a c n S ops) = \<lparr>cbuf = ops, ccap = 1, cclosed = False\<rparr>"
  by (simp_all add: round_loop_def)

lemma knows_simps [simp]:
  "fetchBufferSize (knows k) = 20" "outSent (knows k) = mails 0 k"
  "batchSize (knows k) = 15" "disableDeletions (knows k) = False"
  by (simp_all add: knows_def)

lemma round_start: "run_init (knows 0) = round_loop 0 StateNone 0 2 4 {} []"
  unfolding knows_nothing ex_run_init by (simp add: knows_nothing ex_loop_def round_loop_def)

abbreviation known_order :: "nat \<Rightarrow> u32 list" where
  "known_order k \<equiv> map word_of_nat [1..<Suc k]"

lemma turn_start:
  "tick [] (EvUpdate (MailboxUpdate big_status)) (round_loop 0 StateNone 0 2 4 {} []) =
    Completes (Continue (round_loop 0 StateInFetch 0 4 5 {2} []) (Some (SpawnFetch (known_numbers 0))))"
  by (simp add: round_loop_def known_numbers_def) (simp add: ex_eval)

lemma turn_batch:
  assumes "k \<le> 40"
  shows "tick order (EvFetchResult (batch k) (map word_of_nat [Suc k..<Suc (k + 20)]))
      (round_loop k StateInFetch 0 c n S []) =
    Completes (Continue (round_loop (k + 20) StateInFetch 0 c n S []) None)"
  using hand_batch [OF assms]
  by (simp add: tick_def round_loop_def flagged_def FC_IsFlagged_def switch_fetch_def ex_flag_def
      split_beta del: upt_Suc)

lemma turn_update:
  assumes "c \<notin> S"
  shows "tick order (EvUpdate (MailboxUpdate big_status)) (round_loop k StateInFetch 0 c n S []) =
    Completes (Continue (round_loop k StateInFetch 1 c n (insert c S) []) None)"
  using assms by (simp add: round_loop_def) (simp add: ex_eval)

lemma turn_finish:
  "tick order EvOp (round_loop k StateInFetch 1 c n S [OperationFetchFinish]) =
    Completes (Continue (round_loop k StateNone 1 c n S [OperationNone]) None)"
  by (simp add: round_loop_def) (simp add: ex_eval)

lemma turn_again:
  "tick (known_order k) EvOp (round_loop k StateNone 1 c n S [OperationNone]) =
    Completes (Continue (round_loop k StateInFetch 0 n (Suc n) S []) (Some (SpawnFetch (known_numbers k))))"
  by (simp add: round_loop_def known_numbers_def del: upt_Suc) (simp add: ex_eval del: upt_Suc)

section \<open>The rounds with the channels\<close>

lemma ex_receivers:
  "unit_step\<^sup>*\<^sup>* u u' \<Longrightarrow> ex_runs mb mbs parallel u d \<Longrightarrow> ex_runs mb mbs parallel u' d"
  by (induction rule: rtranclp_induct) (blast intro: ex_receiver)+

lemma mails_split: "drop (length (mails 0 k)) (mails 0 (k + n)) = mails k (k + n)"
  by (simp add: mails_def drop_map del: upt_Suc)

text \<open>In a fetch, with goroutine \<open>g\<close> and the messages \<open>out\<close> to hand out.\<close>

definition fetching ::
  "nat \<Rightarrow> nat \<times> nat \<times> nat set \<Rightarrow> goroutine \<Rightarrow> nat \<Rightarrow> imap_message list \<Rightarrow> ackRequest list \<Rightarrow> receiver_unit"
where
  "fetching k sg g t out acks = (case sg of (c, n, S) \<Rightarrow>
     ex_unit (ex_sys (round_loop k StateInFetch 0 c n S []) [g] {} t) out acks)"

lemma unit_at:
  "unit_step u (ex_unit (ex_sys l w A n) out k) \<Longrightarrow> w = w' \<Longrightarrow> A = A' \<Longrightarrow> n = n' \<Longrightarrow> out = out' \<Longrightarrow>
    unit_step u (ex_unit (ex_sys l w' A' n') out' k)"
  by simp

lemma fetches:
  assumes "k \<le> 40"
  shows "unit_step\<^sup>*\<^sup>* (fetching k sg (FetchRunning (known_numbers k)) t [] acks)
    (fetching (k + 20) sg (Finishing OperationFetchFinish) (Suc t) (mails k (k + 20)) acks)"
proof -
  obtain c n S where sg: "sg = (c, n, S)" by (cases sg) auto
  let ?l = "round_loop k StateInFetch 0 c n S []"
  have "go_step ?l (FetchRunning (known_numbers k)) (FetchSending (batch k)) {}"
    by (rule fetch_result [of "honest_server k" _ _ "map word_of_nat [Suc k..<Suc (k + 20)]" False])
      (use fetch_batch [OF assms] in simp)
  from ex_unit_work [OF ex_work [OF this]]
  have "unit_step (fetching k sg (FetchRunning (known_numbers k)) t [] acks)
      (fetching k sg (FetchSending (batch k)) t [] acks)"
    by (simp add: fetching_def sg ex_sys_def)
  moreover have "unit_step (fetching k sg (FetchSending (batch k)) t [] acks)
      (fetching (k + 20) sg (Finishing OperationFetchFinish) (Suc t) (mails k (k + 20)) acks)"
  proof -
    have takes: "loop_takes (ex_sys ?l [FetchSending (batch k)] {} t)
        (EvFetchResult (batch k) (map word_of_nat [Suc k..<Suc (k + 20)])) [Finishing OperationFetchFinish]"
      using ex_takes [of "[FetchSending (batch k)]" "[]" "batch k" "[]", OF _ batch_order [OF assms]]
      by (simp del: upt_Suc)
    show ?thesis
      unfolding fetching_def sg prod.case
      by (rule unit_at [OF ex_unit_turn [OF turn_batch [OF assms, of "known_order (k + 20)"] takes]])
        (use assms mails_split [of k 20] knows_order [of "k + 20"] in
          \<open>simp_all add: spawned_work_def del: upt_Suc\<close>)
  qed
  ultimately show ?thesis by (rule converse_rtranclp_into_rtranclp [OF _ r_into_rtranclp])
qed

lemma starts_again:
  assumes "k < 2 ^ 32" and "c \<notin> S"
  shows "unit_step\<^sup>*\<^sup>* (fetching k (c, n, S) (Finishing OperationFetchFinish) t [] acks)
    (fetching k (n, Suc n, insert c S) (FetchRunning (known_numbers k)) (t + 3) [] acks)"
proof -
  let ?sys = "\<lambda>st a c n S ops w t. ex_unit (ex_sys (round_loop k st a c n S ops) w {} t) [] acks"
  let ?fin = "Finishing OperationFetchFinish"
  have 1: "unit_step (?sys StateInFetch 0 c n S [] [?fin] t) (?sys StateInFetch 1 c n (insert c S) [] [?fin] (Suc t))"
    by (rule unit_at [OF ex_unit_turn [OF turn_update [OF assms(2), of "known_order k"] ex_takes_any(1)]])
      (use knows_order [OF assms(1)] in \<open>simp_all add: spawned_work_def del: upt_Suc\<close>)
  have "recv_work (ex_sys (round_loop k StateInFetch 1 c n (insert c S) []) [?fin] {} (Suc t))
      (ex_sys (round_loop k StateInFetch 1 c n (insert c S) [OperationFetchFinish]) [] {} (Suc t))"
    using finishes [of "ex_sys (round_loop k StateInFetch 1 c n (insert c S) []) [?fin] {} (Suc t)" "[]" _ "[]"]
    by (simp add: ex_sys_def chan_send_def round_loop_def)
  then have 2: "unit_step (?sys StateInFetch 1 c n (insert c S) [] [?fin] (Suc t))
      (?sys StateInFetch 1 c n (insert c S) [OperationFetchFinish] [] (Suc t))" by (rule ex_unit_work)
  have 3: "unit_step (?sys StateInFetch 1 c n (insert c S) [OperationFetchFinish] [] (Suc t))
      (?sys StateNone 1 c n (insert c S) [OperationNone] [] (Suc (Suc t)))"
    by (rule unit_at [OF ex_unit_turn [OF turn_finish [of "known_order k"] ex_takes_any(2)]])
      (use knows_order [OF assms(1)] in \<open>simp_all add: spawned_work_def del: upt_Suc\<close>)
  have 4: "unit_step (?sys StateNone 1 c n (insert c S) [OperationNone] [] (Suc (Suc t)))
      (?sys StateInFetch 0 n (Suc n) (insert c S) [] [FetchRunning (known_numbers k)] (t + 3))"
    by (rule unit_at [OF ex_unit_turn [OF turn_again ex_takes_any(2)]])
      (use knows_order [OF assms(1)] in \<open>simp_all add: spawned_work_def del: upt_Suc\<close>)
  have "unit_step\<^sup>*\<^sup>* (?sys StateInFetch 0 c n S [] [?fin] t)
      (?sys StateInFetch 0 n (Suc n) (insert c S) [] [FetchRunning (known_numbers k)] (t + 3))"
    using 1 2 3 4 by (meson converse_rtranclp_into_rtranclp r_into_rtranclp)
  then show ?thesis by (simp add: fetching_def)
qed

lemma hands:
  assumes "ex_runs mb mbs parallel (ex_unit r (ys @ zs) k) (ex_delivery p g inc rs handed app acks)"
    and "length inc + length ys \<le> incoming_cap"
  shows "ex_runs mb mbs parallel (ex_unit r zs k) (ex_delivery p g (inc @ ys) rs (handed @ ys) app acks)"
  using assms
proof (induction ys arbitrary: inc handed)
  case (Cons y ys)
  from ex_hand_out [where msg = y and ms = "ys @ zs"] Cons.prems
  have "ex_runs mb mbs parallel (ex_unit r (ys @ zs) k)
      (ex_delivery p g (inc @ [y]) rs (handed @ [y]) app acks)" by simp
  from Cons.IH [OF this] Cons.prems(2) show ?case by simp
qed simp

lemma hands_batch:
  assumes "ex_runs mb mbs parallel (fetching k sg w t ys acks) (ex_delivery p g [] rs handed app ak)"
    and "length ys \<le> incoming_cap"
  shows "ex_runs mb mbs parallel (fetching k sg w t [] acks) (ex_delivery p g ys rs (handed @ ys) app ak)"
  using hands [where ys = ys and zs = "[]" and inc = "[]"] assms
  by (cases sg) (simp add: fetching_def)

lemma acknowledges:
  assumes "ex_runs mb mbs parallel (ex_unit r out k) (ex_delivery Selecting Waiting (ms @ inc) [] handed app acks)"
    and "\<forall>m\<in>set ms. Uid m \<noteq> 0" and "length k + length ms \<le> 20"
  shows "\<exists>app acks. ex_runs mb mbs parallel
    (ex_unit r out (k @ map (\<lambda>m. \<lparr>ar_UID = Uid m, ar_Error = None\<rparr>) ms))
    (ex_delivery Selecting Waiting inc [] handed app acks)"
  using assms
proof (induction ms arbitrary: k app acks)
  case Nil
  then show ?case by auto
next
  case (Cons m ms)
  from ex_acknowledge [OF ex_taken] Cons.prems
  have "ex_runs mb mbs parallel (ex_unit r out (k @ [\<lparr>ar_UID = Uid m, ar_Error = None\<rparr>]))
      (ex_delivery Selecting Waiting (ms @ inc) [] handed (app @ [sent_request mb m]) (acks @ [(Uid m, None)]))"
    by simp
  from Cons.IH [OF this] Cons.prems(2,3) show ?case by simp
qed

lemma acknowledges_batch:
  assumes "ex_runs mb mbs parallel (fetching k sg w t out []) (ex_delivery Selecting Waiting ms [] handed app ak)"
    and "\<forall>m\<in>set ms. Uid m \<noteq> 0" and "length ms \<le> 20"
  shows "\<exists>app ak. ex_runs mb mbs parallel
    (fetching k sg w t out (map (\<lambda>m. \<lparr>ar_UID = Uid m, ar_Error = None\<rparr>) ms))
    (ex_delivery Selecting Waiting [] [] handed app ak)"
proof (cases sg)
  case (fields c n S)
  have "ex_runs mb mbs parallel (fetching k sg w t out []) (ex_delivery Selecting Waiting (ms @ []) [] handed app ak)"
    using assms(1) by simp
  from acknowledges [OF this [unfolded fetching_def fields prod.case] assms(2)] assms(3) show ?thesis
    by (simp add: fetching_def fields)
qed

lemma mails_uid: "j < 2 ^ 32 \<Longrightarrow> \<forall>m\<in>set (mails i j). Uid m \<noteq> 0"
proof
  fix m
  assume "j < 2 ^ 32" "m \<in> set (mails i j)"
  then obtain l where l: "m = mail_no l" "i < l" "l \<le> j" by (auto simp: mails_def simp del: upt_Suc)
  with \<open>j < 2 ^ 32\<close> unat_small [of l] show "Uid m \<noteq> 0" by (auto simp: mail_no_def)
qed

lemma mails_none [simp]: "mails i i = []"
  by (simp add: mails_def)

lemma mails_length [simp]: "length (mails i j) = j - i"
  by (simp add: mails_def del: upt_Suc)

text \<open>The first batch waits in the channel, and the receiver fetches the second.\<close>

lemma second_fetch:
  "ex_runs mb mbs parallel (fetching 20 (5, 6, {4, 2}) (FetchRunning (known_numbers 20)) 5 [] [])
     (ex_delivery Selecting Waiting (mails 0 20) [] (mails 0 20) [] [])"
proof -
  let ?d = "ex_delivery Selecting Waiting [] [] [] [] []"
  have start: "recv_start (ex_known None) = ex_sys (round_loop 0 StateNone 0 2 4 {} []) [] {} 0"
    by (simp add: recv_start_def ex_sys_def round_start flip: knows_nothing)
  have "map_iteration (messages (knows 0)) []" using knows_order [of 0] by simp
  then have "unit_step (ex_unit (ex_sys (round_loop 0 StateNone 0 2 4 {} []) [] {} 0) [] [])
      (fetching 0 (4, 5, {2}) (FetchRunning (known_numbers 0)) 1 [] [])"
    unfolding fetching_def prod.case
    by (intro unit_at [OF ex_unit_turn [OF turn_start ex_takes_any(1)]]) (simp_all add: spawned_work_def)
  with ex_runs_start [where mb = mb and mbs = mbs and parallel = parallel, unfolded start]
  have "ex_runs mb mbs parallel (fetching 0 (4, 5, {2}) (FetchRunning (known_numbers 0)) 1 [] []) ?d"
    by (rule ex_receiver)
  from ex_receivers [OF fetches this]
  have "ex_runs mb mbs parallel
      (fetching 20 (4, 5, {2}) (Finishing OperationFetchFinish) (Suc 1) (mails 0 20) []) ?d" by simp
  from hands_batch [OF this] have "ex_runs mb mbs parallel (fetching 20 (4, 5, {2}) (Finishing OperationFetchFinish) (Suc 1) [] [])
      (ex_delivery Selecting Waiting (mails 0 20) [] (mails 0 20) [] [])" by simp
  from ex_receivers [OF starts_again this] show ?thesis by simp
qed

section \<open>Full channels in a circle\<close>

text \<open>
  The loop of the pump is blocked in \<open>Ack\<close> of the first receiver, whose channel of
  acknowledgements is full, and that receiver is blocked handing out a message, whose
  channel is full.
\<close>

definition blocked_circle :: "program \<Rightarrow> bool" where
  "blocked_circle s \<longleftrightarrow>
     (\<exists>uid err. dl_pump (pr_pump s) = Acking 0 uid err \<and> uid \<noteq> 0)
     \<and> \<not> cclosed (ru_acks (pr_units s 0)) \<and> length (cbuf (ru_acks (pr_units s 0))) = ccap (ru_acks (pr_units s 0))
     \<and> ru_outgoing (pr_units s 0) \<noteq> [] \<and> length (dl_incoming (pr_pump s) 0) = incoming_cap
     \<and> ig_phase (dl_ig (pr_pump s)) = Waiting \<and> pr_main s = InCommand"

text \<open>What stays: the loop and the ingest client, what was appended, and the receiver's loop.\<close>

definition stands_still :: "program \<Rightarrow> program \<Rightarrow> bool" where
  "stands_still s t \<longleftrightarrow> pr_main t = pr_main s \<and> dl_pump (pr_pump t) = dl_pump (pr_pump s)
     \<and> dl_ig (pr_pump t) = dl_ig (pr_pump s) \<and> dl_appended (pr_pump t) = dl_appended (pr_pump s)
     \<and> dl_acks (pr_pump t) = dl_acks (pr_pump s) \<and> dl_incoming (pr_pump t) 0 = dl_incoming (pr_pump s) 0
     \<and> ru_outgoing (pr_units t 0) = ru_outgoing (pr_units s 0)
     \<and> ru_acks (pr_units t 0) = ru_acks (pr_units s 0)
     \<and> ticks (ru_sys (pr_units t 0)) = ticks (ru_sys (pr_units s 0))"

lemma pump_blocked:
  assumes "deliver_step True targets d d'" and "dl_pump d = Acking i uid err" and "ig_phase (dl_ig d) = Waiting"
    and "dl_handed d' = dl_handed d" and "dl_acks d' = dl_acks d"
  shows False
  using assms(1)
proof cases
  case (hand i msg)
  with assms(4) have "push i msg (dl_handed d) i = dl_handed d i" by simp
  then show False by simp
next
  case (ack_taken i uid err)
  with assms(5) have "push i (uid, err) (dl_acks d) i = dl_acks d i" by simp
  then show False by simp
qed (use assms(2,3) in simp_all)

lemma blocked_step:
  assumes blocked: "blocked_circle s" and step: "program_step parallel targets s t"
  shows "stands_still s t"
proof -
  obtain uid err where pump: "dl_pump (pr_pump s) = Acking 0 uid err" "uid \<noteq> 0"
    using blocked by (auto simp: blocked_circle_def)
  have full: "Ack uid err (ru_acks (pr_units s 0)) = Blocks"
    using blocked pump(2) by (simp add: blocked_circle_def Ack_def chan_send_def)
  have out: "ru_outgoing (pr_units s 0) \<noteq> []" using blocked by (simp add: blocked_circle_def)
  show ?thesis
    using step
  proof cases
    case (receiver i u)
    have "ru_outgoing u = ru_outgoing (pr_units s i) \<and> ru_acks u = ru_acks (pr_units s i)
        \<and> ticks (ru_sys u) = ticks (ru_sys (pr_units s i))" if "i = 0"
      using receiver(3) by cases (use out that work_frame in auto)
    with receiver(1) show ?thesis by (simp add: stands_still_def)
  next
    case (hand_out i msg ms)
    have "i \<noteq> 0"
    proof
      assume "i = 0"
      with hand_out(4) blocked show False by (simp add: blocked_circle_def)
    qed
    with hand_out(1) show ?thesis by (simp add: stands_still_def)
  next
    case (acknowledge i uid' err' ch)
    with pump full show ?thesis by simp
  next
    case (pump d)
    then have "deliver_step True targets (pr_pump s) d" "dl_handed d = dl_handed (pr_pump s)"
      "dl_acks d = dl_acks (pr_pump s)" by (simp_all add: pump_inner_def)
    with pump_blocked [OF this(1) \<open>dl_pump (pr_pump s) = Acking 0 uid err\<close>] blocked show ?thesis
      by (simp add: blocked_circle_def)
  qed (use blocked in \<open>simp_all add: stands_still_def blocked_circle_def\<close>)
qed

lemma still_blocked: "stands_still s t \<Longrightarrow> blocked_circle s \<Longrightarrow> blocked_circle t"
  by (simp add: stands_still_def blocked_circle_def)

lemma blocked_steps:
  assumes "(program_step parallel targets)\<^sup>*\<^sup>* s t" and "blocked_circle s"
  shows "stands_still s t"
  using assms
proof (induction rule: rtranclp_induct)
  case base
  then show ?case by (simp add: stands_still_def)
next
  case (step y z)
  have "blocked_circle y" using step.IH step.prems by (blast intro: still_blocked)
  from blocked_step [OF this step.hyps(2)] step.IH [OF step.prems] show ?case by (simp add: stands_still_def)
qed

lemma circle_closes:
  obtains s where "runs parallel (mb # mbs) s" and "blocked_circle s"
proof -
  have split: "mails 20 40 = mail_no 21 # mails 21 40" "mails 40 60 = [mail_no 41] @ mails 41 60"
    by (simp_all add: mails_def upt_conv_Cons del: upt_Suc)
  define A where "A = map (\<lambda>m. \<lparr>ar_UID = Uid m, ar_Error = None :: go_error option\<rparr>) (mails 0 20)"
  have A: "length A = 20" by (simp add: A_def)
  obtain app ak where 1: "ex_runs mb mbs parallel (fetching 20 (5, 6, {4, 2}) (FetchRunning (known_numbers 20)) 5 [] A)
      (ex_delivery Selecting Waiting [] [] (mails 0 20) app ak)"
    using acknowledges_batch [OF second_fetch [where mb = mb and mbs = mbs and parallel = parallel]]
      mails_uid [of 20 0] unfolding A_def by auto
  from ex_receivers [OF fetches 1]
  have "ex_runs mb mbs parallel (fetching 40 (5, 6, {4, 2}) (Finishing OperationFetchFinish) 6 (mails 20 40) A)
      (ex_delivery Selecting Waiting [] [] (mails 0 20) app ak)" by simp
  from hands_batch [OF this]
  have "ex_runs mb mbs parallel (fetching 40 (5, 6, {4, 2}) (Finishing OperationFetchFinish) 6 [] A)
      (ex_delivery Selecting Waiting (mails 20 40) [] (mails 0 20 @ mails 20 40) app ak)" by simp
  from ex_receivers [OF starts_again this]
  have "ex_runs mb mbs parallel (fetching 40 (6, 7, {5, 4, 2}) (FetchRunning (known_numbers 40)) 9 [] A)
      (ex_delivery Selecting Waiting (mails 20 40) [] (mails 0 20 @ mails 20 40) app ak)" by simp
  from ex_taken [OF this [unfolded split(1)]] mails_uid [of 40 20]
  obtain app' where "ex_runs mb mbs parallel (fetching 40 (6, 7, {5, 4, 2}) (FetchRunning (known_numbers 40)) 9 [] A)
      (ex_delivery (Acking 0 (Uid (mail_no 21)) None) Waiting (mails 21 40) []
        (mails 0 20 @ mail_no 21 # mails 21 40) app' ak)"
    by (auto simp: split(1))
  from ex_receivers [OF fetches this]
  have "ex_runs mb mbs parallel (fetching 60 (6, 7, {5, 4, 2}) (Finishing OperationFetchFinish) 10
      ([mail_no 41] @ mails 41 60) A)
      (ex_delivery (Acking 0 (Uid (mail_no 21)) None) Waiting (mails 21 40) []
        (mails 0 20 @ mail_no 21 # mails 21 40) app' ak)" by (simp add: split(2))
  then obtain r where r: "ex_runs mb mbs parallel (ex_unit r ([mail_no 41] @ mails 41 60) A)
      (ex_delivery (Acking 0 (Uid (mail_no 21)) None) Waiting (mails 21 40) []
        (mails 0 20 @ mail_no 21 # mails 21 40) app' ak)"
    by (auto simp: fetching_def)
  let ?s = "ex_program (ex_unit r (mails 41 60) A)
      (ex_delivery (Acking 0 (Uid (mail_no 21)) None) Waiting (mails 21 40 @ [mail_no 41]) []
        ((mails 0 20 @ mail_no 21 # mails 21 40) @ [mail_no 41]) app' ak)"
  have run: "runs parallel (mb # mbs) ?s"
    by (rule hands [OF r]) simp
  have "Uid (mail_no 21) \<noteq> 0" using mails_uid [of 40 20] by (simp add: split(1))
  moreover have "mails 41 60 \<noteq> []" using mails_length [of 41 60] by (auto simp del: mails_length)
  ultimately have "blocked_circle ?s" using A by (simp add: blocked_circle_def ex_program_def)
  with run that show thesis by blast
qed

end
