(* ===== verification/GoStrings.thy ===== *)
theory GoStrings
  imports Prelude
begin

text \<open>
  What the configuration code uses of Go's \<open>strings\<close>, \<open>net\<close>, \<open>net/url\<close> and \<open>path\<close>
  packages, on strings of ASCII characters: case conversion, trimming, splitting an
  address into host and port and joining it again, and the lexical cleaning of paths.
\<close>

section \<open>Characters and prefixes\<close>

definition lower_char :: "char \<Rightarrow> char" where
  "lower_char c = (let n = (of_char c :: nat) in if 65 \<le> n \<and> n \<le> 90 then char_of (n + 32) else c)"

definition upper_char :: "char \<Rightarrow> char" where
  "upper_char c = (let n = (of_char c :: nat) in if 97 \<le> n \<and> n \<le> 122 then char_of (n - 32) else c)"

text \<open>The same on the bits of a character, as evaluation uses it.\<close>

lemma lower_char_code [code]:
  "lower_char (Char b0 b1 b2 b3 b4 b5 b6 b7) =
    Char b0 b1 b2 b3 b4 (b5 \<or> (b6 \<and> \<not> b7 \<and> (b0 \<or> b1 \<or> b2 \<or> b3 \<or> b4)
      \<and> \<not> (b4 \<and> b3 \<and> (b2 \<or> (b1 \<and> b0))))) b6 b7"
  by (cases b0; cases b1; cases b2; cases b3; cases b4; cases b5; cases b6; cases b7;
      simp add: lower_char_def Let_def char_of_def bit_0)

lemma upper_char_code [code]:
  "upper_char (Char b0 b1 b2 b3 b4 b5 b6 b7) =
    Char b0 b1 b2 b3 b4 (b5 \<and> \<not> (b6 \<and> \<not> b7 \<and> (b0 \<or> b1 \<or> b2 \<or> b3 \<or> b4)
      \<and> \<not> (b4 \<and> b3 \<and> (b2 \<or> (b1 \<and> b0))))) b6 b7"
  by (cases b0; cases b1; cases b2; cases b3; cases b4; cases b5; cases b6; cases b7;
      simp add: upper_char_def Let_def char_of_def bit_0)

definition ToLower :: "string \<Rightarrow> string" where
  "ToLower s = map lower_char s"

definition ToUpper :: "string \<Rightarrow> string" where
  "ToUpper s = map upper_char s"

text \<open>\<open>strings.ReplaceAll\<close> with strings of one character.\<close>

definition ReplaceAll :: "string \<Rightarrow> char \<Rightarrow> char \<Rightarrow> string" where
  "ReplaceAll s old new = map (\<lambda>c. if c = old then new else c) s"

fun HasPrefix :: "string \<Rightarrow> string \<Rightarrow> bool" where
  "HasPrefix s [] = True"
| "HasPrefix [] (p # ps) = False"
| "HasPrefix (c # cs) (p # ps) = (c = p \<and> HasPrefix cs ps)"

lemma HasPrefix_iff: "HasPrefix s p \<longleftrightarrow> (\<exists>rest. s = p @ rest)"
  by (induction s p rule: HasPrefix.induct) auto

definition TrimPrefix :: "string \<Rightarrow> string \<Rightarrow> string" where
  "TrimPrefix s p = (if HasPrefix s p then drop (length p) s else s)"

definition space_char :: "char \<Rightarrow> bool" where
  "space_char c \<longleftrightarrow> of_char c \<in> {9, 10, 11, 12, 13, 32 :: nat}"

definition TrimSpace :: "string \<Rightarrow> string" where
  "TrimSpace s = rev (dropWhile space_char (rev (dropWhile space_char s)))"

lemma upper_lower_char [simp]: "upper_char (lower_char c) = upper_char c"
  by (auto simp: upper_char_def lower_char_def Let_def)

lemma upper_upper_char [simp]: "upper_char (upper_char c) = upper_char c"
  by (auto simp: upper_char_def Let_def)

lemma ToUpper_idem [simp]: "ToUpper (ToUpper s) = ToUpper s"
  by (simp add: ToUpper_def)

lemma ToUpper_append: "ToUpper (s @ t) = ToUpper s @ ToUpper t"
  by (simp add: ToUpper_def)

lemma ReplaceAll_append: "ReplaceAll (s @ t) old new = ReplaceAll s old new @ ReplaceAll t old new"
  by (simp add: ReplaceAll_def)

lemma ReplaceAll_Nil [simp]: "ReplaceAll [] old new = []"
  by (simp add: ReplaceAll_def)

section \<open>Host and port\<close>

text \<open>
  The last colon splits an address when what follows it is empty or digits; the brackets
  of an IPv6 host come off. \<open>last_split\<close> splits at the last occurrence of a character.
\<close>

fun last_split :: "char \<Rightarrow> string \<Rightarrow> (string \<times> string) option" where
  "last_split c [] = None"
| "last_split c (x # xs) =
     (case last_split c xs of
        Some (a, b) \<Rightarrow> Some (x # a, b)
      | None \<Rightarrow> if x = c then Some ([], xs) else None)"

definition digit_char :: "char \<Rightarrow> bool" where
  "digit_char c \<longleftrightarrow> (let n = (of_char c :: nat) in 48 \<le> n \<and> n \<le> 57)"

definition strip_brackets :: "string \<Rightarrow> string" where
  "strip_brackets h =
     (if length h \<ge> 2 \<and> hd h = CHR ''['' \<and> last h = CHR '']'' then butlast (tl h) else h)"

definition splitHostPort :: "string \<Rightarrow> string \<times> string" where
  "splitHostPort hostPort =
     (case last_split (CHR '':'') hostPort of
        Some (h, p) \<Rightarrow> if list_all digit_char p then (strip_brackets h, p) else (strip_brackets hostPort, [])
      | None \<Rightarrow> (strip_brackets hostPort, []))"

definition JoinHostPort :: "string \<Rightarrow> string \<Rightarrow> string" where
  "JoinHostPort host port =
     (if CHR '':'' \<in> set host then ''['' @ host @ '']:'' @ port else host @ '':'' @ port)"

lemma last_split_None: "last_split c s = None \<longleftrightarrow> c \<notin> set s"
  by (induction s) (auto split: option.splits)

lemma last_split_append: "c \<notin> set t \<Longrightarrow> last_split c (s @ c # t) = Some (s, t)"
proof (induction s)
  case Nil
  then show ?case by (simp add: last_split_None [THEN iffD2])
qed simp

lemma digits_no_colon: "list_all digit_char p \<Longrightarrow> CHR '':'' \<notin> set p"
  by (auto simp: list_all_iff digit_char_def Let_def)

text \<open>
  An address is taken apart into the host and the port it was made of, whether the host is
  a name or an IPv6 address.
\<close>

lemma split_join_host_port:
  assumes "list_all digit_char port" and "CHR ''['' \<notin> set host"
  shows "splitHostPort (JoinHostPort host port) = (host, port)"
proof (cases "CHR '':'' \<in> set host")
  case True
  have "JoinHostPort host port = (''['' @ host @ '']'') @ CHR '':'' # port"
    using True by (simp add: JoinHostPort_def)
  then have "last_split (CHR '':'') (JoinHostPort host port) = Some (''['' @ host @ '']'', port)"
    using last_split_append [OF digits_no_colon [OF assms(1)], of "''['' @ host @ '']''"] by simp
  with assms(1) show ?thesis by (simp add: splitHostPort_def strip_brackets_def)
next
  case False
  have "JoinHostPort host port = host @ CHR '':'' # port"
    using False by (simp add: JoinHostPort_def)
  then have "last_split (CHR '':'') (JoinHostPort host port) = Some (host, port)"
    using last_split_append [OF digits_no_colon [OF assms(1)], of host] by simp
  moreover have "strip_brackets host = host"
    using assms(2) by (cases host) (auto simp: strip_brackets_def)
  ultimately show ?thesis using assms(1) by (simp add: splitHostPort_def)
qed

section \<open>Paths\<close>

fun split_on :: "char \<Rightarrow> string \<Rightarrow> string list" where
  "split_on sep [] = [[]]"
| "split_on sep (c # cs) =
     (if c = sep then [] # split_on sep cs
      else (case split_on sep cs of [] \<Rightarrow> [[c]] | x # xs \<Rightarrow> (c # x) # xs))"

fun join_with :: "char \<Rightarrow> string list \<Rightarrow> string" where
  "join_with sep [] = []"
| "join_with sep [x] = x"
| "join_with sep (x # y # ys) = x @ sep # join_with sep (y # ys)"

text \<open>
  \<open>Clean\<close> drops empty elements and dots, lets \<open>..\<close> take back the element before it, drops
  \<open>..\<close> at the root and keeps it at the start of a relative path. \<open>st\<close> is the output so far,
  last element first.
\<close>

definition path_elements :: "string \<Rightarrow> string list" where
  "path_elements s = filter (\<lambda>e. e \<noteq> [] \<and> e \<noteq> ''.'') (split_on (CHR ''/'') s)"

fun backtrack :: "bool \<Rightarrow> string list \<Rightarrow> string list \<Rightarrow> string list" where
  "backtrack rooted st [] = rev st"
| "backtrack rooted st (e # es) =
     (if e = ''..'' then
        (if st = [] then backtrack rooted (if rooted then [] else [''..'']) es
         else if hd st = ''..'' then backtrack rooted (''..'' # st) es
         else backtrack rooted (tl st) es)
      else backtrack rooted (e # st) es)"

definition path_Clean :: "string \<Rightarrow> string" where
  "path_Clean s =
     (let rooted = (HasPrefix s ''/'');
          out = join_with (CHR ''/'') (backtrack rooted [] (path_elements s))
      in if rooted then CHR ''/'' # out else if out = [] then ''.'' else out)"

definition path_Join :: "string \<Rightarrow> string \<Rightarrow> string" where
  "path_Join a b =
     (let elems = filter (\<lambda>e. e \<noteq> []) [a, b]
      in if elems = [] then [] else path_Clean (join_with (CHR ''/'') elems))"

lemma split_on_no_sep: "e \<in> set (split_on sep s) \<Longrightarrow> sep \<notin> set e"
  by (induction s arbitrary: e) (auto split: if_splits list.splits)

lemma split_on_elem: "sep \<notin> set x \<Longrightarrow> split_on sep x = [x]"
  by (induction x) auto

lemma split_on_append: "sep \<notin> set x \<Longrightarrow> split_on sep (x @ sep # s) = x # split_on sep s"
  by (induction x) auto

lemma split_on_join:
  assumes "xs \<noteq> []" and "\<forall>x\<in>set xs. sep \<notin> set x"
  shows "split_on sep (join_with sep xs) = xs"
  using assms by (induction sep xs rule: join_with.induct) (auto simp: split_on_elem split_on_append)

text \<open>
  The elements \<open>Clean\<close> leaves: none empty, none a dot, no slash in them, and \<open>..\<close> only at
  the start of a relative path. Cleaning such a list again changes nothing.
\<close>

definition plain_element :: "string \<Rightarrow> bool" where
  "plain_element e \<longleftrightarrow> e \<noteq> [] \<and> e \<noteq> ''.'' \<and> CHR ''/'' \<notin> set e"

fun clean_stack :: "bool \<Rightarrow> string list \<Rightarrow> bool" where
  "clean_stack rooted [] = True"
| "clean_stack rooted (e # st) = (plain_element e \<and> clean_stack rooted st
     \<and> (e = ''..'' \<longrightarrow> \<not> rooted \<and> set st \<subseteq> {''..''}))"

lemma clean_stack_dots:
  "clean_stack rooted (''..'' # st) \<Longrightarrow> \<not> rooted \<and> set st \<subseteq> {''..''}"
  by simp

lemma clean_stack_suffix: "clean_stack rooted (xs @ st) \<Longrightarrow> clean_stack rooted st"
  by (induction xs) auto

lemma clean_stack_plain: "clean_stack rooted st \<Longrightarrow> e \<in> set st \<Longrightarrow> plain_element e"
  by (induction st) auto

lemma path_elements_plain: "e \<in> set (path_elements s) \<Longrightarrow> plain_element e"
  by (auto simp: path_elements_def plain_element_def dest: split_on_no_sep)

lemma backtrack_clean:
  assumes "clean_stack rooted st" and "\<forall>e\<in>set es. plain_element e"
  shows "clean_stack rooted (rev (backtrack rooted st es))"
  using assms
proof (induction rooted st es rule: backtrack.induct)
  case (1 rooted st)
  then show ?case by simp
next
  case (2 rooted st e es)
  show ?case
  proof (cases "e = ''..''")
    case False
    with 2 show ?thesis by simp
  next
    case True
    with 2 show ?thesis by (cases st) auto
  qed
qed

lemma backtrack_dots:
  "set st \<subseteq> {''..''} \<Longrightarrow> backtrack False st (''..'' # es) = backtrack False (''..'' # st) es"
  by (cases st) auto

text \<open>A clean list goes through unchanged.\<close>

lemma backtrack_id:
  "clean_stack rooted (rev es @ st) \<Longrightarrow> backtrack rooted st es = rev st @ es"
proof (induction es arbitrary: st)
  case Nil
  then show ?case by simp
next
  case (Cons e es)
  have tail: "clean_stack rooted (rev es @ (e # st))" using Cons.prems by simp
  have "clean_stack rooted (e # st)"
    using tail by (rule clean_stack_suffix)
  then have "e = ''..'' \<Longrightarrow> \<not> rooted \<and> set st \<subseteq> {''..''}" by simp
  then have "backtrack rooted st (e # es) = backtrack rooted (e # st) es"
    using backtrack_dots by (cases "e = ''..''") auto
  with Cons.IH [OF tail] show ?case by simp
qed

lemma join_with_Nil: "join_with sep xs = [] \<Longrightarrow> \<forall>x\<in>set xs. x \<noteq> [] \<Longrightarrow> xs = []"
  by (induction sep xs rule: join_with.induct) auto

lemma path_elements_join:
  assumes "\<forall>e\<in>set es. plain_element e"
  shows "path_elements (join_with (CHR ''/'') es) = es"
proof (cases "es = []")
  case True
  then show ?thesis by (simp add: path_elements_def)
next
  case False
  with assms have "split_on (CHR ''/'') (join_with (CHR ''/'') es) = es"
    by (intro split_on_join) (auto simp: plain_element_def)
  with assms show ?thesis by (simp add: path_elements_def plain_element_def filter_id_conv)
qed

lemma join_with_hd:
  assumes "es \<noteq> []" and "\<forall>e\<in>set es. plain_element e"
  shows "\<not> HasPrefix (join_with (CHR ''/'') es) ''/''"
proof -
  from assms obtain c e rest where es: "es = (c # e) # rest" and "c \<noteq> CHR ''/''"
    by (cases es) (auto simp: plain_element_def neq_Nil_conv)
  moreover have "\<exists>s. join_with (CHR ''/'') es = c # s" using es by (cases rest) simp_all
  ultimately show ?thesis by auto
qed

lemma path_elements_slash: "path_elements (CHR ''/'' # s) = path_elements s"
  by (simp add: path_elements_def)

lemma path_Clean_slash:
  "path_Clean (CHR ''/'' # s) = CHR ''/'' # join_with (CHR ''/'') (backtrack True [] (path_elements s))"
  by (simp add: path_Clean_def path_elements_slash)

text \<open>Cleaning is done once: a clean path is its own cleaning.\<close>

lemma path_Clean_idem: "path_Clean (path_Clean s) = path_Clean s"
proof -
  define rooted where "rooted = HasPrefix s ''/''"
  define es where "es = backtrack rooted [] (path_elements s)"
  have clean: "clean_stack rooted (rev es)"
    unfolding es_def by (rule backtrack_clean) (simp_all add: path_elements_plain)
  then have plain: "\<forall>e\<in>set es. plain_element e"
    using clean_stack_plain [OF clean] by simp
  have again: "backtrack rooted [] es = es"
    using backtrack_id [of rooted es "[]"] clean by simp
  have s: "path_Clean s = (let out = join_with (CHR ''/'') es in
      if rooted then CHR ''/'' # out else if out = [] then ''.'' else out)"
    unfolding path_Clean_def rooted_def es_def Let_def by simp
  show ?thesis
  proof (cases "rooted")
    case True
    then show ?thesis
      using s again path_elements_join [OF plain] by (simp add: path_Clean_slash)
  next
    case False
    show ?thesis
    proof (cases "es = []")
      case True
      with s False have "path_Clean s = ''.''" by simp
      moreover have "path_Clean ''.'' = ''.''" by code_simp
      ultimately show ?thesis by simp
    next
      case nonempty: False
      with plain have out: "join_with (CHR ''/'') es \<noteq> []"
        using join_with_Nil by (fastforce simp: plain_element_def)
      with s False have "path_Clean s = join_with (CHR ''/'') es" by (simp add: Let_def)
      moreover have "\<not> HasPrefix (join_with (CHR ''/'') es) ''/''"
        using nonempty plain by (rule join_with_hd)
      ultimately show ?thesis
        using False again path_elements_join [OF plain] out by (simp add: path_Clean_def Let_def)
    qed
  qed
qed

end
