(* ===== verification/PersistentClient.thy ===== *)
theory PersistentClient
  imports Imap
begin

text \<open>
  The client that survives disconnections, \<open>imap/persistentclient\<close>: the calls of its
  methods as requests to one goroutine, the delay between attempts to connect, and what
  that goroutine, \<open>run\<close>, does at each of its selects. The goroutine and its callers as a
  transition system are in \<open>PersistentSystem\<close>.
\<close>

section \<open>Requests\<close>

text \<open>
  A caller is a goroutine inside a method of the client; it waits on the response channel
  of its own request, so the caller stands for the field \<open>r\<close> of each request. A channel
  for messages or sequence numbers is kept as whether it is there: all the client does
  with it is to close it or to pass it on.
\<close>

type_synonym caller = nat
type_synonym stop_channel = nat

record IdleOptions =
  io_LogoutTimeout :: duration
  io_PollInterval :: duration

datatype pc_request =
    IdleRequest "stop_channel option" "IdleOptions option"
  | SelectRequest string bool
  | FetchRequest SeqSet "FetchItem list" bool
  | ExpungeRequest bool
  | UidStoreRequest SeqSet string "string list" bool
  | AppendRequest string "string list" time "literal option"
  | MailboxRequest
  | LogoutRequest

text \<open>What a method returns: an error, the response to a select, or a mailbox status.\<close>

datatype answer =
    ErrAnswer "go_error option"
  | SelectResponse "MailboxStatus option" "go_error option"
  | StatusAnswer "MailboxStatus option"

fun answers :: "pc_request \<Rightarrow> answer \<Rightarrow> bool" where
  "answers (SelectRequest name readOnly) a = (case a of SelectResponse _ _ \<Rightarrow> True | _ \<Rightarrow> False)"
| "answers MailboxRequest a = (case a of StatusAnswer _ \<Rightarrow> True | _ \<Rightarrow> False)"
| "answers _ a = (case a of ErrAnswer _ \<Rightarrow> True | _ \<Rightarrow> False)"

text \<open>The channel the caller handed over, which it reads until it is closed.\<close>

fun result_channel :: "pc_request \<Rightarrow> bool" where
  "result_channel (FetchRequest _ _ ch) = ch"
| "result_channel (ExpungeRequest ch) = ch"
| "result_channel (UidStoreRequest _ _ _ ch) = ch"
| "result_channel _ = False"

fun idle_request :: "pc_request \<Rightarrow> bool" where
  "idle_request (IdleRequest _ _) = True"
| "idle_request _ = False"

section \<open>Methods\<close>

text \<open>
  A method either returns at once, with an answer and whether it closed the caller's
  channel, or sends its request and waits. \<open>shutdown\<close> is the atomic flag of that name.
\<close>

datatype call_start = Returns answer bool | Sends pc_request

definition pc_Idle :: "bool \<Rightarrow> stop_channel option \<Rightarrow> IdleOptions option \<Rightarrow> call_start" where
  "pc_Idle shutdown stop opts =
     (if shutdown then Returns (ErrAnswer (Some PClientConnectionClosed)) False
      else Sends (IdleRequest stop opts))"

definition pc_Select :: "bool \<Rightarrow> string \<Rightarrow> bool \<Rightarrow> call_start" where
  "pc_Select shutdown name readOnly =
     (if shutdown then Returns (SelectResponse None (Some PClientConnectionClosed)) False
      else Sends (SelectRequest name readOnly))"

definition pc_Fetch :: "bool \<Rightarrow> SeqSet \<Rightarrow> FetchItem list \<Rightarrow> bool \<Rightarrow> call_start" where
  "pc_Fetch shutdown seqset items ch =
     (if shutdown then Returns (ErrAnswer (Some PClientConnectionClosed)) ch
      else Sends (FetchRequest seqset items ch))"

definition pc_Expunge :: "bool \<Rightarrow> bool \<Rightarrow> call_start" where
  "pc_Expunge shutdown ch =
     (if shutdown then Returns (ErrAnswer (Some PClientConnectionClosed)) ch
      else Sends (ExpungeRequest ch))"

definition pc_UidStore :: "bool \<Rightarrow> SeqSet \<Rightarrow> string \<Rightarrow> string list \<Rightarrow> bool \<Rightarrow> call_start" where
  "pc_UidStore shutdown seqset item vals ch =
     (if shutdown then Returns (ErrAnswer (Some PClientConnectionClosed)) ch
      else Sends (UidStoreRequest seqset item vals ch))"

definition pc_Append :: "bool \<Rightarrow> string \<Rightarrow> string list \<Rightarrow> time \<Rightarrow> literal option \<Rightarrow> call_start" where
  "pc_Append shutdown mbox flags date msg =
     (if shutdown then Returns (ErrAnswer (Some PClientConnectionClosed)) False
      else Sends (AppendRequest mbox flags date msg))"

text \<open>The status that is made up when there is no connection to ask.\<close>

definition named_status :: "string \<Rightarrow> MailboxStatus" where
  "named_status mailbox = \<lparr>mb_Name = mailbox, mb_Messages = 0\<rparr>"

definition pc_Mailbox :: "string \<Rightarrow> bool \<Rightarrow> call_start" where
  "pc_Mailbox mailbox shutdown =
     (if shutdown then Returns (StatusAnswer (Some (named_status mailbox))) False
      else Sends MailboxRequest)"

text \<open>\<open>Logout\<close> sets the flag by compare-and-swap: only the first call sends a request.\<close>

definition pc_Logout :: "bool \<Rightarrow> bool \<times> call_start" where
  "pc_Logout shutdown =
     (True, if shutdown then Returns (ErrAnswer None) False else Sends LogoutRequest)"

text \<open>\<open>FlagQuit\<close> starts a goroutine that calls \<open>Logout\<close>, or does nothing.\<close>

definition pc_FlagQuit :: "bool \<Rightarrow> pc_request option" where
  "pc_FlagQuit shutdown = (if shutdown then None else Some LogoutRequest)"

text \<open>The method that would send the request \<open>q\<close>, called in a given state of the flag.\<close>

fun pc_call :: "string \<Rightarrow> bool \<Rightarrow> pc_request \<Rightarrow> bool \<times> call_start" where
  "pc_call mailbox shutdown (IdleRequest stop opts) = (shutdown, pc_Idle shutdown stop opts)"
| "pc_call mailbox shutdown (SelectRequest name ro) = (shutdown, pc_Select shutdown name ro)"
| "pc_call mailbox shutdown (FetchRequest ss items ch) = (shutdown, pc_Fetch shutdown ss items ch)"
| "pc_call mailbox shutdown (ExpungeRequest ch) = (shutdown, pc_Expunge shutdown ch)"
| "pc_call mailbox shutdown (UidStoreRequest ss item fs ch) =
     (shutdown, pc_UidStore shutdown ss item fs ch)"
| "pc_call mailbox shutdown (AppendRequest mbox fs d m) = (shutdown, pc_Append shutdown mbox fs d m)"
| "pc_call mailbox shutdown MailboxRequest = (shutdown, pc_Mailbox mailbox shutdown)"
| "pc_call mailbox shutdown LogoutRequest = pc_Logout shutdown"

lemmas pc_methods = pc_Idle_def pc_Select_def pc_Fetch_def pc_Expunge_def pc_UidStore_def
  pc_Append_def pc_Mailbox_def pc_Logout_def

lemma pc_call_sends: "pc_call mailbox sh q = (sh', Sends q') \<Longrightarrow> \<not> sh \<and> q' = q \<and> sh' = (q = LogoutRequest)"
  by (cases q) (auto simp: pc_methods split: if_splits)

lemma pc_call_returns:
  "pc_call mailbox sh q = (sh', Returns a c) \<Longrightarrow> sh \<and> sh' \<and> answers q a \<and> c = result_channel q"
  by (cases q) (auto simp: pc_methods split: if_splits)

section \<open>Connecting\<close>

text \<open>
  \<open>makeAndInitClient\<close> connects and authenticates, then selects the configured mailbox, if
  there is one; a client whose mailbox cannot be selected is logged out. \<open>sel\<close> is the
  server's answer to a select.
\<close>

datatype init_effect = ConnEffect conn_effect | InitSelect string bool | InitLogout

definition makeAndInitClient ::
  "ConnectionConfig \<Rightarrow> bool \<Rightarrow> (conn_effect \<Rightarrow> go_error option) \<Rightarrow> go_error + string \<Rightarrow>
    (auth_call \<Rightarrow> go_error option) \<Rightarrow> (string \<Rightarrow> bool \<Rightarrow> go_error option) \<Rightarrow>
    go_error option \<times> init_effect list"
where
  "makeAndInitClient cfg readOnly dial tok srv sel =
     (case client_NewClient
         \<lparr>HostPort = HostPort cfg, Auth = Auth cfg, cc_Mailbox = [], TLS = TLS cfg,
          TLSConfig = TLSConfig cfg, cc_Debug = cc_Debug cfg\<rparr> dial tok srv of
        (Inl err, effs) \<Rightarrow> (Some err, map ConnEffect effs)
      | (Inr _, effs) \<Rightarrow>
          (if cc_Mailbox cfg \<noteq> [] then
             (case sel (cc_Mailbox cfg) readOnly of
                Some err \<Rightarrow> (Some err, map ConnEffect effs @ [InitSelect (cc_Mailbox cfg) readOnly, InitLogout])
              | None \<Rightarrow> (None, map ConnEffect effs @ [InitSelect (cc_Mailbox cfg) readOnly]))
           else (None, map ConnEffect effs)))"

text \<open>
  The delay before the next attempt. \<open>r\<close> is the result of \<open>rand.Intn(1000)\<close>, between 0
  and 999; durations are signed 64-bit nanoseconds.
\<close>

definition next_delay :: "duration \<Rightarrow> nat \<Rightarrow> duration \<Rightarrow> duration" where
  "next_delay maxDelay r nextDelay =
     (let d = (if nextDelay = 0 then second
               else dur_mul 2 (dur_sub nextDelay (go_rem nextDelay (1000 * millisecond))));
          d = dur_add d (dur_mul (int r) millisecond)
      in if d > maxDelay then maxDelay else d)"

text \<open>The largest delay, as \<open>NewClient\<close> settles it.\<close>

definition settled_MaxDelay :: "duration \<Rightarrow> duration" where
  "settled_MaxDelay maxDelay =
     (if maxDelay = 0 then 64 * second else if maxDelay < second then second else maxDelay)"

section \<open>The delays\<close>

text \<open>The delay after a row of failed attempts, whose random numbers are \<open>rs\<close>.\<close>

definition backoff :: "duration \<Rightarrow> duration \<Rightarrow> nat list \<Rightarrow> duration" where
  "backoff maxDelay d rs = foldl (\<lambda>d r. next_delay maxDelay r d) d rs"

lemma settled_MaxDelay_bounds:
  assumes "maxDelay \<le> 2 ^ 61"
  shows "second \<le> settled_MaxDelay maxDelay" and "settled_MaxDelay maxDelay \<le> 2 ^ 61"
  using assms by (simp_all add: settled_MaxDelay_def)

lemma next_delay_first:
  assumes "second \<le> M" and "M \<le> 2 ^ 61" and "r < 1000"
  shows "next_delay M r 0 = min M (second + int r * millisecond)"
proof -
  have "dur_mul (int r) millisecond = int r * millisecond"
    using assms(3) by (simp add: dur_mul_def to_int64_id)
  moreover have "dur_add second (int r * millisecond) = second + int r * millisecond"
    using assms(3) by (simp add: dur_add_def to_int64_id)
  ultimately show ?thesis by (simp add: next_delay_def Let_def min_def)
qed

lemma next_delay_step:
  assumes "0 < d" and "d \<le> M" and "M \<le> 2 ^ 61" and "r < 1000"
  shows "next_delay M r d = min M (2 * (d - d mod second) + int r * millisecond)"
proof -
  have mod: "0 \<le> d mod second" "d mod second \<le> d"
    using assms(1) by (simp_all add: zmod_le_nonneg_dividend)
  have "go_rem d (1000 * millisecond) = d mod second"
    using assms(1) by (simp add: go_rem_nonneg)
  moreover have "dur_sub d (d mod second) = d - d mod second"
    using assms mod by (simp add: dur_sub_def to_int64_id)
  moreover have "dur_mul 2 (d - d mod second) = 2 * (d - d mod second)"
    using assms mod by (simp add: dur_mul_def to_int64_id)
  moreover have "dur_mul (int r) millisecond = int r * millisecond"
    using assms(4) by (simp add: dur_mul_def to_int64_id)
  moreover have "dur_add (2 * (d - d mod second)) (int r * millisecond)
      = 2 * (d - d mod second) + int r * millisecond"
    using assms mod by (simp add: dur_add_def to_int64_id)
  ultimately show ?thesis using assms(1) by (simp add: next_delay_def Let_def min_def)
qed

text \<open>Below the cap the whole seconds double; at the cap the delay stays.\<close>

lemma next_delay_doubles:
  assumes M: "second \<le> M" "M \<le> 2 ^ 61" and r: "q < 1000" "r < 1000"
  shows "next_delay M r (min M (2 ^ n * second + int q * millisecond))
    = min M (2 ^ Suc n * second + int r * millisecond)"
proof (cases "2 ^ n * second + int q * millisecond \<le> M")
  case True
  have "(2 ^ n * second + int q * millisecond) mod second = int q * millisecond"
    using r(1) by (simp add: mod_mult_self4 mod_pos_pos_trivial)
  moreover have "0 < 2 ^ n * second + int q * millisecond"
    by (rule add_pos_nonneg) simp_all
  ultimately show ?thesis
    using next_delay_step [OF _ True M(2) r(2)] True by (simp add: min_absorb2)
next
  case False
  have "1 \<le> M div second" using zdiv_mono1 [OF M(1), of second] by simp
  then have "second + M mod second \<le> M"
    using mult_left_mono [of 1 "M div second" second] mult_div_mod_eq [of second M] by linarith
  moreover have "M mod second < second" by simp
  moreover have "second + x \<le> M \<Longrightarrow> x < second \<Longrightarrow> M < 2 * (M - x)" for x by simp
  ultimately have "M < 2 * (M - M mod second)" by blast
  moreover have "0 < M" using M(1) by simp
  ultimately have "next_delay M r M = M"
    using next_delay_step [OF \<open>0 < M\<close> order.refl M(2) r(2)] by (simp add: min_def)
  moreover have "M \<le> 2 * P * second + int r * millisecond"
    if "M < P * second + int q * millisecond" "1 \<le> P" for P
    using that r(1) by linarith
  from this [of "2 ^ n"] have "M \<le> 2 ^ Suc n * second + int r * millisecond"
    using False by simp
  ultimately show ?thesis using False by (simp add: min_absorb1)
qed

lemma backoff_from:
  assumes M: "second \<le> M" "M \<le> 2 ^ 61" and rs: "\<forall>r\<in>set rs. r < 1000" and q: "q < 1000"
  shows "backoff M (min M (2 ^ n * second + int q * millisecond)) rs
    = min M (2 ^ (n + length rs) * second + int (last (q # rs)) * millisecond)"
  using rs q
proof (induction rs arbitrary: n q)
  case Nil
  then show ?case by (simp add: backoff_def)
next
  case (Cons r rs)
  then have "backoff M (min M (2 ^ Suc n * second + int r * millisecond)) rs
    = min M (2 ^ (Suc n + length rs) * second + int (last (r # rs)) * millisecond)"
    by (intro Cons.IH) simp_all
  with next_delay_doubles [OF M, of q r n] Cons.prems show ?case
    by (simp add: backoff_def)
qed

text \<open>
  C24: failed attempts to connect back off exponentially: after \<open>n\<close> failures in a row the
  delay is \<open>2^(n-1)\<close> seconds, after a connection that was lost \<open>2^n\<close> seconds, and up to
  999 ms of random jitter that is not accumulated, cut off at the configured maximum (at
  least one second, 64 seconds by default), where it stays. No step overflows for a
  maximum of up to \<open>2^61\<close> nanoseconds.
\<close>

theorem backoff_is_exponential:
  assumes "maxDelay \<le> 2 ^ 61" and "\<forall>r\<in>set (rs @ [r]). r < 1000"
  shows "backoff (settled_MaxDelay maxDelay) 0 (rs @ [r])
      = min (settled_MaxDelay maxDelay) (2 ^ length rs * second + int r * millisecond)
    \<and> backoff (settled_MaxDelay maxDelay) second (rs @ [r])
      = min (settled_MaxDelay maxDelay) (2 ^ Suc (length rs) * second + int r * millisecond)"
proof -
  note M = settled_MaxDelay_bounds [OF assms(1)]
  obtain q qs where qs: "rs @ [r] = q # qs" by (cases "rs @ [r]") auto
  then have len: "length rs = length qs" and last: "last (q # qs) = r"
    by (metis length_append_singleton length_Cons nat.inject, metis last_snoc)
  have "backoff (settled_MaxDelay maxDelay) 0 (rs @ [r])
      = backoff (settled_MaxDelay maxDelay)
          (min (settled_MaxDelay maxDelay) (2 ^ 0 * second + int q * millisecond)) qs"
    using assms(2) qs next_delay_first [OF M] by (simp add: backoff_def)
  moreover have "backoff (settled_MaxDelay maxDelay) second (rs @ [r])
      = backoff (settled_MaxDelay maxDelay)
          (min (settled_MaxDelay maxDelay) (2 ^ 0 * second + int 0 * millisecond)) (rs @ [r])"
    using M by (simp add: min_absorb2)
  moreover have "\<forall>r\<in>set qs. r < 1000" "q < 1000" using assms(2) qs by auto
  ultimately show ?thesis
    using backoff_from [OF M, of qs q 0] backoff_from [OF M, of "rs @ [r]" 0 0] assms(2) len last
    by simp
qed

theorem backoff_is_exponential_witness:
  "backoff 64000000000 0 [0, 999, 500] = 4500000000"
  using backoff_is_exponential [of 0 "[0, 999]" 500] by (simp add: settled_MaxDelay_def)

text \<open>
  A client that cannot be initialised is closed: when the configured mailbox cannot be
  selected, or the authentication fails, the last thing done is the log-out; a client that
  is returned is not logged out and has the configured mailbox selected.
\<close>

theorem init_client_cleanup:
  "(case makeAndInitClient cfg readOnly dial tok srv sel of
      (Some err, effs) \<Rightarrow> (\<exists>d. effs = [ConnEffect d] \<and> dial d = Some err)
        \<or> last effs \<in> {InitLogout, ConnEffect ConnLogout}
    | (None, effs) \<Rightarrow> InitLogout \<notin> set effs \<and> ConnEffect ConnLogout \<notin> set effs
        \<and> (cc_Mailbox cfg = [] \<or> last effs = InitSelect (cc_Mailbox cfg) readOnly
            \<and> sel (cc_Mailbox cfg) readOnly = None))"
  by (auto simp: makeAndInitClient_def client_NewClient_def Let_def
      split: option.splits prod.splits sum.splits if_splits)

end
