(* ===== verification/PersistentSystem.thy ===== *)
theory PersistentSystem
  imports PersistentClient
begin

text \<open>
  The goroutine \<open>run\<close> of the persistent client, select by select, and the system it
  forms with the goroutines that call the client: who is waiting for what, and what
  happens to them when connections come and go and when the client is shut down.
\<close>

section \<open>The goroutine's own state\<close>

datatype clientState = ClientStateDisconnected | ClientStateConnected

text \<open>
  \<open>rn_client\<close> is \<open>c.c != nil\<close>; \<open>rn_idle\<close> is the request of \<open>c.idle\<close>, with its caller;
  the rest are \<open>stopIdle\<close> and the local variables of \<open>run\<close>.
\<close>

record runner =
  rn_state :: clientState
  rn_client :: bool
  rn_nextDelay :: duration
  rn_idle :: "(caller \<times> stop_channel option \<times> IdleOptions option) option"
  rn_stopIdle :: "stop_channel option"

definition run_start :: runner where
  "run_start = \<lparr>rn_state = ClientStateDisconnected, rn_client = False, rn_nextDelay = 0,
     rn_idle = None, rn_stopIdle = None\<rparr>"

text \<open>
  Where the goroutine is: at a select, connecting, waiting for the server (in the IDLE
  that took over a pretended one, or with a caller's request), at the label \<open>done\<close> with the
  logout request it came for, draining, or gone.
\<close>

datatype run_place =
    AtSelect
  | Connecting
  | InIdleUpgrade
  | Serving caller pc_request
  | AtDone caller
  | Draining
  | Exited
  | Panicked string

section \<open>The select without a connection\<close>

datatype disc_event =
    StopIdle
  | DiscIdle caller "stop_channel option" "IdleOptions option"
  | DiscLogout caller
  | DelayOver

text \<open>Each case yields the next place, the state, and the callers that got their answer.\<close>

definition end_fake_idle :: "runner \<Rightarrow> runner \<times> (caller \<times> answer) list" where
  "end_fake_idle r =
     (case rn_idle r of
        None \<Rightarrow> (r, [])
      | Some (i, _) \<Rightarrow> (r\<lparr>rn_idle := None, rn_stopIdle := None\<rparr>, [(i, ErrAnswer None)]))"

fun disconnected_select ::
  "disc_event \<Rightarrow> runner \<Rightarrow> (run_place \<times> runner \<times> (caller \<times> answer) list) outcome"
where
  "disconnected_select StopIdle r =
     (if rn_idle r = None then Panics ''not in idle''
      else Completes (Connecting, end_fake_idle r))"
| "disconnected_select (DiscIdle i stop opts) r =
     (if rn_idle r \<noteq> None then Panics ''already in idle''
      else Completes (Connecting, r\<lparr>rn_idle := Some (i, stop, opts), rn_stopIdle := stop\<rparr>, []))"
| "disconnected_select (DiscLogout i) r = Completes (AtDone i, end_fake_idle r)"
| "disconnected_select DelayOver r = Completes (Connecting, r, [])"

text \<open>What follows every case that does not leave the loop: an attempt to connect.\<close>

definition try_connect :: "duration \<Rightarrow> go_error option \<Rightarrow> nat \<Rightarrow> runner \<Rightarrow> runner" where
  "try_connect maxDelay err rand r =
     (if err \<noteq> None then r\<lparr>rn_nextDelay := next_delay maxDelay rand (rn_nextDelay r)\<rparr>
      else r\<lparr>rn_client := True, rn_state := ClientStateConnected, rn_nextDelay := second\<rparr>)"

section \<open>The select with a connection\<close>

datatype conn_event =
    ConnectionLost
  | ConnLogoutRequest caller
  | ConnRequest caller pc_request

fun connected_select :: "conn_event \<Rightarrow> runner \<Rightarrow> run_place \<times> runner" where
  "connected_select ConnectionLost r =
     (AtSelect, r\<lparr>rn_client := False, rn_state := ClientStateDisconnected\<rparr>)"
| "connected_select (ConnLogoutRequest i) r = (AtDone i, r)"
| "connected_select (ConnRequest i q) r = (Serving i q, r)"

text \<open>
  A pretended IDLE is upgraded before the select is reached: the goroutine waits in the
  real one, and its result is the answer.
\<close>

definition enter_idle :: "runner \<Rightarrow> runner" where
  "enter_idle r = r\<lparr>rn_stopIdle := None\<rparr>"

definition leave_idle :: "go_error option \<Rightarrow> runner \<Rightarrow> runner \<times> (caller \<times> answer) list" where
  "leave_idle err r =
     (r\<lparr>rn_idle := None\<rparr>, case rn_idle r of None \<Rightarrow> [] | Some (i, _) \<Rightarrow> [(i, ErrAnswer err)])"

section \<open>The end\<close>

text \<open>
  After \<open>done\<close> the logout is answered and the connection logged out; then requests that
  wait at a channel are taken one by one and turned away. A select request is taken too,
  but its case is missing, and nobody answers it.
\<close>

definition run_done :: "caller \<Rightarrow> runner \<Rightarrow> runner \<times> (caller \<times> answer) list" where
  "run_done logout r = (r\<lparr>rn_client := False\<rparr>, [(logout, ErrAnswer None)])"

fun drain_reply :: "string \<Rightarrow> pc_request \<Rightarrow> answer option" where
  "drain_reply mailbox LogoutRequest = Some (ErrAnswer None)"
| "drain_reply mailbox (IdleRequest _ _) = Some (ErrAnswer (Some PClientConnectionClosed))"
| "drain_reply mailbox (FetchRequest _ _ _) = Some (ErrAnswer (Some PClientConnectionClosed))"
| "drain_reply mailbox (ExpungeRequest _) = Some (ErrAnswer (Some PClientConnectionClosed))"
| "drain_reply mailbox (UidStoreRequest _ _ _ _) = Some (ErrAnswer (Some PClientConnectionClosed))"
| "drain_reply mailbox (AppendRequest _ _ _ _) = Some (ErrAnswer (Some PClientConnectionClosed))"
| "drain_reply mailbox MailboxRequest = Some (StatusAnswer (Some (named_status mailbox)))"
| "drain_reply mailbox (SelectRequest _ _) = None"

declare try_connect_def [step_defs] enter_idle_def [step_defs] leave_idle_def [step_defs]
  run_done_def [step_defs]

section \<open>The system\<close>

text \<open>
  A caller is not in a call (or was answered), has passed the check of the shutdown flag
  but is not yet at the channel, is blocked at the channel, waits for its answer, or has
  panicked on a closed channel. An answer comes with whether the caller's channel was
  closed, as go-imap does when its method returns.
\<close>

datatype call_state =
    NotCalling
  | Checked pc_request
  | Offering pc_request
  | Awaiting pc_request
  | Answered pc_request answer bool
  | SendPanicked

record persistent =
  ps_run :: runner
  ps_place :: run_place
  ps_shutdown :: bool
  ps_closed :: bool
  ps_calls :: "caller \<Rightarrow> call_state"
  ps_stopped :: "stop_channel set"

text \<open>
  \<open>NewClient\<close> settles the largest delay and starts the goroutine; it never fails, since
  connecting is left to the goroutine. The factory adds its delay to a connection.
\<close>

record PersistentConfig =
  pg_Connection :: ConnectionConfig
  pg_MaxDelay :: duration

definition persistent_NewClient :: "PersistentConfig \<Rightarrow> PersistentConfig \<times> persistent" where
  "persistent_NewClient cfg =
     (cfg\<lparr>pg_MaxDelay := settled_MaxDelay (pg_MaxDelay cfg)\<rparr>,
      \<lparr>ps_run = run_start, ps_place = AtSelect, ps_shutdown = False, ps_closed = False,
       ps_calls = \<lambda>_. NotCalling, ps_stopped = {}\<rparr>)"

definition persistent_Factory_NewClient ::
  "duration \<Rightarrow> ConnectionConfig \<Rightarrow> PersistentConfig \<times> persistent"
where
  "persistent_Factory_NewClient factoryMaxDelay cfg =
     persistent_NewClient \<lparr>pg_Connection = cfg, pg_MaxDelay = factoryMaxDelay\<rparr>"

definition persistent_init :: "persistent \<Rightarrow> bool" where
  "persistent_init s \<longleftrightarrow> (\<exists>cfg. s = snd (persistent_NewClient cfg))"

fun may_call :: "call_state \<Rightarrow> bool" where
  "may_call NotCalling = True"
| "may_call (Answered _ _ _) = True"
| "may_call _ = False"

fun in_call :: "(pc_request \<Rightarrow> bool) \<Rightarrow> call_state \<Rightarrow> bool" where
  "in_call P (Checked q) = P q"
| "in_call P (Offering q) = P q"
| "in_call P (Awaiting q) = P q"
| "in_call P _ = False"

fun reply :: "bool \<Rightarrow> answer \<Rightarrow> call_state \<Rightarrow> call_state" where
  "reply closes a (Awaiting q) = Answered q a (closes \<and> result_channel q)"
| "reply closes a c = c"

definition replies :: "(caller \<times> answer) list \<Rightarrow> (caller \<Rightarrow> call_state) \<Rightarrow> caller \<Rightarrow> call_state" where
  "replies as calls = foldl (\<lambda>calls (i, a). calls(i := reply True a (calls i))) calls as"

fun disc_ready :: "persistent \<Rightarrow> disc_event \<Rightarrow> bool" where
  "disc_ready s StopIdle =
     (case rn_stopIdle (ps_run s) of None \<Rightarrow> False | Some k \<Rightarrow> k \<in> ps_stopped s)"
| "disc_ready s (DiscIdle i stop opts) = (ps_calls s i = Offering (IdleRequest stop opts))"
| "disc_ready s (DiscLogout i) = (ps_calls s i = Offering LogoutRequest)"
| "disc_ready s DelayOver = True"

fun disc_take :: "disc_event \<Rightarrow> (caller \<Rightarrow> call_state) \<Rightarrow> caller \<Rightarrow> call_state" where
  "disc_take (DiscIdle i stop opts) calls = calls(i := Awaiting (IdleRequest stop opts))"
| "disc_take (DiscLogout i) calls = calls(i := Awaiting LogoutRequest)"
| "disc_take _ calls = calls"

fun conn_ready :: "persistent \<Rightarrow> conn_event \<Rightarrow> bool" where
  "conn_ready s ConnectionLost = True"
| "conn_ready s (ConnLogoutRequest i) = (ps_calls s i = Offering LogoutRequest)"
| "conn_ready s (ConnRequest i q) = (ps_calls s i = Offering q \<and> q \<noteq> LogoutRequest)"

fun conn_take :: "conn_event \<Rightarrow> (caller \<Rightarrow> call_state) \<Rightarrow> caller \<Rightarrow> call_state" where
  "conn_take ConnectionLost calls = calls"
| "conn_take (ConnLogoutRequest i) calls = calls(i := Awaiting LogoutRequest)"
| "conn_take (ConnRequest i q) calls = calls(i := Awaiting q)"

text \<open>
  The steps. With \<open>single\<close> the callers keep to one IDLE at a time, as the receiver does.
\<close>

inductive persistent_step :: "bool \<Rightarrow> string \<Rightarrow> duration \<Rightarrow> persistent \<Rightarrow> persistent \<Rightarrow> bool"
  for single :: bool and mailbox :: string and maxDelay :: duration where
  call_sends: "may_call (ps_calls s i) \<Longrightarrow>
    (single \<and> idle_request q \<longrightarrow> (\<forall>j. \<not> in_call idle_request (ps_calls s j))) \<Longrightarrow>
    pc_call mailbox (ps_shutdown s) q = (sh, Sends q') \<Longrightarrow>
    persistent_step single mailbox maxDelay s
      (s\<lparr>ps_shutdown := sh, ps_calls := (ps_calls s)(i := Checked q')\<rparr>)"
| call_returns: "may_call (ps_calls s i) \<Longrightarrow>
    pc_call mailbox (ps_shutdown s) q = (sh, Returns a closes) \<Longrightarrow>
    persistent_step single mailbox maxDelay s
      (s\<lparr>ps_shutdown := sh, ps_calls := (ps_calls s)(i := Answered q a closes)\<rparr>)"
| offer: "ps_calls s i = Checked q \<Longrightarrow> \<not> ps_closed s \<Longrightarrow>
    persistent_step single mailbox maxDelay s (s\<lparr>ps_calls := (ps_calls s)(i := Offering q)\<rparr>)"
| send_on_closed: "ps_calls s i \<in> {Checked q, Offering q} \<Longrightarrow> ps_closed s \<Longrightarrow>
    persistent_step single mailbox maxDelay s (s\<lparr>ps_calls := (ps_calls s)(i := SendPanicked)\<rparr>)"
| stop_closed: "persistent_step single mailbox maxDelay s (s\<lparr>ps_stopped := insert k (ps_stopped s)\<rparr>)"
| disconnected: "ps_place s = AtSelect \<Longrightarrow> rn_state (ps_run s) = ClientStateDisconnected \<Longrightarrow>
    disc_ready s ev \<Longrightarrow> disconnected_select ev (ps_run s) = Completes (p, r, as) \<Longrightarrow>
    persistent_step single mailbox maxDelay s
      (s\<lparr>ps_place := p, ps_run := r, ps_calls := replies as (disc_take ev (ps_calls s))\<rparr>)"
| panic: "ps_place s = AtSelect \<Longrightarrow> rn_state (ps_run s) = ClientStateDisconnected \<Longrightarrow>
    disc_ready s ev \<Longrightarrow> disconnected_select ev (ps_run s) = Panics m \<Longrightarrow>
    persistent_step single mailbox maxDelay s (s\<lparr>ps_place := Panicked m\<rparr>)"
| connect: "ps_place s = Connecting \<Longrightarrow> rand < 1000 \<Longrightarrow>
    persistent_step single mailbox maxDelay s
      (s\<lparr>ps_place := AtSelect, ps_run := try_connect maxDelay err rand (ps_run s)\<rparr>)"
| upgrade: "ps_place s = AtSelect \<Longrightarrow> rn_state (ps_run s) = ClientStateConnected \<Longrightarrow>
    rn_idle (ps_run s) \<noteq> None \<Longrightarrow>
    persistent_step single mailbox maxDelay s
      (s\<lparr>ps_place := InIdleUpgrade, ps_run := enter_idle (ps_run s)\<rparr>)"
| idle_ends: "ps_place s = InIdleUpgrade \<Longrightarrow> leave_idle err (ps_run s) = (r, as) \<Longrightarrow>
    persistent_step single mailbox maxDelay s
      (s\<lparr>ps_place := AtSelect, ps_run := r, ps_calls := replies as (ps_calls s)\<rparr>)"
| connected: "ps_place s = AtSelect \<Longrightarrow> rn_state (ps_run s) = ClientStateConnected \<Longrightarrow>
    rn_idle (ps_run s) = None \<Longrightarrow> conn_ready s ev \<Longrightarrow> connected_select ev (ps_run s) = (p, r) \<Longrightarrow>
    persistent_step single mailbox maxDelay s
      (s\<lparr>ps_place := p, ps_run := r, ps_calls := conn_take ev (ps_calls s)\<rparr>)"
| served: "ps_place s = Serving i q \<Longrightarrow> answers q a \<Longrightarrow>
    persistent_step single mailbox maxDelay s
      (s\<lparr>ps_place := AtSelect, ps_calls := replies [(i, a)] (ps_calls s)\<rparr>)"
| at_done: "ps_place s = AtDone i \<Longrightarrow> run_done i (ps_run s) = (r, as) \<Longrightarrow>
    persistent_step single mailbox maxDelay s
      (s\<lparr>ps_place := Draining, ps_run := r, ps_shutdown := True, ps_calls := replies as (ps_calls s)\<rparr>)"
| drain: "ps_place s = Draining \<Longrightarrow> ps_calls s i = Offering q \<Longrightarrow>
    persistent_step single mailbox maxDelay s
      (s\<lparr>ps_calls := (ps_calls s)(i := (case drain_reply mailbox q of
          Some a \<Rightarrow> reply False a (Awaiting q) | None \<Rightarrow> Awaiting q))\<rparr>)"
| drained: "ps_place s = Draining \<Longrightarrow> \<forall>i q. ps_calls s i \<noteq> Offering q \<Longrightarrow>
    persistent_step single mailbox maxDelay s (s\<lparr>ps_place := Exited, ps_closed := True\<rparr>)"

inductive_cases persistent_stepE: "persistent_step single mailbox maxDelay s t"

section \<open>The invariant\<close>

lemma replies_simps [simp]:
  "replies [] calls = calls"
  "replies [(i, a)] calls = calls(i := reply True a (calls i))"
  by (simp_all add: replies_def)

text \<open>Each place with the connection and the pretended IDLE it goes with.\<close>

fun place_ok :: "bool \<Rightarrow> runner \<Rightarrow> run_place \<Rightarrow> bool" where
  "place_ok single r AtSelect = (rn_client r = (rn_state r = ClientStateConnected))"
| "place_ok single r Connecting = (rn_state r = ClientStateDisconnected \<and> \<not> rn_client r)"
| "place_ok single r InIdleUpgrade =
     (rn_client r \<and> rn_state r = ClientStateConnected \<and> rn_idle r \<noteq> None \<and> rn_stopIdle r = None)"
| "place_ok single r (Serving i q) = (rn_client r \<and> rn_state r = ClientStateConnected \<and> rn_idle r = None)"
| "place_ok single r (AtDone i) = (rn_idle r = None)"
| "place_ok single r Draining = (rn_idle r = None \<and> \<not> rn_client r)"
| "place_ok single r Exited = (rn_idle r = None \<and> \<not> rn_client r)"
| "place_ok single r (Panicked m) = (\<not> single)"

definition runner_ok :: "bool \<Rightarrow> duration \<Rightarrow> persistent \<Rightarrow> bool" where
  "runner_ok single maxDelay s \<longleftrightarrow> place_ok single (ps_run s) (ps_place s)
     \<and> (rn_idle (ps_run s) = None \<longrightarrow> rn_stopIdle (ps_run s) = None)
     \<and> 0 \<le> rn_nextDelay (ps_run s) \<and> rn_nextDelay (ps_run s) \<le> maxDelay"

definition ending :: "persistent \<Rightarrow> bool" where
  "ending s \<longleftrightarrow> ps_place s \<in> {Draining, Exited}"

definition flags_ok :: "persistent \<Rightarrow> bool" where
  "flags_ok s \<longleftrightarrow> ps_closed s = (ps_place s = Exited)
     \<and> (ending s \<longrightarrow> ps_shutdown s)
     \<and> (\<forall>i. in_call (\<lambda>q. q = LogoutRequest) (ps_calls s i) \<longrightarrow> ps_shutdown s)"

text \<open>The request the goroutine attends to for a caller, and the one a caller waits for.\<close>

fun attended :: "run_place \<Rightarrow> runner \<Rightarrow> caller \<Rightarrow> pc_request option" where
  "attended (Serving j q) r i = (if i = j then Some q else None)"
| "attended (AtDone j) r i = (if i = j then Some LogoutRequest else None)"
| "attended _ r i = (case rn_idle r of None \<Rightarrow> None
     | Some (j, stop, opts) \<Rightarrow> if i = j then Some (IdleRequest stop opts) else None)"

fun awaited :: "call_state \<Rightarrow> pc_request option" where
  "awaited (Awaiting q) = Some q"
| "awaited _ = None"

lemma awaited_Some: "awaited c = Some q \<longleftrightarrow> c = Awaiting q"
  by (cases c) auto

lemma awaited_reply [simp]: "awaited (reply closes a c) = None"
  by (cases c) auto

lemma awaited_may_call: "may_call c \<Longrightarrow> awaited c = None"
  by (cases c) auto

text \<open>They agree, but for the selects that were drained and forgotten.\<close>

definition waiting_at :: "persistent \<Rightarrow> caller \<Rightarrow> bool" where
  "waiting_at s i \<longleftrightarrow> awaited (ps_calls s i) = attended (ps_place s) (ps_run s) i
     \<or> (ending s \<and> (\<exists>q. ps_calls s i = Awaiting q \<and> drain_reply [] q = None))"

definition waiting_ok :: "persistent \<Rightarrow> bool" where
  "waiting_ok s \<longleftrightarrow> (\<forall>i. waiting_at s i)"

text \<open>An answered call got an answer of its kind; only a drained one has its channel left open.\<close>

fun answered_at :: "run_place \<Rightarrow> call_state \<Rightarrow> bool" where
  "answered_at p (Answered q a closed) = (answers q a \<and> (closed = result_channel q
     \<or> (p \<in> {Draining, Exited} \<and> a = ErrAnswer (Some PClientConnectionClosed))))"
| "answered_at p SendPanicked = (p = Exited)"
| "answered_at p _ = True"

definition answered_ok :: "persistent \<Rightarrow> bool" where
  "answered_ok s \<longleftrightarrow> (\<forall>i. answered_at (ps_place s) (ps_calls s i))"

definition single_ok :: "bool \<Rightarrow> persistent \<Rightarrow> bool" where
  "single_ok single s \<longleftrightarrow> (single \<longrightarrow> (\<forall>i j. in_call idle_request (ps_calls s i)
     \<longrightarrow> in_call idle_request (ps_calls s j) \<longrightarrow> i = j))"

definition persistent_inv :: "bool \<Rightarrow> duration \<Rightarrow> persistent \<Rightarrow> bool" where
  "persistent_inv single maxDelay s \<longleftrightarrow> runner_ok single maxDelay s \<and> flags_ok s \<and> waiting_ok s
     \<and> answered_ok s \<and> single_ok single s"

lemmas persistent_defs = runner_ok_def flags_ok_def waiting_ok_def waiting_at_def answered_ok_def
  single_ok_def ending_def

lemma next_delay_bounds:
  assumes "second \<le> M" "M \<le> 2 ^ 61" "0 \<le> d" "d \<le> M" "r < 1000"
  shows "0 \<le> next_delay M r d" and "next_delay M r d \<le> M"
proof -
  have "0 \<le> next_delay M r d \<and> next_delay M r d \<le> M"
  proof (cases "d = 0")
    case True
    with assms show ?thesis by (simp add: next_delay_first)
  next
    case False
    then have "d mod second \<le> d" using assms by (simp add: zmod_le_nonneg_dividend)
    with False assms show ?thesis by (simp add: next_delay_step)
  qed
  then show "0 \<le> next_delay M r d" and "next_delay M r d \<le> M" by simp_all
qed

lemma persistent_init_inv:
  "0 \<le> maxDelay \<Longrightarrow> persistent_init s \<Longrightarrow> persistent_inv single maxDelay s"
  by (auto simp: persistent_init_def persistent_NewClient_def persistent_inv_def persistent_defs run_start_def)

lemma drain_reply_answers: "drain_reply mailbox q = Some a \<Longrightarrow> answers q a"
  by (cases q) auto

lemma drain_reply_channel:
  "drain_reply mailbox q = Some a \<Longrightarrow> result_channel q \<Longrightarrow> a = ErrAnswer (Some PClientConnectionClosed)"
  by (cases q) auto

lemma drain_reply_None: "drain_reply mailbox q = None \<longleftrightarrow> drain_reply [] q = None"
  by (cases q) auto

text \<open>A pretended IDLE that ends is the caller's own, and the state forgets it.\<close>

lemma end_fake_idle_cases:
  assumes "end_fake_idle r = (r', as)"
  shows "(rn_idle r = None \<and> r' = r \<and> as = [])
    \<or> (\<exists>i stop opts. rn_idle r = Some (i, stop, opts) \<and> as = [(i, ErrAnswer None)]
        \<and> r' = r\<lparr>rn_idle := None, rn_stopIdle := None\<rparr>)"
  using assms by (auto simp: end_fake_idle_def split: option.splits)

lemma in_call_reply [dest!]: "in_call P (reply closes a c) \<Longrightarrow> in_call P c"
  by (cases c) auto

lemma waiting_idle:
  assumes "waiting_ok s" "rn_idle (ps_run s) = Some (i, stop, opts)"
    and "ps_place s \<in> {AtSelect, Connecting, InIdleUpgrade}"
  shows "ps_calls s i = Awaiting (IdleRequest stop opts)"
proof -
  have "awaited (ps_calls s i) = attended (ps_place s) (ps_run s) i"
    using assms by (auto simp: waiting_ok_def waiting_at_def ending_def)
  with assms show ?thesis by (auto simp: awaited_Some)
qed

lemma runner_ok_step:
  assumes inv: "persistent_inv single M s" and step: "persistent_step single mailbox M s t"
    and M: "second \<le> M" "M \<le> 2 ^ 61"
  shows "runner_ok single M t"
proof -
  have ok: "runner_ok single M s" using inv by (simp add: persistent_inv_def)
  show ?thesis
    using step
  proof cases
    case (disconnected ev p r as)
    with ok show ?thesis
      by (cases ev) (auto simp: runner_ok_def dest!: end_fake_idle_cases split: if_splits)
  next
    case (panic ev m)
    show ?thesis
    proof (cases ev)
      case StopIdle
      with panic ok show ?thesis by (auto simp: runner_ok_def split: option.splits if_splits)
    next
      case (DiscIdle i stop opts)
      with panic obtain j stop' opts' where j: "rn_idle (ps_run s) = Some (j, stop', opts')"
        by (auto split: if_splits)
      then have "ps_calls s j = Awaiting (IdleRequest stop' opts')"
        using inv panic waiting_idle [of s j] by (simp add: persistent_inv_def)
      moreover have "ps_calls s i = Offering (IdleRequest stop opts)"
        using panic DiscIdle by simp
      ultimately have "in_call idle_request (ps_calls s i)" "in_call idle_request (ps_calls s j)" "i \<noteq> j"
        by auto
      then have "\<not> single" using inv by (auto simp: persistent_inv_def single_ok_def)
      with panic ok show ?thesis by (simp add: runner_ok_def)
    qed (use panic in auto)
  next
    case (connect rand err)
    then show ?thesis
      using ok M next_delay_bounds [OF M, of "rn_nextDelay (ps_run s)" rand]
      by (simp add: runner_ok_def step_defs)
  next
    case (connected ev p r)
    with ok show ?thesis by (cases ev) (auto simp: runner_ok_def)
  qed (use ok in \<open>auto simp: runner_ok_def step_defs\<close>)
qed

lemma flags_ok_step:
  assumes inv: "persistent_inv single M s" and step: "persistent_step single mailbox M s t"
  shows "flags_ok t"
proof -
  have ok: "flags_ok s" using inv by (simp add: persistent_inv_def)
  have logout: "ps_calls s i = Offering LogoutRequest \<Longrightarrow> ps_shutdown s"
    "ps_calls s i = Checked LogoutRequest \<Longrightarrow> ps_shutdown s" for i
    using ok by (metis flags_ok_def in_call.simps(2), metis flags_ok_def in_call.simps(1))
  show ?thesis
    using step
  proof cases
    case (call_sends i q sh q')
    with ok pc_call_sends [OF call_sends(4)] show ?thesis
      by (auto simp: flags_ok_def ending_def split: if_splits)
  next
    case (call_returns i q sh a closes)
    with ok pc_call_returns [OF call_returns(3)] show ?thesis
      by (auto simp: flags_ok_def ending_def split: if_splits)
  next
    case (disconnected ev p r as)
    with ok show ?thesis
      by (cases ev) (auto simp: flags_ok_def ending_def dest!: end_fake_idle_cases dest: logout
          split: if_splits)
  next
    case (connected ev p r)
    with ok show ?thesis
      by (cases ev) (auto simp: flags_ok_def ending_def dest: logout split: if_splits)
  qed (use ok in \<open>auto simp: flags_ok_def ending_def step_defs dest: logout
      split: if_splits option.splits\<close>)
qed

lemma waiting_ok_step:
  assumes inv: "persistent_inv single M s" and step: "persistent_step single mailbox M s t"
  shows "waiting_ok t"
  unfolding waiting_ok_def
proof
  fix j
  have place: "place_ok single (ps_run s) (ps_place s)"
    and ok: "waiting_at s j"
    using inv by (simp_all add: persistent_inv_def runner_ok_def waiting_ok_def)
  show "waiting_at t j"
    using step
  proof cases
    case (call_sends i q sh q')
    with ok awaited_may_call [OF call_sends(2)] show ?thesis
      by (auto simp: waiting_at_def ending_def)
  next
    case (call_returns i q sh a closes)
    with ok awaited_may_call [OF call_returns(2)] show ?thesis
      by (auto simp: waiting_at_def ending_def)
  next
    case (disconnected ev p r as)
    with ok show ?thesis
      by (cases ev) (auto simp: waiting_at_def ending_def dest!: end_fake_idle_cases
          split: if_splits option.splits)
  next
    case (connect rand err)
    with ok place show ?thesis by (simp add: waiting_at_def ending_def step_defs)
  next
    case (connected ev p r)
    with ok show ?thesis by (cases ev) (auto simp: waiting_at_def ending_def split: if_splits)
  next
    case (idle_ends err r as)
    with ok place show ?thesis
      by (auto simp: waiting_at_def ending_def step_defs split: if_splits)
  next
    case (served i q a)
    with ok place show ?thesis
      by (auto simp: waiting_at_def ending_def split: if_splits)
  next
    case (at_done i r as)
    with ok place show ?thesis
      by (auto simp: waiting_at_def ending_def step_defs split: if_splits)
  next
    case (drain i q)
    with ok place drain_reply_None [of mailbox q] show ?thesis
      by (cases "drain_reply mailbox q") (auto simp: waiting_at_def ending_def)
  qed (use ok place in \<open>auto simp: waiting_at_def ending_def step_defs\<close>)
qed

lemma answered_at_reply:
  "answered_at p c \<Longrightarrow> (\<And>q. c = Awaiting q \<Longrightarrow> answers q a) \<Longrightarrow> answered_at p (reply True a c)"
  by (cases c) auto

lemma answered_at_move:
  "answered_at p c \<Longrightarrow> p \<notin> {Draining, Exited} \<Longrightarrow> answered_at p' c"
  by (cases "(p, c)" rule: answered_at.cases) auto

lemma answered_ok_step:
  assumes inv: "persistent_inv single M s" and step: "persistent_step single mailbox M s t"
  shows "answered_ok t"
  unfolding answered_ok_def
proof
  fix j
  have ok: "answered_at (ps_place s) (ps_calls s j)" and wait: "waiting_ok s" and flags: "flags_ok s"
    using inv by (simp_all add: persistent_inv_def answered_ok_def)
  have idle: "answers q (ErrAnswer err)"
    if "rn_idle (ps_run s) = Some (j, stop, opts)" "ps_calls s j = Awaiting q"
      "ps_place s \<in> {AtSelect, Connecting, InIdleUpgrade}" for q stop opts err
    using waiting_idle [OF wait that(1,3)] that(2) by simp
  have move: "answered_at p (ps_calls s j)" if "ps_place s \<notin> {Draining, Exited}" for p
    using ok that by (rule answered_at_move)
  show "answered_at (ps_place t) (ps_calls t j)"
    using step
  proof cases
    case (call_sends i q sh q')
    with ok show ?thesis by simp
  next
    case (call_returns i q sh a closes)
    with ok pc_call_returns [OF call_returns(3)] show ?thesis by simp
  next
    case (offer i q)
    with ok show ?thesis by simp
  next
    case (send_on_closed i q)
    with ok flags show ?thesis by (simp add: flags_ok_def)
  next
    case (stop_closed k)
    with ok show ?thesis by simp
  next
    case (disconnected ev p r as)
    note m = move [of p]
    show ?thesis
    proof (cases ev)
      case StopIdle
      with disconnected m show ?thesis
        by (auto dest!: end_fake_idle_cases intro!: answered_at_reply idle split: if_splits)
    next
      case (DiscIdle i stop opts)
      with disconnected m show ?thesis by (simp split: if_splits)
    next
      case (DiscLogout i)
      with disconnected m show ?thesis
        by (auto dest!: end_fake_idle_cases intro!: answered_at_reply idle split: if_splits)
    next
      case DelayOver
      with disconnected m show ?thesis by simp
    qed
  next
    case (panic ev m)
    with move [of "Panicked m"] show ?thesis by simp
  next
    case (connect rand err)
    with move [of AtSelect] show ?thesis by simp
  next
    case upgrade
    with move [of InIdleUpgrade] show ?thesis by simp
  next
    case (idle_ends err r as)
    with move [of AtSelect] show ?thesis
      by (auto simp: step_defs intro!: answered_at_reply idle split: option.splits)
  next
    case (connected ev p r)
    with move [of p] show ?thesis by (cases ev) simp_all
  next
    case (served i q a)
    have "waiting_at s i" using wait by (simp add: waiting_ok_def)
    with served have "awaited (ps_calls s i) = Some q" by (simp add: waiting_at_def ending_def)
    with served move [of AtSelect] show ?thesis
      by (auto simp: awaited_Some)
  next
    case (at_done i r as)
    have "waiting_at s i" using wait by (simp add: waiting_ok_def)
    with at_done have "awaited (ps_calls s i) = Some LogoutRequest"
      by (simp add: waiting_at_def ending_def)
    with at_done move [of Draining] show ?thesis
      by (auto simp: awaited_Some step_defs)
  next
    case (drain i q)
    with ok show ?thesis
      by (cases "drain_reply mailbox q")
        (auto dest: drain_reply_answers drain_reply_channel)
  next
    case drained
    with ok show ?thesis by (cases "ps_calls s j") auto
  qed
qed

lemma single_ok_step:
  assumes inv: "persistent_inv single M s" and step: "persistent_step single mailbox M s t"
  shows "single_ok single t"
proof -
  have keep: "single_ok single u"
    if "\<And>i. in_call idle_request (ps_calls u i) \<Longrightarrow> in_call idle_request (ps_calls s i)" for u
    using that inv by (auto simp: persistent_inv_def single_ok_def)
  show ?thesis
    using step
  proof cases
    case (call_sends i q sh q')
    with pc_call_sends [OF call_sends(4)] have q: "q' = q" by simp
    show ?thesis
    proof (cases "idle_request q")
      case True
      with call_sends q show ?thesis by (auto simp: single_ok_def split: if_splits)
    next
      case False
      with call_sends q show ?thesis by (intro keep) (auto split: if_splits)
    qed
  next
    case (disconnected ev p r as)
    then show ?thesis
      by (cases ev) (auto dest!: end_fake_idle_cases intro!: keep split: if_splits)
  next
    case (idle_ends err r as)
    then show ?thesis by (auto simp: step_defs intro!: keep split: option.splits if_splits)
  next
    case (connected ev p r)
    then show ?thesis by (cases ev) (auto intro!: keep split: if_splits)
  next
    case (at_done i r as)
    then show ?thesis by (auto simp: step_defs intro!: keep split: if_splits)
  next
    case (drain i q)
    then show ?thesis by (auto intro!: keep split: if_splits option.splits)
  qed (auto intro!: keep split: if_splits)
qed
lemma persistent_step_inv:
  assumes "persistent_inv single M s" and "persistent_step single mailbox M s t"
    and "second \<le> M" and "M \<le> 2 ^ 61"
  shows "persistent_inv single M t"
  unfolding persistent_inv_def
  using runner_ok_step [OF assms] flags_ok_step [OF assms(1,2)] waiting_ok_step [OF assms(1,2)]
    answered_ok_step [OF assms(1,2)] single_ok_step [OF assms(1,2)] by blast

text \<open>The maximum the client runs with is the settled one.\<close>

abbreviation persistent_run :: "bool \<Rightarrow> string \<Rightarrow> duration \<Rightarrow> persistent \<Rightarrow> persistent \<Rightarrow> bool" where
  "persistent_run single mailbox maxDelay \<equiv>
     persistent_step single mailbox (settled_MaxDelay maxDelay)"

interpretation persistent: invariant_system persistent_init "persistent_run single mailbox maxDelay"
  "\<lambda>s. maxDelay \<le> 2 ^ 61 \<longrightarrow> persistent_inv single (settled_MaxDelay maxDelay) s"
  for single mailbox maxDelay
proof unfold_locales
  fix s assume "persistent_init s"
  then show "maxDelay \<le> 2 ^ 61 \<longrightarrow> persistent_inv single (settled_MaxDelay maxDelay) s"
    using settled_MaxDelay_bounds(1) [of maxDelay] by (intro impI persistent_init_inv) simp_all
next
  fix s t
  assume "maxDelay \<le> 2 ^ 61 \<longrightarrow> persistent_inv single (settled_MaxDelay maxDelay) s"
    and "persistent_run single mailbox maxDelay s t"
  then show "maxDelay \<le> 2 ^ 61 \<longrightarrow> persistent_inv single (settled_MaxDelay maxDelay) t"
    using persistent_step_inv settled_MaxDelay_bounds by blast
qed

abbreviation persistently :: "bool \<Rightarrow> string \<Rightarrow> duration \<Rightarrow> persistent \<Rightarrow> bool" where
  "persistently single mailbox maxDelay \<equiv>
     reachable persistent_init (persistent_run single mailbox maxDelay)"

lemma persistently_inv:
  assumes "persistently single mailbox maxDelay s" and "maxDelay \<le> 2 ^ 61"
  shows "runner_ok single (settled_MaxDelay maxDelay) s" and "flags_ok s" and "waiting_ok s"
    and "answered_ok s" and "single_ok single s"
  using persistent.reachable_inv [OF assms(1)] assms(2) by (simp_all add: persistent_inv_def)

end
