(* ===== verification/Config.thy ===== *)
theory Config
  imports GoStrings PersistentSystem Pump
begin

text \<open>
  The configuration of the single-pump program, \<open>cmd/config\<close>: the flags with the fields
  they write, the defaults, and the resolution of a configured connection into the
  connection settings, the authenticator and the client factory the rest of the program
  uses. Parsing a URL, reading files and the environment are arguments.
\<close>

section \<open>Records\<close>

record OAuth2Config =
  oc_Provider :: string
  oc_Scopes :: "string list"
  oc_ClientID :: string
  oc_ClientSecret :: string
  oc_AuthURL :: string
  oc_TokenURL :: string
  oc_ConfigScopes :: "string list"

record IMAPConfig =
  ic_URL :: string
  ic_Username :: string
  ic_AuthMethod :: string
  ic_Password :: string
  ic_PasswordFile :: string
  ic_TLSSkipVerify :: bool
  ic_Transport :: string
  ic_Debug :: bool
  ic_OAuth2 :: OAuth2Config
  ic_SystemdCredential :: string

record CliConfig =
  cl_Source :: IMAPConfig
  cl_Dest :: IMAPConfig
  cl_LogLevel :: string
  cl_LogFormat :: string
  cl_IDLEFallbackInterval :: duration
  cl_BatchSize :: uint
  cl_DisableDeletions :: bool
  cl_FetchBufferSize :: uint
  cl_FetchMaxInterval :: duration

text \<open>The world the resolution looks at: files and environment variables (empty if unset).\<close>

record config_world =
  w_ReadFile :: "string \<Rightarrow> go_error + string"
  w_Getenv :: "string \<Rightarrow> string"

section \<open>Defaults\<close>

definition DefaultOAuth2Config :: OAuth2Config where
  "DefaultOAuth2Config = \<lparr>oc_Provider = ''custom'', oc_Scopes = [], oc_ClientID = [],
     oc_ClientSecret = [], oc_AuthURL = [], oc_TokenURL = [], oc_ConfigScopes = []\<rparr>"

definition OAuth2_fillDefaults :: "OAuth2Config \<Rightarrow> OAuth2Config" where
  "OAuth2_fillDefaults cfg =
     (if oc_Provider cfg = [] then cfg\<lparr>oc_Provider := oc_Provider DefaultOAuth2Config\<rparr> else cfg)"

definition DefaultIMAPConfig :: IMAPConfig where
  "DefaultIMAPConfig = \<lparr>ic_URL = [], ic_Username = [], ic_AuthMethod = ''LOGIN'', ic_Password = [],
     ic_PasswordFile = [], ic_TLSSkipVerify = False, ic_Transport = ''persistent'', ic_Debug = False,
     ic_OAuth2 = DefaultOAuth2Config, ic_SystemdCredential = []\<rparr>"

definition fillDefaults :: "IMAPConfig \<Rightarrow> IMAPConfig" where
  "fillDefaults cfg =
     (let cfg = (if ic_AuthMethod cfg = [] then cfg\<lparr>ic_AuthMethod := ic_AuthMethod DefaultIMAPConfig\<rparr>
                 else cfg);
          cfg = (if ic_Transport cfg = [] then cfg\<lparr>ic_Transport := ic_Transport DefaultIMAPConfig\<rparr>
                 else cfg)
      in cfg\<lparr>ic_OAuth2 := OAuth2_fillDefaults (ic_OAuth2 cfg)\<rparr>)"

definition DefaultConfig :: CliConfig where
  "DefaultConfig = \<lparr>cl_Source = DefaultIMAPConfig, cl_Dest = DefaultIMAPConfig,
     cl_LogLevel = ''info'', cl_LogFormat = ''text'', cl_IDLEFallbackInterval = minute,
     cl_BatchSize = 15, cl_DisableDeletions = False, cl_FetchBufferSize = 20,
     cl_FetchMaxInterval = 5 * minute\<rparr>"

section \<open>Resolving OAuth2 settings\<close>

text \<open>The scopes are appended before the checks, so a failed resolution keeps them.\<close>

definition OAuth2_Resolve :: "OAuth2Config \<Rightarrow> OAuth2Config \<times> go_error option" where
  "OAuth2_Resolve cfg =
     (if oc_Provider cfg \<noteq> ''custom''
      then (cfg, Some (Errorf (''unknown oauth2 provider: '' @ oc_Provider cfg)))
      else let cfg = cfg\<lparr>oc_ConfigScopes := oc_ConfigScopes cfg @ oc_Scopes cfg\<rparr> in
        (cfg,
         if oc_ClientID cfg = [] then Some (Errorf ''oauth2 client id not set'')
         else if oc_ClientSecret cfg = [] then Some (Errorf ''oauth2 client secret not set'')
         else if oc_AuthURL cfg = [] then Some (Errorf ''oauth2 auth url not set'')
         else if oc_TokenURL cfg = [] then Some (Errorf ''oauth2 token url not set'')
         else if oc_ConfigScopes cfg = [] then Some (Errorf ''oauth2 scopes not set'')
         else None))"

section \<open>Addresses\<close>

text \<open>The parts of a \<open>url.URL\<close> the program reads.\<close>

record go_url =
  url_Scheme :: string
  url_Host :: string
  url_Path :: string

definition url_Hostname :: "go_url \<Rightarrow> string" where
  "url_Hostname u = fst (splitHostPort (url_Host u))"

definition url_Port :: "go_url \<Rightarrow> string" where
  "url_Port u = snd (splitHostPort (url_Host u))"

definition extractUrl :: "go_url \<Rightarrow> go_error + string \<times> string \<times> bool" where
  "extractUrl u =
     (case (if ToLower (url_Scheme u) = ''imap'' then Some (''143'', False)
            else if ToLower (url_Scheme u) = ''imaps'' then Some (''993'', True)
            else None) of
        None \<Rightarrow> Inl InvalidScheme
      | Some (defaultPort, useTLS) \<Rightarrow>
          (let port = (if url_Port u = [] then defaultPort else url_Port u) in
           Inr (JoinHostPort (url_Hostname u) port, TrimPrefix (url_Path u) ''/'', useTLS)))"

section \<open>Credentials\<close>

definition read_trimmed :: "config_world \<Rightarrow> string \<Rightarrow> go_error + string" where
  "read_trimmed w path = (case w_ReadFile w path of Inl err \<Rightarrow> Inl err | Inr s \<Rightarrow> Inr (TrimSpace s))"

text \<open>The path of a systemd credential, as it is cleaned and checked.\<close>

definition credential_path :: "config_world \<Rightarrow> string \<Rightarrow> go_error + string" where
  "credential_path w cred =
     (let credsDir = w_Getenv w ''CREDENTIALS_DIRECTORY'' in
      if credsDir = [] then Inl SystemdCredentialsNotSet
      else
        (let credsDir = path_Clean credsDir; credPath = path_Clean (path_Join credsDir cred) in
         if \<not> HasPrefix credPath credsDir
         then Inl (Errorf (''resolved credential path outside $CREDENTIALS_DIRECTORY: '' @ credPath))
         else Inr credPath))"

definition validateUserPass :: "config_world \<Rightarrow> IMAPConfig \<Rightarrow> go_error + string \<times> string" where
  "validateUserPass w cfg =
     (if ic_Username cfg = [] then Inl MissingUsername
      else
        (case (if ic_Password cfg \<noteq> [] then Inr (ic_Password cfg)
               else if ic_PasswordFile cfg \<noteq> [] then read_trimmed w (ic_PasswordFile cfg)
               else if ic_SystemdCredential cfg \<noteq> [] then
                 (case credential_path w (ic_SystemdCredential cfg) of
                    Inl err \<Rightarrow> Inl err
                  | Inr path \<Rightarrow> read_trimmed w path)
               else Inl MissingPassword) of
           Inl err \<Rightarrow> Inl err
         | Inr password \<Rightarrow> Inr (ic_Username cfg, password)))"

section \<open>Resolving a connection\<close>

text \<open>
  \<open>client.Factory\<close>, or \<open>persistentclient.Factory\<close> with its largest delay. \<open>auth_of\<close> is the
  switch over the authentication method; an OAuth2 resolution changes the configuration.
\<close>

datatype client_factory = StandardFactory | PersistentFactory duration

definition auth_of ::
  "config_world \<Rightarrow> IMAPConfig \<Rightarrow> IMAPConfig \<times> (go_error + authenticator)"
where
  "auth_of w cfg =
     (if ic_AuthMethod cfg = ''LOGIN'' then
        (cfg, map_sum id (\<lambda>(user, pass). NewNormalAuthenticator user pass) (validateUserPass w cfg))
      else if ic_AuthMethod cfg = ''PLAIN'' then
        (cfg, map_sum id (\<lambda>(user, pass). NewSASLAuthenticator (PlainClient [] user pass))
           (validateUserPass w cfg))
      else if ic_AuthMethod cfg = ''OAUTHBEARER'' then
        (case OAuth2_Resolve (ic_OAuth2 cfg) of
           (oauth, Some err) \<Rightarrow> (cfg\<lparr>ic_OAuth2 := oauth\<rparr>, Inl err)
         | (oauth, None) \<Rightarrow>
             (let cfg = cfg\<lparr>ic_OAuth2 := oauth\<rparr> in
              (cfg, map_sum id (\<lambda>(user, pass). NewOAuthBearerAuthenticator user) (validateUserPass w cfg))))
      else (cfg, Inl (Errorf (''unsupported auth method: '' @ ic_AuthMethod cfg))))"

definition Resolve ::
  "(string \<Rightarrow> go_error + go_url) \<Rightarrow> config_world \<Rightarrow> IMAPConfig \<Rightarrow>
    IMAPConfig \<times> (go_error + ConnectionConfig \<times> client_factory)"
where
  "Resolve parse w cfg =
     (let cfg = fillDefaults cfg in
      case parse (ic_URL cfg) of
        Inl err \<Rightarrow> (cfg, Inl err)
      | Inr u \<Rightarrow>
          (case extractUrl u of
             Inl err \<Rightarrow> (cfg, Inl err)
           | Inr (hostPort, mailbox, wantTLS) \<Rightarrow>
               (let cfg = cfg\<lparr>ic_AuthMethod := ToUpper (ic_AuthMethod cfg)\<rparr> in
                case auth_of w cfg of
                  (cfg, Inl err) \<Rightarrow> (cfg, Inl err)
                | (cfg, Inr auth) \<Rightarrow>
                    (cfg, Inr (\<lparr>HostPort = hostPort, Auth = auth, cc_Mailbox = mailbox, TLS = wantTLS,
                         TLSConfig = (if ic_TLSSkipVerify cfg then Some True else None),
                         cc_Debug = ic_Debug cfg\<rparr>,
                       if ic_Transport cfg \<noteq> ''persistent'' then StandardFactory
                       else PersistentFactory 0)))))"

section \<open>The configuration of the pump\<close>

definition prettifyError :: "go_error \<Rightarrow> string \<Rightarrow> string \<Rightarrow> go_error" where
  "prettifyError err prefix authMethod =
     (if err = MissingUsername
      then Errorf (CHR 0x22 # prefix @ ''-username'' @ CHR 0x22 # '' is required when using ''
             @ authMethod @ '' auth'')
      else if err = MissingPassword
      then Errorf (''at least one of the '' @ CHR 0x22 # prefix @ ''-password'' @ CHR 0x22 # '' or ''
             @ CHR 0x22 # prefix @ ''-password-file'' @ CHR 0x22 # '' flags is required'')
      else err)"

text \<open>
  \<open>BuildPumpConfig\<close> fills in the pump's configuration; the connections come with their
  factories, and the two resolutions change the configuration they are given.
\<close>

definition BuildPumpConfig ::
  "(string \<Rightarrow> go_error + go_url) \<Rightarrow> config_world \<Rightarrow> CliConfig \<Rightarrow>
    go_error + PumpConfig \<times> client_factory \<times> client_factory"
where
  "BuildPumpConfig parse w cfg =
     (case Resolve parse w (cl_Source cfg) of
        (src, Inl err) \<Rightarrow> Inl (prettifyError err ''source'' (ic_AuthMethod src))
      | (src, Inr (source, sourceFactory)) \<Rightarrow>
          (case Resolve parse w (cl_Dest cfg) of
             (dst, Inl err) \<Rightarrow> Inl (prettifyError err ''dest'' (ic_AuthMethod dst))
           | (dst, Inr (dest, destFactory)) \<Rightarrow>
               Inr (\<lparr>pc_Source = source, pc_Dest = dest,
                     pc_IDLEFallbackInterval =
                       or_default (cl_IDLEFallbackInterval DefaultConfig) (cl_IDLEFallbackInterval cfg),
                     pc_BatchSize = or_default (cl_BatchSize DefaultConfig) (cl_BatchSize cfg),
                     pc_DisableDeletions = cl_DisableDeletions cfg,
                     pc_FetchBufferSize =
                       or_default (cl_FetchBufferSize DefaultConfig) (cl_FetchBufferSize cfg),
                     pc_FetchMaxInterval =
                       or_default (cl_FetchMaxInterval DefaultConfig) (cl_FetchMaxInterval cfg)\<rparr>,
                    sourceFactory, destFactory)))"

section \<open>Lemmas\<close>

lemma fillDefaults_idem [simp]: "fillDefaults (fillDefaults cfg) = fillDefaults cfg"
  by (simp add: fillDefaults_def OAuth2_fillDefaults_def DefaultOAuth2Config_def DefaultIMAPConfig_def
      Let_def)

lemma ToUpper_LOGIN [simp]: "ToUpper ''LOGIN'' = ''LOGIN''"
  by code_simp

lemma ToUpper_empty [simp]: "ToUpper s = [] \<longleftrightarrow> s = []"
  by (simp add: ToUpper_def)

lemma fillDefaults_upper [simp]:
  "ic_AuthMethod cfg \<noteq> [] \<Longrightarrow> fillDefaults (cfg\<lparr>ic_AuthMethod := ToUpper (ic_AuthMethod cfg)\<rparr>)
    = (fillDefaults cfg)\<lparr>ic_AuthMethod := ToUpper (ic_AuthMethod cfg)\<rparr>"
  by (simp add: fillDefaults_def Let_def)

lemma fillDefaults_fields [simp]:
  "ic_URL (fillDefaults cfg) = ic_URL cfg"
  "ic_AuthMethod (fillDefaults cfg) \<noteq> []"
  "ic_TLSSkipVerify (fillDefaults cfg) = ic_TLSSkipVerify cfg"
  "ic_Debug (fillDefaults cfg) = ic_Debug cfg"
  "ic_Username (fillDefaults cfg) = ic_Username cfg"
  "oc_AuthURL (ic_OAuth2 (fillDefaults cfg)) = oc_AuthURL (ic_OAuth2 cfg)"
  "ic_AuthMethod (fillDefaults cfg) = (if ic_AuthMethod cfg = [] then ''LOGIN'' else ic_AuthMethod cfg)"
  "ic_Transport (fillDefaults cfg) = (if ic_Transport cfg = [] then ''persistent'' else ic_Transport cfg)"
  by (simp_all add: fillDefaults_def OAuth2_fillDefaults_def DefaultIMAPConfig_def Let_def)

lemma OAuth2_Resolve_auth_url:
  "oc_AuthURL cfg = [] \<Longrightarrow> \<exists>err. snd (OAuth2_Resolve cfg) = Some err"
  by (simp add: OAuth2_Resolve_def Let_def)

text \<open>The authenticator only changes the scopes, and only for OAuth2.\<close>

lemma auth_of_fields:
  assumes "auth_of w cfg = (cfg', res)"
  shows "ic_TLSSkipVerify cfg' = ic_TLSSkipVerify cfg" and "ic_Transport cfg' = ic_Transport cfg"
    and "ic_Debug cfg' = ic_Debug cfg" and "ic_URL cfg' = ic_URL cfg"
    and "ic_AuthMethod cfg' = ic_AuthMethod cfg" and "ic_Username cfg' = ic_Username cfg"
  using assms by (auto simp: auth_of_def Let_def split: if_splits prod.splits option.splits)

lemma auth_of_user:
  assumes "auth_of w cfg = (cfg', Inr auth)"
  shows "ic_Username cfg \<noteq> [] \<and> (case auth of
      PlainAuthenticator u p \<Rightarrow> ic_AuthMethod cfg = ''LOGIN'' \<and> u = ic_Username cfg
    | SASLAuthenticator c \<Rightarrow> ic_AuthMethod cfg = ''PLAIN'' \<and> pc_username c = ic_Username cfg
    | OAuthBearerAuthenticator u t \<Rightarrow> ic_AuthMethod cfg = ''OAUTHBEARER'' \<and> u = ic_Username cfg)"
proof -
  have user: "validateUserPass w c = Inr (u, p) \<Longrightarrow> ic_Username c \<noteq> [] \<and> u = ic_Username c" for c u p
    by (simp add: validateUserPass_def split: if_splits sum.splits)
  have inr: "map_sum id f r = Inr y \<longleftrightarrow> (\<exists>x. r = Inr x \<and> y = f x)" for f :: "string \<times> string \<Rightarrow> authenticator" and r :: "go_error + _" and y
    by (cases r) auto
  from assms show ?thesis
    by (auto simp: auth_of_def Let_def inr NewNormalAuthenticator_def NewSASLAuthenticator_def
        NewOAuthBearerAuthenticator_def split: if_splits prod.splits option.splits dest!: user)
qed

section \<open>Properties\<close>


definition ex_world :: config_world where
  "ex_world = \<lparr>w_ReadFile = \<lambda>path. if path = ''/run/creds-old/pw'' then Inr ''secret'' else Inl (ExtError 2),
     w_Getenv = \<lambda>name. if name = ''CREDENTIALS_DIRECTORY'' then ''/run/creds/'' else []\<rparr>"

definition ex_imap :: IMAPConfig where
  "ex_imap = DefaultIMAPConfig\<lparr>ic_URL := ''imaps://mail/INBOX'', ic_Username := ''u'',
     ic_AuthMethod := ''plain'', ic_Password := ''p''\<rparr>"

definition ex_parse :: "string \<Rightarrow> go_error + go_url" where
  "ex_parse s = (if s = ''imaps://mail/INBOX''
     then Inr \<lparr>url_Scheme = ''imaps'', url_Host = ''mail'', url_Path = ''/INBOX''\<rparr>
     else Inl (ExtError 1))"

lemma ex_resolves:
  "\<exists>cfg'. Resolve ex_parse ex_world ex_imap = (cfg', Inr
     (\<lparr>HostPort = ''mail:993'', Auth = SASLAuthenticator (PlainClient [] ''u'' ''p''),
       cc_Mailbox = ''INBOX'', TLS = True, TLSConfig = None, cc_Debug = False\<rparr>, PersistentFactory 0))"
proof -
  have "extractUrl \<lparr>url_Scheme = ''imaps'', url_Host = ''mail'', url_Path = ''/INBOX''\<rparr>
      = Inr (''mail:993'', ''INBOX'', True)" by code_simp
  moreover have "ToUpper ''plain'' = ''PLAIN''" by code_simp
  ultimately show ?thesis
    by (simp add: Resolve_def ex_parse_def ex_imap_def fillDefaults_def OAuth2_fillDefaults_def
        DefaultIMAPConfig_def DefaultOAuth2Config_def auth_of_def validateUserPass_def
        NewSASLAuthenticator_def Let_def)
qed


text \<open>
  Resolving is repeatable: resolving the configuration that a resolution has changed
  (defaults filled in, the method in capitals, the OAuth2 scopes appended) gives the same
  connection or the same error.
\<close>

lemma OAuth2_Resolve_again:
  "snd (OAuth2_Resolve (fst (OAuth2_Resolve cfg))) = snd (OAuth2_Resolve cfg)"
  by (simp add: OAuth2_Resolve_def Let_def)

lemma validateUserPass_cong:
  assumes "ic_Username c = ic_Username d" "ic_Password c = ic_Password d"
    "ic_PasswordFile c = ic_PasswordFile d" "ic_SystemdCredential c = ic_SystemdCredential d"
  shows "validateUserPass w c = validateUserPass w d"
  unfolding validateUserPass_def assms ..

lemma validate_oauth [simp]:
  "validateUserPass w (cfg\<lparr>ic_OAuth2 := oauth\<rparr>) = validateUserPass w cfg"
  by (rule validateUserPass_cong) simp_all

lemma auth_of_again: "snd (auth_of w (fst (auth_of w cfg))) = snd (auth_of w cfg)"
  using OAuth2_Resolve_again [of "ic_OAuth2 cfg"]
  by (auto simp: auth_of_def Let_def split: prod.splits option.splits)

lemma fillDefaults_settled:
  assumes "ic_AuthMethod cfg \<noteq> []" "ic_Transport cfg \<noteq> []" "oc_Provider (ic_OAuth2 cfg) \<noteq> []"
  shows "fillDefaults cfg = cfg"
  using assms by (simp add: fillDefaults_def OAuth2_fillDefaults_def Let_def)

lemma OAuth2_Resolve_provider: "oc_Provider (fst (OAuth2_Resolve cfg)) = oc_Provider cfg"
  by (simp add: OAuth2_Resolve_def Let_def)

lemma auth_of_provider:
  "oc_Provider (ic_OAuth2 (fst (auth_of w cfg))) = oc_Provider (ic_OAuth2 cfg)"
  using OAuth2_Resolve_provider [of "ic_OAuth2 cfg"]
  by (auto simp: auth_of_def Let_def split: prod.splits option.splits)

lemma fillDefaults_provider: "oc_Provider (ic_OAuth2 (fillDefaults cfg)) \<noteq> []"
  by (simp add: fillDefaults_def OAuth2_fillDefaults_def DefaultOAuth2Config_def Let_def)

lemma Resolve_connection:
  assumes "parse (ic_URL cfg) = Inr u" and "extractUrl u = Inr (hp, mb, tls)"
    and "auth_of w ((fillDefaults cfg)\<lparr>ic_AuthMethod := ToUpper (ic_AuthMethod (fillDefaults cfg))\<rparr>) = (c, res)"
  shows "Resolve parse w cfg = (c, map_sum id (\<lambda>auth.
    (\<lparr>HostPort = hp, Auth = auth, cc_Mailbox = mb, TLS = tls,
      TLSConfig = (if ic_TLSSkipVerify c then Some True else None), cc_Debug = ic_Debug c\<rparr>,
     if ic_Transport c \<noteq> ''persistent'' then StandardFactory else PersistentFactory 0)) res)"
  using assms by (cases res) (simp_all add: Resolve_def Let_def del: fillDefaults_fields(7))

theorem resolve_repeatable:
  "snd (Resolve parse w (fst (Resolve parse w cfg))) = snd (Resolve parse w cfg)"
proof (cases "parse (ic_URL cfg)")
  case (Inl err)
  then show ?thesis by (simp add: Resolve_def Let_def)
next
  case (Inr u)
  note parsed = Inr
  show ?thesis
  proof (cases "extractUrl u")
    case (Inl err)
    with parsed show ?thesis by (simp add: Resolve_def Let_def)
  next
    case (Inr url)
    obtain hp mb tls where url: "extractUrl u = Inr (hp, mb, tls)" using Inr by (cases url) auto
    let ?up = "(fillDefaults cfg)\<lparr>ic_AuthMethod := ToUpper (ic_AuthMethod (fillDefaults cfg))\<rparr>"
    obtain c res where c: "auth_of w ?up = (c, res)" by (cases "auth_of w ?up")
    note same = auth_of_fields [OF c]
    have "oc_Provider (ic_OAuth2 c) \<noteq> []"
      using auth_of_provider [of w ?up] fillDefaults_provider [of cfg] c by simp
    with same have "fillDefaults c = c" by (intro fillDefaults_settled) (simp_all split: if_splits)
    moreover have "c\<lparr>ic_AuthMethod := ToUpper (ic_AuthMethod c)\<rparr> = c" using same by simp
    moreover obtain d where d: "auth_of w c = (d, res)"
      using auth_of_again [of w ?up] c by (cases "auth_of w c") auto
    ultimately have d': "auth_of w ((fillDefaults c)\<lparr>ic_AuthMethod := ToUpper (ic_AuthMethod (fillDefaults c))\<rparr>)
        = (d, res)" by simp
    have "parse (ic_URL c) = Inr u" using same parsed by simp
    from Resolve_connection [of parse, OF this url d'] Resolve_connection [of parse, OF parsed url c]
    show ?thesis using auth_of_fields [OF d] by simp
  qed
qed

text \<open>
  C31: an address that resolution produced resolves to itself: the host and port it is made of
  are the ones it is split into, for names and for IPv6 addresses, so naming it as the host
  of the URL again changes nothing.
\<close>

theorem address_roundtrip:
  assumes "CHR ''['' \<notin> set (url_Hostname u)" and "extractUrl u = Inr (hostPort, mailbox, tls)"
  shows "extractUrl (u\<lparr>url_Host := hostPort\<rparr>) = Inr (hostPort, mailbox, tls)
    \<and> url_Hostname (u\<lparr>url_Host := hostPort\<rparr>) = url_Hostname u"
proof -
  have digits: "list_all digit_char (url_Port u)"
    by (simp add: url_Port_def splitHostPort_def split: option.splits)
  obtain port where hp: "hostPort = JoinHostPort (url_Hostname u) port" and port: "port \<noteq> []"
    "list_all digit_char port"
    using assms(2) digits by (auto simp: extractUrl_def Let_def digit_char_def split: if_splits)
  have "splitHostPort hostPort = (url_Hostname u, port)"
    unfolding hp by (rule split_join_host_port) (use assms(1) port in simp_all)
  then show ?thesis
    using assms(2) hp port
    by (auto simp: extractUrl_def url_Hostname_def url_Port_def Let_def split: if_splits)
qed

theorem address_roundtrip_witness:
  "extractUrl \<lparr>url_Scheme = ''imap'', url_Host = ''[::1]:143'', url_Path = ''/a''\<rparr>
    = Inr (''[::1]:143'', ''a'', False)"
proof -
  have "extractUrl \<lparr>url_Scheme = ''imap'', url_Host = ''[::1]'', url_Path = ''/a''\<rparr>
      = Inr (''[::1]:143'', ''a'', False)"
    and "CHR ''['' \<notin> set (url_Hostname \<lparr>url_Scheme = ''imap'', url_Host = ''[::1]'', url_Path = ''/a''\<rparr>)"
    by code_simp+
  from address_roundtrip [OF this(2,1)] show ?thesis by simp
qed
text \<open>
  OAuth2 cannot be configured: without an authorization URL, which neither a flag nor the
  configuration file can set, a connection with the method OAUTHBEARER never resolves, and no
  pump is built from a configuration that uses it on either side.
\<close>

theorem oauth_never_resolves:
  assumes "ToUpper (ic_AuthMethod cfg) = ''OAUTHBEARER''" and "oc_AuthURL (ic_OAuth2 cfg) = []"
  shows "(\<exists>err. snd (Resolve parse w cfg) = Inl err)
    \<and> (\<exists>err. BuildPumpConfig parse w (cli\<lparr>cl_Source := cfg\<rparr>) = Inl err)
    \<and> (\<exists>err. BuildPumpConfig parse w (cli\<lparr>cl_Dest := cfg\<rparr>) = Inl err)"
proof -
  let ?up = "(fillDefaults cfg)\<lparr>ic_AuthMethod := ToUpper (ic_AuthMethod (fillDefaults cfg))\<rparr>"
  have "ic_AuthMethod cfg \<noteq> []" using assms(1) by (auto simp: ToUpper_def)
  then have up: "ic_AuthMethod ?up = ''OAUTHBEARER''" using assms(1) by simp
  obtain err where "snd (OAuth2_Resolve (ic_OAuth2 ?up)) = Some err"
    using OAuth2_Resolve_auth_url [of "ic_OAuth2 ?up"] assms(2) by auto
  then have "\<exists>c. auth_of w ?up = (c, Inl err)"
    using up by (auto simp: auth_of_def split: prod.splits)
  then have resolved: "\<exists>err. snd (Resolve parse w cfg) = Inl err"
    by (auto simp: Resolve_def Let_def split: sum.splits prod.splits)
  then obtain c err where "Resolve parse w cfg = (c, Inl err)" by (metis prod.collapse)
  then show ?thesis using resolved
    by (auto simp: BuildPumpConfig_def split: prod.splits sum.splits)
qed

theorem oauth_never_resolves_witness:
  "\<exists>err. snd (Resolve ex_parse ex_world (DefaultIMAPConfig\<lparr>ic_AuthMethod := ''oauthbearer''\<rparr>)) = Inl err"
proof -
  have "ToUpper ''oauthbearer'' = ''OAUTHBEARER''" by code_simp
  with oauth_never_resolves [of "DefaultIMAPConfig\<lparr>ic_AuthMethod := ''oauthbearer''\<rparr>"]
  show ?thesis by (simp add: DefaultIMAPConfig_def DefaultOAuth2Config_def)
qed

text \<open>
  C30: what the check of a systemd credential ensures is only textual: the file that is read has
  the cleaned credentials directory as a prefix of its path, and is itself cleaned, so no
  \<open>..\<close> is left in it; but a sibling directory whose name continues the directory's passes
  the check, and its file is read as the password.
\<close>

lemma credential_path_Inr:
  assumes "credential_path w cred = Inr path"
  shows "\<exists>rest. path = path_Clean (w_Getenv w ''CREDENTIALS_DIRECTORY'') @ rest"
    and "path_Clean path = path"
proof -
  have "HasPrefix path (path_Clean (w_Getenv w ''CREDENTIALS_DIRECTORY'')) \<and> path_Clean path = path"
    using assms by (auto simp: credential_path_def Let_def path_Clean_idem split: if_splits)
  then show "\<exists>rest. path = path_Clean (w_Getenv w ''CREDENTIALS_DIRECTORY'') @ rest"
    and "path_Clean path = path" by (simp_all add: HasPrefix_iff)
qed

theorem credential_check:
  "(\<forall>path. credential_path w cred = Inr path \<longrightarrow>
      path_Clean path = path
      \<and> (\<exists>rest. path = path_Clean (w_Getenv w ''CREDENTIALS_DIRECTORY'') @ rest))
    \<and> validateUserPass ex_world (DefaultIMAPConfig\<lparr>ic_Username := ''u'',
        ic_SystemdCredential := ''../creds-old/pw''\<rparr>) = Inr (''u'', ''secret'')"
proof (intro conjI allI impI)
  fix path assume "credential_path w cred = Inr path"
  then show "path_Clean path = path"
    and "\<exists>rest. path = path_Clean (w_Getenv w ''CREDENTIALS_DIRECTORY'') @ rest"
    using credential_path_Inr by blast+
next
  have "path_Clean ''/run/creds/'' = ''/run/creds''"
    and "path_Clean (path_Join ''/run/creds'' ''../creds-old/pw'') = ''/run/creds-old/pw''"
    and "HasPrefix ''/run/creds-old/pw'' ''/run/creds''"
    and "TrimSpace ''secret'' = ''secret''" by code_simp+
  then show "validateUserPass ex_world (DefaultIMAPConfig\<lparr>ic_Username := ''u'',
        ic_SystemdCredential := ''../creds-old/pw''\<rparr>) = Inr (''u'', ''secret'')"
    by (simp add: validateUserPass_def credential_path_def read_trimmed_def ex_world_def
        DefaultIMAPConfig_def Let_def)
qed

theorem credential_check_witness:
  "\<exists>rest. ''/run/creds-old/pw'' = path_Clean (w_Getenv ex_world ''CREDENTIALS_DIRECTORY'') @ rest"
proof -
  have "credential_path ex_world ''../creds-old/pw'' = Inr ''/run/creds-old/pw''" by code_simp
  with credential_check [of ex_world "''../creds-old/pw''"] show ?thesis by blast
qed

text \<open>
  A pump configuration that is built has no zero among its intervals and sizes, keeps
  every value that was set, and says nothing but the user's choice about deletions; the
  receiver the pump is started with keeps these values.
\<close>

theorem built_config_settled:
  assumes "BuildPumpConfig parse w cli = Inr (cfg, sourceFactory, destFactory)"
    and "NewReceiver dialled (receiver_config cfg) = Inr mr"
  shows "batchSize mr = (if cl_BatchSize cli = 0 then 15 else cl_BatchSize cli)
    \<and> fetchBufferSize mr = (if cl_FetchBufferSize cli = 0 then 20 else cl_FetchBufferSize cli)
    \<and> idleFallbackInterval mr = (if cl_IDLEFallbackInterval cli = 0 then minute else cl_IDLEFallbackInterval cli)
    \<and> fetchMaxInterval mr = (if cl_FetchMaxInterval cli = 0 then 5 * minute else cl_FetchMaxInterval cli)
    \<and> disableDeletions mr = cl_DisableDeletions cli
    \<and> messages mr = Map.empty"
  using assms
  by (auto simp: BuildPumpConfig_def NewReceiver_def receiver_config_def or_default_def DefaultConfig_def
      split: prod.splits sum.splits option.splits)

theorem built_config_settled_witness:
  "\<exists>mr. NewReceiver None (receiver_config
      \<lparr>pc_Source = \<lparr>HostPort = ''mail:993'', Auth = SASLAuthenticator (PlainClient [] ''u'' ''p''),
         cc_Mailbox = ''INBOX'', TLS = True, TLSConfig = None, cc_Debug = False\<rparr>,
       pc_Dest = \<lparr>HostPort = ''mail:993'', Auth = SASLAuthenticator (PlainClient [] ''u'' ''p''),
         cc_Mailbox = ''INBOX'', TLS = True, TLSConfig = None, cc_Debug = False\<rparr>,
       pc_IDLEFallbackInterval = minute, pc_BatchSize = 15, pc_DisableDeletions = False,
       pc_FetchBufferSize = 20, pc_FetchMaxInterval = 5 * minute\<rparr>) = Inr mr \<and> batchSize mr = 15"
proof -
  let ?conn = "\<lparr>HostPort = ''mail:993'', Auth = SASLAuthenticator (PlainClient [] ''u'' ''p''),
         cc_Mailbox = ''INBOX'', TLS = True, TLSConfig = None, cc_Debug = False\<rparr>"
  let ?cfg = "\<lparr>pc_Source = ?conn, pc_Dest = ?conn,
       pc_IDLEFallbackInterval = minute, pc_BatchSize = 15, pc_DisableDeletions = False,
       pc_FetchBufferSize = 20, pc_FetchMaxInterval = 5 * minute\<rparr>"
  let ?cli = "DefaultConfig\<lparr>cl_Source := ex_imap, cl_Dest := ex_imap\<rparr>"
  obtain c where "Resolve ex_parse ex_world ex_imap = (c, Inr (?conn, PersistentFactory 0))"
    using ex_resolves by blast
  then have built: "BuildPumpConfig ex_parse ex_world ?cli = Inr (?cfg, PersistentFactory 0, PersistentFactory 0)"
    by (simp add: BuildPumpConfig_def DefaultConfig_def or_default_def)
  obtain mr where mr: "NewReceiver None (receiver_config ?cfg) = Inr mr"
    by (auto simp: NewReceiver_def)
  with built_config_settled [OF built mr] show ?thesis by (simp add: DefaultConfig_def)
qed

end
