(* ===== verification/Flags.thy ===== *)
theory Flags
  imports Config
begin

text \<open>
  The command line of the programs, \<open>cmd/config\<close>: the name, the environment variable, the
  field and the default of every flag, and what the flag library does with them before the
  command runs. A flag's destination, a pointer into the configuration in the code, is the
  name of the field it points to.
\<close>

section \<open>Flags\<close>

datatype oauth_field = OProvider | OClientID | OClientSecret | OAuthURL | OTokenURL | OScopes

datatype imap_field =
    FURL | FUsername | FAuthMethod | FPassword | FPasswordFile | FTLSSkipVerify | FTransport
  | FDebug | FOAuth2 oauth_field

datatype cli_field =
    FSource imap_field
  | FDest imap_field
  | FLogLevel | FLogFormat | FIDLEFallbackInterval | FBatchSize | FDisableDeletions
  | FFetchBufferSize | FFetchMaxInterval

datatype flag_value =
    StringFlag string
  | BoolFlag bool
  | DurationFlag duration
  | UintFlag uint
  | StringSliceFlag

record 'd cli_flag =
  fl_Name :: string
  fl_Usage :: string
  fl_EnvVars :: "string list"
  fl_Destination :: 'd
  fl_Required :: bool
  fl_Hidden :: bool
  fl_Value :: flag_value

definition makeFlagNames :: "string \<Rightarrow> string \<Rightarrow> string \<times> string \<times> string list" where
  "makeFlagNames name prefix =
     (let name = ToLower name;
          prefix = ToLower prefix;
          desc = ReplaceAll name (CHR ''-'') (CHR '' '');
          env = ToUpper (ReplaceAll name (CHR ''-'') (CHR ''_''))
      in if prefix = [] then (name, desc, [''MAILPUMP_'' @ env])
         else (prefix @ ''-'' @ name,
               ReplaceAll prefix (CHR ''-'') (CHR '' '') @ '' '' @ desc,
               [''MAILPUMP_'' @ ToUpper (ReplaceAll prefix (CHR ''-'') (CHR ''_'')) @ ''_'' @ env]))"

text \<open>A flag under the names made for it, with its own usage text if it has one.\<close>

definition flag_for ::
  "string \<times> string \<times> string list \<Rightarrow> string option \<Rightarrow> 'd \<Rightarrow> flag_value \<Rightarrow> bool \<Rightarrow> bool \<Rightarrow> 'd cli_flag"
where
  "flag_for names usage dest v required hidden =
     (case names of (name, made, envs) \<Rightarrow>
        \<lparr>fl_Name = name, fl_Usage = (case usage of None \<Rightarrow> made | Some u \<Rightarrow> u), fl_EnvVars = envs,
         fl_Destination = dest, fl_Required = required, fl_Hidden = hidden, fl_Value = v\<rparr>)"

definition OAuth2_makeParameters :: "(oauth_field \<Rightarrow> 'd) \<Rightarrow> string \<Rightarrow> 'd cli_flag list" where
  "OAuth2_makeParameters d prefix =
     [flag_for (makeFlagNames ''provider'' prefix)
        (Some (fst (snd (makeFlagNames ''provider'' prefix)) @ '' (custom)''))
        (d OProvider) (StringFlag (oc_Provider DefaultOAuth2Config)) False False,
      flag_for (makeFlagNames ''client-id'' prefix) None
        (d OClientID) (StringFlag (oc_ClientID DefaultOAuth2Config)) False False,
      flag_for (makeFlagNames ''client-secret'' prefix) None
        (d OClientSecret) (StringFlag (oc_ClientSecret DefaultOAuth2Config)) False False,
      flag_for (makeFlagNames ''token-url'' prefix) None
        (d OTokenURL) (StringFlag (oc_TokenURL DefaultOAuth2Config)) False False,
      flag_for (makeFlagNames ''scopes'' prefix) None (d OScopes) StringSliceFlag False False]"

definition OAuth2_Parameters :: "oauth_field cli_flag list" where
  "OAuth2_Parameters = OAuth2_makeParameters id []"

definition makeIMAPParameters :: "(imap_field \<Rightarrow> 'd) \<Rightarrow> string \<Rightarrow> 'd cli_flag list" where
  "makeIMAPParameters d prefix =
     (let def = DefaultIMAPConfig in
     [flag_for (makeFlagNames ''url'' prefix) None (d FURL) (StringFlag (ic_URL def)) True False,
      flag_for (makeFlagNames ''auth-method'' prefix) None
        (d FAuthMethod) (StringFlag (ic_AuthMethod def)) False False,
      flag_for (makeFlagNames ''username'' prefix) (Some (prefix @ '' imap username''))
        (d FUsername) (StringFlag (ic_Username def)) True False,
      flag_for (makeFlagNames ''password'' prefix) (Some (prefix @ '' imap password''))
        (d FPassword) (StringFlag (ic_Password def)) False False,
      flag_for (makeFlagNames ''password-file'' prefix) (Some (prefix @ '' imap password file''))
        (d FPasswordFile) (StringFlag (ic_PasswordFile def)) False False,
      flag_for (makeFlagNames ''tls-skip-verify'' prefix)
        (Some (''skip '' @ prefix @ '' tls verification''))
        (d FTLSSkipVerify) (BoolFlag (ic_TLSSkipVerify def)) False False,
      flag_for (makeFlagNames ''transport'' prefix)
        (Some (prefix @ '' imap transport (persistent, standard)''))
        (d FTransport) (StringFlag (ic_Transport def)) False False,
      flag_for (makeFlagNames ''debug'' prefix) (Some (''display '' @ prefix @ '' debug info''))
        (d FTransport) (StringFlag (ic_Transport def)) False False]
     @ OAuth2_makeParameters (\<lambda>f. d (FOAuth2 f)) (prefix @ ''-oauth2''))"

definition CliConfig_Parameters :: "cli_field cli_flag list" where
  "CliConfig_Parameters =
     (let def = DefaultConfig in
     makeIMAPParameters FSource ''source'' @ makeIMAPParameters FDest ''dest'' @
     [flag_for (makeFlagNames ''log-level'' []) None
        FLogLevel (StringFlag (cl_LogLevel def)) False False,
      flag_for (makeFlagNames ''log-format'' []) (Some ''log format (text/json)'')
        FLogFormat (StringFlag (cl_LogFormat def)) False False,
      flag_for (makeFlagNames ''idle-fallback-interval'' [])
        (Some (''fallback poll interval for servers that don'' @ CHR 0x27 # ''t support IDLE''))
        FIDLEFallbackInterval (DurationFlag (cl_IDLEFallbackInterval def)) False False,
      flag_for (makeFlagNames ''batch-size'' []) (Some ''deletion batch size'')
        FBatchSize (UintFlag (cl_BatchSize def)) False False,
      flag_for (makeFlagNames ''disable-deletions'' [])
        (Some ''disable deletions. for debugging only'')
        FDisableDeletions (BoolFlag (cl_DisableDeletions def)) False True,
      flag_for (makeFlagNames ''fetch-buffer-size'' []) None
        FFetchBufferSize (UintFlag (cl_FetchBufferSize def)) False False,
      flag_for (makeFlagNames ''fetch-max-interval'' [])
        (Some ''maximum interval between fetches. can abort IDLE'')
        FFetchMaxInterval (DurationFlag (cl_FetchMaxInterval def)) False False])"

section \<open>What the flag library does\<close>

text \<open>
  The library applies the flags in order: each string flag writes its environment variable,
  or else its default, to its destination. Then the arguments are parsed, in order. The
  memory is the value of every string field; flags of other types write other fields.
\<close>

fun flagFromEnv :: "(string \<Rightarrow> string option) \<Rightarrow> string list \<Rightarrow> string option" where
  "flagFromEnv env [] = None"
| "flagFromEnv env (v # vs) = (case env v of Some s \<Rightarrow> Some s | None \<Rightarrow> flagFromEnv env vs)"

definition flag_Apply ::
  "(string \<Rightarrow> string option) \<Rightarrow> 'd cli_flag \<Rightarrow> ('d \<Rightarrow> string) \<Rightarrow> 'd \<Rightarrow> string"
where
  "flag_Apply env f mem =
     (case fl_Value f of
        StringFlag def \<Rightarrow>
          mem(fl_Destination f := (case flagFromEnv env (fl_EnvVars f) of Some s \<Rightarrow> s | None \<Rightarrow> def))
      | _ \<Rightarrow> mem)"

definition flag_Set :: "'d cli_flag list \<Rightarrow> string \<times> string \<Rightarrow> ('d \<Rightarrow> string) \<Rightarrow> 'd \<Rightarrow> string" where
  "flag_Set fls arg mem =
     (case find (\<lambda>f. fl_Name f = fst arg) fls of
        Some f \<Rightarrow> (case fl_Value f of StringFlag _ \<Rightarrow> mem(fl_Destination f := snd arg) | _ \<Rightarrow> mem)
      | None \<Rightarrow> mem)"

definition load_flags ::
  "(string \<Rightarrow> string option) \<Rightarrow> 'd cli_flag list \<Rightarrow> (string \<times> string) list \<Rightarrow> ('d \<Rightarrow> string) \<Rightarrow> 'd \<Rightarrow> string"
where
  "load_flags env fls args mem = fold (flag_Set fls) args (fold (flag_Apply env) fls mem)"

section \<open>Lemmas\<close>

definition writers :: "'d cli_flag list \<Rightarrow> 'd \<Rightarrow> 'd cli_flag list" where
  "writers fls d = filter (\<lambda>f. fl_Destination f = d
     \<and> (case fl_Value f of StringFlag _ \<Rightarrow> True | _ \<Rightarrow> False)) fls"

definition written :: "(string \<Rightarrow> string option) \<Rightarrow> 'd cli_flag \<Rightarrow> string" where
  "written env f = (case flagFromEnv env (fl_EnvVars f) of Some s \<Rightarrow> s
     | None \<Rightarrow> (case fl_Value f of StringFlag def \<Rightarrow> def | _ \<Rightarrow> []))"

lemma writers_simps [simp]:
  "writers [] d = []"
  "writers (f # fls) d = (if fl_Destination f = d \<and> (\<exists>def. fl_Value f = StringFlag def)
     then f # writers fls d else writers fls d)"
  by (auto simp: writers_def split: flag_value.splits)

lemma flag_Apply_at:
  "flag_Apply env f mem d = (if writers [f] d = [] then mem d else written env f)"
  by (cases "fl_Value f") (simp_all add: flag_Apply_def written_def split: option.split)

lemma apply_flags:
  "fold (flag_Apply env) fls mem d =
    (if writers fls d = [] then mem d else written env (last (writers fls d)))"
proof (induction fls arbitrary: mem)
  case Nil
  then show ?case by simp
next
  case (Cons f fls)
  show ?case
    using Cons.IH [of "flag_Apply env f mem"] flag_Apply_at [of env f mem d] by (auto split: if_splits)
qed

lemma set_other_flags:
  assumes "\<forall>a\<in>set args. \<forall>f\<in>set fls. fl_Name f = fst a \<longrightarrow> fl_Destination f \<noteq> d"
  shows "fold (flag_Set fls) args mem d = mem d"
  using assms
proof (induction args arbitrary: mem)
  case (Cons a args)
  have "flag_Set fls a mem d = mem d"
  proof (cases "find (\<lambda>f. fl_Name f = fst a) fls")
    case (Some f)
    then have "fl_Name f = fst a" "f \<in> set fls" by (auto simp: find_Some_iff)
    with Cons.prems have "fl_Destination f \<noteq> d" by auto
    with Some show ?thesis by (simp add: flag_Set_def split: flag_value.split)
  qed (simp add: flag_Set_def)
  with Cons show ?case by simp
qed simp

section \<open>Properties\<close>

text \<open>
  Every flag of the program can be told from the others: no two share a name or an
  environment variable, and the variable of a flag is its name in capitals, with underscores,
  after \<open>MAILPUMP_\<close>. Nobody writes the debug fields and the OAuth2 authorization URL.
\<close>

theorem cli_flags_distinct:
  "distinct (map fl_Name CliConfig_Parameters)
    \<and> map fl_EnvVars CliConfig_Parameters
      = map (\<lambda>f. [''MAILPUMP_'' @ ToUpper (ReplaceAll (fl_Name f) (CHR ''-'') (CHR ''_''))]) CliConfig_Parameters
    \<and> distinct (concat (map fl_EnvVars CliConfig_Parameters))
    \<and> set (map fl_Destination CliConfig_Parameters) \<inter>
      {FSource FDebug, FDest FDebug, FSource (FOAuth2 OAuthURL), FDest (FOAuth2 OAuthURL)} = {}"
  by code_simp

text \<open>
  C28: the transport of a connection is decided by the wrong flag: the debug flag is declared
  with the transport as its destination, and is applied after the transport flag, so that
  the variable \<open>MAILPUMP_SOURCE_TRANSPORT\<close> has no effect and \<open>MAILPUMP_SOURCE_DEBUG\<close> sets
  the transport, likewise for the destination, as long as no argument names either flag.
\<close>

lemma transport_writers:
  "map fl_EnvVars (writers CliConfig_Parameters (FSource FTransport))
    = [[''MAILPUMP_SOURCE_TRANSPORT''], [''MAILPUMP_SOURCE_DEBUG'']]"
  "map fl_EnvVars (writers CliConfig_Parameters (FDest FTransport))
    = [[''MAILPUMP_DEST_TRANSPORT''], [''MAILPUMP_DEST_DEBUG'']]"
  "map fl_Value (writers CliConfig_Parameters (FSource FTransport))
    = [StringFlag ''persistent'', StringFlag ''persistent'']"
  "map fl_Value (writers CliConfig_Parameters (FDest FTransport))
    = [StringFlag ''persistent'', StringFlag ''persistent'']"
  unfolding writers_def by code_simp+

lemma transport_names:
  "list_all (\<lambda>f. fl_Destination f = FSource FTransport \<longrightarrow> fl_Name f \<in> {''source-transport'', ''source-debug''})
    CliConfig_Parameters"
  "list_all (\<lambda>f. fl_Destination f = FDest FTransport \<longrightarrow> fl_Name f \<in> {''dest-transport'', ''dest-debug''})
    CliConfig_Parameters"
  by code_simp+

lemma last_of_map:
  assumes "map g xs = ys @ [y]"
  shows "xs \<noteq> []" and "g (last xs) = y"
  using assms by (metis list.map_disc_iff snoc_eq_iff_butlast, metis assms last_map last_snoc list.map_disc_iff snoc_eq_iff_butlast)



end
