(* ===== verification/Commands.thy ===== *)
theory Commands
  imports Flags Delivery
begin

text \<open>
  The commands: the configuration file of the many-to-one pump and its resolution,
  \<open>cmd/run-multi\<close>, the main loops of \<open>run\<close> and \<open>run-multi\<close> with their signals, and
  \<open>oauthlogin\<close>. Go iterates over a map in any order, so each loop over the sources takes
  its iteration as an argument; parsing of JSON and URLs are arguments as well.
\<close>

section \<open>The configuration of the many-to-one pump\<close>

record Source =
  so_Connection :: IMAPConfig
  so_TargetMailbox :: string
  so_IDLEFallbackInterval :: duration
  so_BatchSize :: uint
  so_DisableDeletions :: bool
  so_FetchBufferSize :: uint
  so_FetchMaxInterval :: duration

definition DefaultBatchSize :: uint where "DefaultBatchSize = 10"
definition DefaultFetchBufferSize :: uint where "DefaultFetchBufferSize = 20"
definition DefaultIDLEFallbackInterval :: duration where "DefaultIDLEFallbackInterval = minute"
definition DefaultFetchMaxInterval :: duration where "DefaultFetchMaxInterval = 5 * minute"

lemmas multi_defaults = DefaultBatchSize_def DefaultFetchBufferSize_def
  DefaultIDLEFallbackInterval_def DefaultFetchMaxInterval_def

definition Source_Resolve ::
  "(string \<Rightarrow> go_error + go_url) \<Rightarrow> config_world \<Rightarrow> Source \<Rightarrow>
    go_error + ReceiverConfig \<times> client_factory"
where
  "Source_Resolve parse w src =
     (case snd (Resolve parse w (so_Connection src)) of
        Inl err \<Rightarrow> Inl err
      | Inr (conn, factory) \<Rightarrow>
          Inr (\<lparr>rc_Connection = conn,
                rc_IDLEFallbackInterval = or_default DefaultIDLEFallbackInterval (so_IDLEFallbackInterval src),
                rc_BatchSize = or_default DefaultBatchSize (so_BatchSize src),
                rc_FetchBufferSize = or_default DefaultFetchBufferSize (so_FetchBufferSize src),
                rc_FetchMaxInterval = or_default DefaultFetchMaxInterval (so_FetchMaxInterval src),
                rc_DisableDeletions = so_DisableDeletions src\<rparr>, factory))"

record Configuration =
  mc_ConfigPath :: string
  mc_Destination :: IMAPConfig
  mc_Sources :: "string \<rightharpoonup> Source"
  mc_LogLevel :: string
  mc_LogFormat :: string
  mc_ResolvedDestination :: "(ConnectionConfig \<times> client_factory) option"
  mc_ResolvedSources :: "(ReceiverConfig \<times> client_factory) list"

definition multi_DefaultConfig :: Configuration where
  "multi_DefaultConfig = \<lparr>mc_ConfigPath = ''config.json'', mc_Destination = DefaultIMAPConfig,
     mc_Sources = Map.empty, mc_LogLevel = ''info'', mc_LogFormat = ''text'',
     mc_ResolvedDestination = None, mc_ResolvedSources = []\<rparr>"

text \<open>The one flag, with its aliases.\<close>

datatype multi_field = MConfigPath

definition multi_Parameters :: "(string list \<times> multi_field cli_flag) list" where
  "multi_Parameters =
     [([''c''], \<lparr>fl_Name = ''config'',
        fl_Usage = ''path to configuration file, or '' @ CHR 0x27 # ''-'' @ CHR 0x27 # '' to read from stdin'',
        fl_EnvVars = [], fl_Destination = MConfigPath, fl_Required = False, fl_Hidden = False,
        fl_Value = StringFlag (mc_ConfigPath multi_DefaultConfig)\<rparr>)]"

text \<open>
  Resolving a source fills defaults into its connection; since resolving is repeatable and
  nothing reads them afterwards, only the result is kept.
\<close>

fun resolve_sources ::
  "(string \<Rightarrow> go_error + go_url) \<Rightarrow> config_world \<Rightarrow> (string \<rightharpoonup> Source) \<Rightarrow> string list \<Rightarrow>
    (ReceiverConfig \<times> client_factory) list \<Rightarrow> go_error + (ReceiverConfig \<times> client_factory) list"
where
  "resolve_sources parse w sources [] acc = Inr acc"
| "resolve_sources parse w sources (name # names) acc =
     (case Source_Resolve parse w (the (sources name)) of
        Inl err \<Rightarrow> Inl err
      | Inr rs \<Rightarrow> resolve_sources parse w sources names (acc @ [rs]))"

text \<open>
  \<open>Resolve\<close> reads the file, or standard input when the path is empty, parses it into the
  configuration, and resolves the destination and then the sources, in the order in which
  the map happens to be iterated.
\<close>

definition Configuration_Resolve ::
  "(string \<Rightarrow> go_error + go_url) \<Rightarrow> config_world \<Rightarrow> (go_error + string) \<Rightarrow>
    (string \<Rightarrow> Configuration \<Rightarrow> go_error + Configuration) \<Rightarrow> string list \<Rightarrow>
    Configuration \<Rightarrow> go_error + Configuration"
where
  "Configuration_Resolve parse w stdin unmarshal names cfg =
     (case (if mc_ConfigPath cfg = [] then stdin else w_ReadFile w (mc_ConfigPath cfg)) of
        Inl err \<Rightarrow> Inl err
      | Inr raw \<Rightarrow>
          (case unmarshal raw cfg of
             Inl err \<Rightarrow> Inl err
           | Inr cfg \<Rightarrow>
               (case Resolve parse w (mc_Destination cfg) of
                  (conn, Inl err) \<Rightarrow> Inl err
                | (conn, Inr dest) \<Rightarrow>
                    (case resolve_sources parse w (mc_Sources cfg) names [] of
                       Inl err \<Rightarrow> Inl err
                     | Inr rs \<Rightarrow> Inr (cfg\<lparr>mc_Destination := conn, mc_ResolvedDestination := Some dest,
                         mc_ResolvedSources := rs\<rparr>)))))"

text \<open>The command iterates over the map again to list the target mailboxes.\<close>

definition targetMailboxes :: "Configuration \<Rightarrow> string list \<Rightarrow> string list" where
  "targetMailboxes cfg names = map (\<lambda>name. so_TargetMailbox (the (mc_Sources cfg name))) names"

section \<open>The main loops\<close>

text \<open>
  Both commands wait for signals and for the pump to end. The first signal closes the stop
  channel, the second ends the process without running deferred calls; when the pump ends
  the command returns, and the deferred \<open>Close\<close> of the pump runs. The events are what the
  select receives, in order.
\<close>

datatype main_event = SignalCaught | PumpDone
datatype main_action = CloseStopChan | ForceExit | CommandReturns | PumpClosed

fun signal_loop :: "nat \<Rightarrow> main_event list \<Rightarrow> main_action list" where
  "signal_loop sigcount [] = []"
| "signal_loop sigcount (SignalCaught # es) =
     (let sigcount = sigcount + 1 in
      if sigcount > 1 then [ForceExit] else CloseStopChan # signal_loop sigcount es)"
| "signal_loop sigcount (PumpDone # es) = [CommandReturns, PumpClosed]"

datatype command_result =
    ReturnsError go_error
  | LogsFatal go_error "pump_effect list"
  | RunsPump "pump_effect list" "main_action list"

text \<open>
  \<open>run\<close>: the pump is configured and started, and the loop entered. The answers of the two
  factories come from outside.
\<close>

definition run_command ::
  "(string \<Rightarrow> go_error + go_url) \<Rightarrow> config_world \<Rightarrow> go_error option \<Rightarrow> go_error option \<Rightarrow>
    main_event list \<Rightarrow> CliConfig \<Rightarrow> command_result"
where
  "run_command parse w src_dialled dst_dialled events cfg =
     (case BuildPumpConfig parse w cfg of
        Inl err \<Rightarrow> ReturnsError err
      | Inr (pumpConfig, _, _) \<Rightarrow>
          (case NewMailPump src_dialled dst_dialled pumpConfig of
             (Inl err, effs) \<Rightarrow> LogsFatal err effs
           | (Inr pump, effs) \<Rightarrow> RunsPump effs (signal_loop 0 events)))"

text \<open>\<open>run-multi\<close>, on a configuration that was resolved; \<open>dialled\<close> answers each source.\<close>

definition run_multi_command ::
  "go_error option \<Rightarrow> go_error option list \<Rightarrow> string list \<Rightarrow> main_event list \<Rightarrow> Configuration \<Rightarrow>
    command_result"
where
  "run_multi_command dst_dialled dialled names events cfg =
     (case NewPump dst_dialled (zip dialled (map fst (mc_ResolvedSources cfg))) (targetMailboxes cfg names) of
        (Inl err, effs) \<Rightarrow> LogsFatal err effs
      | (Inr pump, effs) \<Rightarrow> RunsPump effs (signal_loop 0 events))"

text \<open>The single pump closes both of its parts at once and waits for the two.\<close>

definition pump_Close :: "bool \<Rightarrow> pump_effect list" where
  "pump_Close receiver_first =
     (if receiver_first then [ReceiverClosed 0, IngestClosed] else [IngestClosed, ReceiverClosed 0])"

section \<open>The login helper\<close>

text \<open>
  \<open>oauthlogin\<close> opens a dialog, which yields a code, and exchanges it for a token; both are
  done by libraries.
\<close>

definition oauthlogin ::
  "(OAuth2Config \<Rightarrow> go_error + string) \<Rightarrow> (OAuth2Config \<Rightarrow> string \<Rightarrow> go_error + string) \<Rightarrow>
    OAuth2Config \<Rightarrow> go_error + string"
where
  "oauthlogin dialog exchange cfg =
     (case OAuth2_Resolve cfg of
        (cfg, Some err) \<Rightarrow> Inl err
      | (cfg, None) \<Rightarrow> (case dialog cfg of Inl err \<Rightarrow> Inl err | Inr code \<Rightarrow> exchange cfg code))"

text \<open>The settings of its flags.\<close>

definition oauth_of :: "(oauth_field \<Rightarrow> string) \<Rightarrow> string list \<Rightarrow> OAuth2Config" where
  "oauth_of mem scopes = \<lparr>oc_Provider = mem OProvider, oc_Scopes = scopes, oc_ClientID = mem OClientID,
     oc_ClientSecret = mem OClientSecret, oc_AuthURL = mem OAuthURL, oc_TokenURL = mem OTokenURL,
     oc_ConfigScopes = []\<rparr>"

section \<open>Lemmas\<close>

lemma resolve_sources_nth:
  assumes "resolve_sources parse w sources names acc = Inr rs"
  shows "length rs = length acc + length names"
    and "k < length acc \<Longrightarrow> rs ! k = acc ! k"
    and "k < length names \<Longrightarrow>
      Source_Resolve parse w (the (sources (names ! k))) = Inr (rs ! (length acc + k))"
  using assms
proof (induction names arbitrary: acc k)
  case Nil
  { case 1 then show ?case by simp }
  { case 2 then show ?case by simp }
  { case 3 then show ?case by simp }
next
  case (Cons name names)
  { case 1 then show ?case using Cons.IH(1) by (auto split: sum.splits) }
  { case 2
    then obtain r where "resolve_sources parse w sources names (acc @ [r]) = Inr rs"
      by (auto split: sum.splits)
    with Cons.IH(2) [of k "acc @ [r]"] 2 show ?case by (simp add: nth_append) }
  { case 3
    then obtain r where r: "Source_Resolve parse w (the (sources name)) = Inr r"
      and rest: "resolve_sources parse w sources names (acc @ [r]) = Inr rs"
      by (auto split: sum.splits)
    show ?case
    proof (cases k)
      case 0
      with r Cons.IH(2) [OF _ rest, of "length acc"] show ?thesis by simp
    next
      case (Suc j)
      with 3 Cons.IH(3) [OF _ rest, of j] show ?thesis by simp
    qed }
qed

lemma Configuration_Resolve_Inr:
  assumes "Configuration_Resolve parse w stdin unmarshal names cfg = Inr cfg'"
  shows "resolve_sources parse w (mc_Sources cfg') names [] = Inr (mc_ResolvedSources cfg')"
  using assms by (auto simp: Configuration_Resolve_def split: sum.splits prod.splits)

text \<open>Swapping two positions of an iteration gives another iteration.\<close>

lemma map_iteration_swap:
  assumes "map_iteration m ks" and "i < length ks" and "j < length ks"
  shows "map_iteration m (ks[i := ks ! j, j := ks ! i])"
  using assms by (simp add: map_iteration_def)

section \<open>Properties\<close>

text \<open>
  C4: the many-to-one pump delivers the mail of a source into the mailbox configured for it
  only if the language happens to iterate over the sources in the same order twice. Source
  number \<open>i\<close> of the pump is the \<open>i\<close>-th name of the first iteration, its target mailbox that
  of the \<open>i\<close>-th name of the second; and for any two sources there is a second iteration in
  which the first one's mail goes to the other's mailbox.
\<close>

theorem run_multi_pairing:
  assumes "Configuration_Resolve parse w stdin unmarshal names cfg = Inr cfg'"
    and "map_iteration (mc_Sources cfg') names" and "map_iteration (mc_Sources cfg') names'"
    and "i < length names" and "j < length names"
  shows "length (mc_ResolvedSources cfg') = length names
    \<and> length (targetMailboxes cfg' names') = length names
    \<and> Source_Resolve parse w (the (mc_Sources cfg' (names ! i))) = Inr (mc_ResolvedSources cfg' ! i)
    \<and> targetMailboxes cfg' names' ! i = so_TargetMailbox (the (mc_Sources cfg' (names' ! i)))
    \<and> (\<exists>names''. map_iteration (mc_Sources cfg') names''
        \<and> targetMailboxes cfg' names'' ! i = so_TargetMailbox (the (mc_Sources cfg' (names ! j))))"
proof -
  note rs = resolve_sources_nth [OF Configuration_Resolve_Inr [OF assms(1)], simplified]
  have len: "length names' = length names"
    using assms(2,3) by (metis distinct_card map_iteration_def)
  let ?swap = "names[i := names ! j, j := names ! i]"
  have "map_iteration (mc_Sources cfg') ?swap"
    using assms(2,4,5) by (rule map_iteration_swap)
  moreover have "targetMailboxes cfg' ?swap ! i = so_TargetMailbox (the (mc_Sources cfg' (names ! j)))"
    using assms(4,5) by (simp add: targetMailboxes_def nth_list_update)
  ultimately show ?thesis
    using rs(1) rs(3) [OF assms(4)] len assms(4) by (auto simp: targetMailboxes_def)
qed

definition ex_source :: "string \<Rightarrow> Source" where
  "ex_source mailbox = \<lparr>so_Connection = ex_imap, so_TargetMailbox = mailbox, so_IDLEFallbackInterval = 0,
     so_BatchSize = 0, so_DisableDeletions = False, so_FetchBufferSize = 0, so_FetchMaxInterval = 0\<rparr>"

definition ex_multi :: Configuration where
  "ex_multi = multi_DefaultConfig\<lparr>mc_Destination := ex_imap, mc_ConfigPath := [],
     mc_Sources := [''a'' \<mapsto> ex_source ''A'', ''b'' \<mapsto> ex_source ''B'']\<rparr>"

lemma ex_multi_resolves:
  "\<exists>cfg'. Configuration_Resolve ex_parse ex_world (Inr []) (\<lambda>_. Inr) [''a'', ''b''] ex_multi = Inr cfg'
    \<and> mc_Sources cfg' = mc_Sources ex_multi"
  using ex_resolves by (auto simp: Configuration_Resolve_def ex_multi_def multi_DefaultConfig_def
      Source_Resolve_def ex_source_def)

theorem run_multi_pairing_witness:
  "\<exists>names''. map_iteration (mc_Sources ex_multi) names'' \<and> targetMailboxes ex_multi names'' ! 0 = ''B''"
proof -
  have iter: "map_iteration (mc_Sources ex_multi) [''a'', ''b'']"
    by (auto simp: map_iteration_def ex_multi_def multi_DefaultConfig_def split: if_splits)
  obtain cfg' where cfg': "Configuration_Resolve ex_parse ex_world (Inr []) (\<lambda>_. Inr) [''a'', ''b''] ex_multi = Inr cfg'"
    and same: "mc_Sources cfg' = mc_Sources ex_multi"
    using ex_multi_resolves by blast
  from run_multi_pairing [OF cfg', of "[''a'', ''b'']" 0 1] iter same
  obtain names'' where "map_iteration (mc_Sources ex_multi) names''"
    "targetMailboxes cfg' names'' ! 0 = so_TargetMailbox (the (mc_Sources ex_multi ''b''))"
    by auto
  moreover have "targetMailboxes cfg' names'' = targetMailboxes ex_multi names''"
    using same by (simp add: targetMailboxes_def)
  ultimately show ?thesis by (auto simp: ex_multi_def ex_source_def)
qed

text \<open>
  C5: when the two iterations agree, mail ends where it was configured to: a receiver of the
  many-to-one pump is acknowledged only for messages of its own that were appended to the
  target mailbox of the very source the receiver was built from.
\<close>

theorem multi_delivers_to_own_mailbox:
  assumes "Configuration_Resolve parse w stdin unmarshal names cfg = Inr cfg'"
    and "deliverable orderly (targetMailboxes cfg' names) s" and "(uid, None) \<in> set (dl_acks s i)"
  shows "i < length names
    \<and> Source_Resolve parse w (the (mc_Sources cfg' (names ! i))) = Inr (mc_ResolvedSources cfg' ! i)
    \<and> (\<exists>req\<in>set (dl_appended s). rq_Message req \<in> set (dl_handed s i) \<and> Uid (rq_Message req) = uid
        \<and> rq_Mailbox req = so_TargetMailbox (the (mc_Sources cfg' (names ! i))))"
proof -
  note rs = resolve_sources_nth [OF Configuration_Resolve_Inr [OF assms(1)], simplified]
  obtain req where req: "req \<in> set (dl_appended s)" "i < length (targetMailboxes cfg' names)"
    "rq_Mailbox req = targetMailboxes cfg' names ! i" "rq_Message req \<in> set (dl_handed s i)"
    "Uid (rq_Message req) = uid"
    using acked_appended [OF assms(2,3)] by blast
  then show ?thesis using rs(3) [of i] by (auto simp: targetMailboxes_def)
qed

theorem multi_delivers_to_own_mailbox_witness:
  "\<exists>s. deliverable True [''A'', ''B''] s
    \<and> (\<exists>req\<in>set (dl_appended s). Uid (rq_Message req) = 7 \<and> rq_Mailbox req = ''A'')"
proof -
  obtain cfg' where cfg': "Configuration_Resolve ex_parse ex_world (Inr []) (\<lambda>_. Inr) [''a'', ''b''] ex_multi = Inr cfg'"
    and same: "mc_Sources cfg' = mc_Sources ex_multi"
    using ex_multi_resolves by blast
  have targets: "targetMailboxes cfg' [''a'', ''b''] = [''A'', ''B'']"
    using same by (simp add: targetMailboxes_def ex_multi_def ex_source_def)
  obtain s where s: "deliverable True [''A'', ''B''] s" "at Selecting Waiting [ex_success] s"
    using run_rounds [of 1 True "''A''" "[''B'']"] by auto
  obtain t where t: "deliverable True [''A'', ''B''] t" "(7, None) \<in> set (dl_acks t 0)"
    using run_ack [OF s] by blast
  from multi_delivers_to_own_mailbox [OF cfg', unfolded targets, OF t] t(1) same
  show ?thesis by (intro exI [of _ t]) (auto simp: ex_multi_def ex_source_def)
qed

text \<open>
  Whatever the signals, the stop channel is closed at most once, so the main loop never
  panics on it; the process is ended by force exactly when two signals come before the pump
  is done, and the pump is closed exactly when it is done before the second signal.
\<close>

theorem signals_stop_once:
  "count_list (signal_loop 0 events) CloseStopChan \<le> 1
    \<and> (ForceExit \<in> set (signal_loop 0 events) \<longleftrightarrow>
        2 \<le> length (takeWhile (\<lambda>e. e = SignalCaught) events))
    \<and> (PumpClosed \<in> set (signal_loop 0 events) \<longleftrightarrow>
        length (takeWhile (\<lambda>e. e = SignalCaught) events) < 2 \<and> PumpDone \<in> set events)"
proof (cases events)
  case Nil
  then show ?thesis by simp
next
  case (Cons e es)
  have one: "count_list (signal_loop 1 es) CloseStopChan = 0
    \<and> (ForceExit \<in> set (signal_loop 1 es) \<longleftrightarrow> 1 \<le> length (takeWhile (\<lambda>e. e = SignalCaught) es))
    \<and> (PumpClosed \<in> set (signal_loop 1 es) \<longleftrightarrow>
        length (takeWhile (\<lambda>e. e = SignalCaught) es) < 1 \<and> PumpDone \<in> set es)" for es
  proof (cases es)
    case (Cons e es)
    then show ?thesis by (cases e) simp_all
  qed simp
  show ?thesis
    using Cons one [of es] by (cases e) auto
qed

text \<open>
  C29: the login helper never gets as far as its dialog: none of its flags writes the
  authorization URL, without which the settings do not resolve, so it returns an error for
  every environment and every command line.
\<close>

theorem oauthlogin_always_fails:
  "\<exists>err. oauthlogin dialog exchange
      (oauth_of (load_flags env OAuth2_Parameters args (\<lambda>_. [])) scopes) = Inl err"
proof -
  let ?mem = "load_flags env OAuth2_Parameters args (\<lambda>_. [])"
  have "list_all (\<lambda>f. fl_Destination f \<noteq> OAuthURL) OAuth2_Parameters" by code_simp
  then have "\<forall>f\<in>set OAuth2_Parameters. fl_Destination f \<noteq> OAuthURL" by (simp add: list_all_iff)
  then have "fold (flag_Set OAuth2_Parameters) args m OAuthURL = m OAuthURL"
    and "writers OAuth2_Parameters OAuthURL = []" for m
    using set_other_flags [of args OAuth2_Parameters OAuthURL m]
    by (auto simp: writers_def filter_empty_conv)
  then have "?mem OAuthURL = []" by (simp add: load_flags_def apply_flags)
  then obtain cfg err where "OAuth2_Resolve (oauth_of ?mem scopes) = (cfg, Some err)"
    using OAuth2_Resolve_auth_url [of "oauth_of ?mem scopes"]
    by (metis oauth_of_def OAuth2Config.select_convs(5) prod.collapse)
  then show ?thesis by (simp add: oauthlogin_def)
qed

end
