(* ===== verification/Startup.thy ===== *)
theory Startup
  imports Commands PersistentSystem
begin

text \<open>
  How the program comes up: \<open>cmd/main.go\<close> with the registration of the three commands, the
  logging set up by \<open>run\<close> and \<open>run-multi\<close>, what \<open>run\<close> writes to its log before it starts,
  what \<open>oauthlogin\<close> prints, and the client factories a resolved configuration names.
  The command-line library is an argument; so is the parsing of log levels.
\<close>

section \<open>The commands and their registration\<close>

datatype command_action = RunAction | RunMultiAction | OAuthLoginAction

text \<open>A command with the names of its flags, aliases included.\<close>

record cli_command =
  cm_Name :: string
  cm_Usage :: string
  cm_FlagNames :: "string list"
  cm_UseShortOptionHandling :: bool
  cm_ResolvesBefore :: bool
  cm_Action :: command_action

record cli_app =
  ap_Name :: string
  ap_Usage :: string
  ap_Description :: string
  ap_Commands :: "cli_command list"

definition run_RegisterCommand :: "cli_app \<Rightarrow> cli_app" where
  "run_RegisterCommand app = app\<lparr>ap_Commands := ap_Commands app @
     [\<lparr>cm_Name = ''run'', cm_Usage = ''Run the pump'',
       cm_FlagNames = map fl_Name CliConfig_Parameters, cm_UseShortOptionHandling = False,
       cm_ResolvesBefore = False, cm_Action = RunAction\<rparr>]\<rparr>"

definition run_multi_RegisterCommand :: "cli_app \<Rightarrow> cli_app" where
  "run_multi_RegisterCommand app = app\<lparr>ap_Commands := ap_Commands app @
     [\<lparr>cm_Name = ''run-multi'', cm_Usage = ''Run the experimental many-to-one pump'',
       cm_FlagNames = concat (map (\<lambda>(aliases, f). fl_Name f # aliases) multi_Parameters),
       cm_UseShortOptionHandling = True, cm_ResolvesBefore = True, cm_Action = RunMultiAction\<rparr>]\<rparr>"

definition oauthlogin_RegisterCommand :: "cli_app \<Rightarrow> cli_app" where
  "oauthlogin_RegisterCommand app = app\<lparr>ap_Commands := ap_Commands app @
     [\<lparr>cm_Name = ''oauthlogin'', cm_Usage = ''Generate an OAuth2 Token'',
       cm_FlagNames = map fl_Name OAuth2_Parameters, cm_UseShortOptionHandling = False,
       cm_ResolvesBefore = False, cm_Action = OAuthLoginAction\<rparr>]\<rparr>"

definition main_app :: "string \<Rightarrow> cli_app" where
  "main_app arg0 =
     oauthlogin_RegisterCommand (run_multi_RegisterCommand (run_RegisterCommand
       \<lparr>ap_Name = ''mailpump'', ap_Usage = arg0,
        ap_Description = ''MailPump monitors a mailbox via IMAP and will '' @ CHR 0x22 # ''pump''
          @ CHR 0x22 # '' mail'' @ CHR 0x0A # ''to another mailbox on a different server, deleting the originals. ''
          @ [CHR 0x0A],
        ap_Commands = []\<rparr>))"

text \<open>
  \<open>Main\<close> runs the application on the arguments of the process, the first of which is its
  name; an error of its command ends the process through \<open>log.Fatal\<close>.
\<close>

definition Main_fatal ::
  "(cli_app \<Rightarrow> string list \<Rightarrow> go_error option) \<Rightarrow> string \<Rightarrow> string list \<Rightarrow> go_error option"
where
  "Main_fatal app_Run arg0 args = app_Run (main_app arg0) (arg0 # args)"

text \<open>The command an argument names.\<close>

definition named_command :: "cli_app \<Rightarrow> string \<Rightarrow> cli_command option" where
  "named_command app name = find (\<lambda>c. cm_Name c = name) (ap_Commands app)"

section \<open>Logging\<close>

record logger =
  lg_Level :: nat
  lg_JSON :: bool

text \<open>
  The start of both \<open>run\<close> functions: a level that does not parse leaves the logger's own,
  and every format but \<open>json\<close> leaves its formatter.
\<close>

definition setup_logging :: "(string \<Rightarrow> go_error + nat) \<Rightarrow> string \<Rightarrow> string \<Rightarrow> logger \<Rightarrow> logger" where
  "setup_logging parseLevel level format lg =
     (let lg = (case parseLevel level of Inr l \<Rightarrow> lg\<lparr>lg_Level := l\<rparr> | Inl err \<Rightarrow> lg)
      in if format = ''json'' then lg\<lparr>lg_JSON := True\<rparr> else lg)"

datatype log_value = LogString string | LogBool bool | LogDuration duration | LogUint uint

text \<open>The fields of the record \<open>starting\<close> that \<open>run\<close> logs.\<close>

definition starting_fields :: "CliConfig \<Rightarrow> (string \<times> log_value) list" where
  "starting_fields cfg =
     [(''source_url'', LogString (ic_URL (cl_Source cfg))),
      (''source_auth_method'', LogString (ic_AuthMethod (cl_Source cfg))),
      (''source_username'', LogString (ic_Username (cl_Source cfg))),
      (''source_password_file'', LogString (ic_PasswordFile (cl_Source cfg))),
      (''source_tls_skip_verify'', LogBool (ic_TLSSkipVerify (cl_Source cfg))),
      (''source_transport'', LogString (ic_Transport (cl_Source cfg))),
      (''source_debug'', LogBool (ic_Debug (cl_Source cfg))),
      (''dest_url'', LogString (ic_URL (cl_Dest cfg))),
      (''dest_username'', LogString (ic_Username (cl_Dest cfg))),
      (''dest_auth_method'', LogString (ic_AuthMethod (cl_Dest cfg))),
      (''dest_password_file'', LogString (ic_PasswordFile (cl_Dest cfg))),
      (''dest_tls_skip_verify'', LogBool (ic_TLSSkipVerify (cl_Dest cfg))),
      (''dest_transport'', LogString (ic_Transport (cl_Dest cfg))),
      (''dest_debug'', LogBool (ic_Debug (cl_Dest cfg))),
      (''log_level'', LogString (cl_LogLevel cfg)),
      (''log_format'', LogString (cl_LogFormat cfg)),
      (''idle_fallback_interval'', LogDuration (cl_IDLEFallbackInterval cfg)),
      (''batch_size'', LogUint (cl_BatchSize cfg)),
      (''fetch_buffer_size'', LogUint (cl_FetchBufferSize cfg))]"

text \<open>What \<open>oauthlogin\<close> prints for the refresh token of the exchange.\<close>

definition OAuthBearer :: string where
  "OAuthBearer = ''OAUTHBEARER''"

definition line_of :: "string \<Rightarrow> string" where
  "line_of s = s @ [CHR 0x0A]"

definition oauthlogin_output :: "string \<Rightarrow> string list" where
  "oauthlogin_output refreshToken =
     [line_of ''Your OAuth2 token is:'', [], line_of (''  '' @ refreshToken), [],
      line_of ''You may now pass this via:'',
      line_of (''  --{source,dest}-auth-method='' @ OAuthBearer
        @ '' (MAILPUMP_{SOURCE,DEST}_AUTH_METHOD='' @ OAuthBearer @ ''), and''),
      line_of ''  --{source,dest}-password=<token> (MAILPUMP_{SOURCE,DEST}_PASSWORD=<token>)'', [],
      line_of ''> Keep It Secret, Keep It Safe'', line_of ''>   - Gandalf'']"

section \<open>Factories\<close>

text \<open>
  The error a factory's \<open>NewClient\<close> answers with. The plain factory dials; the persistent
  one only starts a goroutine. The arguments are those of \<open>client_NewClient\<close>.
\<close>

record network =
  nw_dial :: "conn_effect \<Rightarrow> go_error option"
  nw_token :: "go_error + string"
  nw_server :: "auth_call \<Rightarrow> go_error option"

definition factory_NewClient :: "client_factory \<Rightarrow> network \<Rightarrow> ConnectionConfig \<Rightarrow> go_error option" where
  "factory_NewClient factory net cfg =
     (case factory of
        StandardFactory \<Rightarrow>
          (case fst (client_NewClient cfg (nw_dial net) (nw_token net) (nw_server net)) of
             Inl err \<Rightarrow> Some err | Inr _ \<Rightarrow> None)
      | PersistentFactory maxDelay \<Rightarrow>
          (let c = persistent_Factory_NewClient maxDelay cfg in None))"

text \<open>\<open>run\<close> with the factories its configuration resolves to.\<close>

definition run_main ::
  "(string \<Rightarrow> go_error + go_url) \<Rightarrow> config_world \<Rightarrow> network \<Rightarrow> network \<Rightarrow> main_event list \<Rightarrow>
    CliConfig \<Rightarrow> command_result"
where
  "run_main parse w src_net dst_net events cfg =
     (case BuildPumpConfig parse w cfg of
        Inl err \<Rightarrow> ReturnsError err
      | Inr (pumpConfig, src, dst) \<Rightarrow>
          run_command parse w (factory_NewClient src src_net (pc_Source pumpConfig))
            (factory_NewClient dst dst_net (pc_Dest pumpConfig)) events cfg)"

text \<open>\<open>run-multi\<close> likewise: the configuration it hands to \<open>NewPump\<close>, and the start.\<close>

record ingest_Config =
  gc_Connection :: ConnectionConfig
  gc_Factory :: client_factory

record multipump_Config =
  mq_Destination :: ingest_Config
  mq_Sources :: "(ReceiverConfig \<times> client_factory) list"
  mq_TargetMailboxes :: "string list"

definition multi_config :: "Configuration \<Rightarrow> string list \<Rightarrow> multipump_Config option" where
  "multi_config cfg names =
     (case mc_ResolvedDestination cfg of
        None \<Rightarrow> None
      | Some (conn, factory) \<Rightarrow>
          Some \<lparr>mq_Destination = \<lparr>gc_Connection = conn, gc_Factory = factory\<rparr>,
                mq_Sources = mc_ResolvedSources cfg,
                mq_TargetMailboxes = targetMailboxes cfg names\<rparr>)"

definition run_multi_main ::
  "network \<Rightarrow> (nat \<Rightarrow> network) \<Rightarrow> main_event list \<Rightarrow> multipump_Config \<Rightarrow> command_result"
where
  "run_multi_main dst_net src_net events cfg =
     (case NewPump
         (factory_NewClient (gc_Factory (mq_Destination cfg)) dst_net (gc_Connection (mq_Destination cfg)))
         (map (\<lambda>(i, rc, factory). (factory_NewClient factory (src_net i) (rc_Connection rc), rc))
            (enumerate 0 (mq_Sources cfg)))
         (mq_TargetMailboxes cfg) of
        (Inl err, effs) \<Rightarrow> LogsFatal err effs
      | (Inr pump, effs) \<Rightarrow> RunsPump effs (signal_loop 0 events))"

section \<open>Properties\<close>

text \<open>
  Every command is reached by its own name, and none defines a flag name twice, which the
  flag library would answer with a panic.
\<close>

lemma commands_named:
  "map cm_Name (ap_Commands (main_app arg0)) = [''run'', ''run-multi'', ''oauthlogin'']"
  by (simp add: main_app_def run_RegisterCommand_def run_multi_RegisterCommand_def
      oauthlogin_RegisterCommand_def)

lemma command_flags_distinct:
  "distinct (map fl_Name CliConfig_Parameters)" "distinct (map fl_Name OAuth2_Parameters)"
  "distinct (concat (map (\<lambda>(aliases, f). fl_Name f # aliases) multi_Parameters))"
  by code_simp+

lemma commands_usable:
  "list_all (\<lambda>c. named_command (main_app arg0) (cm_Name c) = Some c \<and> distinct (cm_FlagNames c))
     (ap_Commands (main_app arg0))"
  using command_flags_distinct
  by (simp add: main_app_def run_RegisterCommand_def run_multi_RegisterCommand_def
      oauthlogin_RegisterCommand_def named_command_def)

text \<open>What \<open>run\<close> logs at its start does not depend on a password or another secret.\<close>

lemma starting_fields_secrets:
  "starting_fields (cfg\<lparr>cl_Source := (cl_Source cfg)\<lparr>ic_Password := p, ic_OAuth2 := oc\<rparr>,
     cl_Dest := (cl_Dest cfg)\<lparr>ic_Password := q, ic_OAuth2 := od\<rparr>\<rparr>) = starting_fields cfg"
  by (simp add: starting_fields_def)

lemma factory_persistent [simp]: "factory_NewClient (PersistentFactory d) net cfg = None"
  by (simp add: factory_NewClient_def)

lemma Resolve_factory:
  assumes "Resolve parse w cfg = (cfg', Inr (conn, factory))"
  shows "factory = (if ic_Transport cfg \<in> {[], ''persistent''} then PersistentFactory 0
    else StandardFactory)"
proof -
  let ?cfg = "fillDefaults cfg"
  let ?up = "?cfg\<lparr>ic_AuthMethod := ToUpper (ic_AuthMethod ?cfg)\<rparr>"
  obtain auth where auth: "auth_of w ?up = (cfg', Inr auth)"
    and factory: "factory = (if ic_Transport cfg' \<noteq> ''persistent'' then StandardFactory
      else PersistentFactory 0)"
    using assms by (auto simp: Resolve_def Let_def split: sum.splits prod.splits)
  have "ic_Transport cfg' = ic_Transport ?cfg" using auth_of_fields(2) [OF auth] by simp
  moreover have "ic_Transport ?cfg = (if ic_Transport cfg = [] then ''persistent'' else ic_Transport cfg)"
    by (simp add: fillDefaults_def DefaultIMAPConfig_def Let_def)
  ultimately show ?thesis using factory by simp
qed

lemma BuildPumpConfig_factories:
  assumes "BuildPumpConfig parse w cfg = Inr (pumpConfig, src, dst)"
  shows "src = (if ic_Transport (cl_Source cfg) \<in> {[], ''persistent''} then PersistentFactory 0
      else StandardFactory)"
    and "dst = (if ic_Transport (cl_Dest cfg) \<in> {[], ''persistent''} then PersistentFactory 0
      else StandardFactory)"
proof -
  obtain c1 conn1 c2 conn2 where r: "Resolve parse w (cl_Source cfg) = (c1, Inr (conn1, src))"
    "Resolve parse w (cl_Dest cfg) = (c2, Inr (conn2, dst))"
    using assms unfolding BuildPumpConfig_def by (auto split: prod.splits sum.splits)
  show "src = (if ic_Transport (cl_Source cfg) \<in> {[], ''persistent''} then PersistentFactory 0
      else StandardFactory)" by (rule Resolve_factory [OF r(1)])
  show "dst = (if ic_Transport (cl_Dest cfg) \<in> {[], ''persistent''} then PersistentFactory 0
      else StandardFactory)" by (rule Resolve_factory [OF r(2)])
qed

text \<open>
  C39: how \<open>run\<close> comes up on a configuration that resolves: with the plain transport an
  error in connecting to the source ends the process at once, one in connecting to the
  destination after the receiver was closed again; with the persistent transport, the
  default, the network has no say, and a side with it never keeps the pump from starting,
  whatever its server answers to the credentials.
\<close>

theorem run_starts:
  assumes "BuildPumpConfig parse w cfg = Inr (pumpConfig, src, dst)"
  shows "run_main parse w src_net dst_net events cfg =
    (case (if ic_Transport (cl_Source cfg) \<in> {[], ''persistent''} then None
           else factory_NewClient StandardFactory src_net (pc_Source pumpConfig)) of
       Some err \<Rightarrow> LogsFatal err []
     | None \<Rightarrow>
         (case (if ic_Transport (cl_Dest cfg) \<in> {[], ''persistent''} then None
                else factory_NewClient StandardFactory dst_net (pc_Dest pumpConfig)) of
            Some err \<Rightarrow> LogsFatal err [ReceiverStarted 0, ReceiverClosed 0]
          | None \<Rightarrow> RunsPump [ReceiverStarted 0, IngestStarted, TickStarted] (signal_loop 0 events)))"
  using BuildPumpConfig_factories [OF assms]
  by (auto simp: run_main_def run_command_def assms NewMailPump_def NewReceiver_def
      ingest_NewClient_def split: option.splits)

definition ex_cli :: CliConfig where
  "ex_cli = DefaultConfig\<lparr>cl_Source := ex_imap, cl_Dest := ex_imap\<lparr>ic_Transport := ''standard''\<rparr>\<rparr>"

definition ex_refusing :: network where
  "ex_refusing = \<lparr>nw_dial = \<lambda>_. Some (ExtError 3), nw_token = Inr [], nw_server = \<lambda>_. None\<rparr>"

theorem run_starts_witness:
  "run_main ex_parse ex_world ex_refusing ex_refusing [] ex_cli =
    LogsFatal (ExtError 3) [ReceiverStarted 0, ReceiverClosed 0]"
proof -
  have "case BuildPumpConfig ex_parse ex_world ex_cli of Inr _ \<Rightarrow> True | Inl _ \<Rightarrow> False"
    by code_simp
  then obtain p src dst where "BuildPumpConfig ex_parse ex_world ex_cli = Inr (p, src, dst)"
    by (auto split: sum.splits)
  from run_starts [OF this, of ex_refusing ex_refusing "[]"] show ?thesis
    by (simp add: ex_cli_def ex_imap_def DefaultConfig_def DefaultIMAPConfig_def factory_NewClient_def
        client_NewClient_def ex_refusing_def Let_def)
qed

text \<open>\<open>run-multi\<close> with persistent transports starts whenever it has sources and mailboxes.\<close>

lemma makeReceivers_all:
  assumes "\<forall>s\<in>set srcs. fst s = None"
  shows "\<exists>recvs. makeReceivers_loop srcs acc effs =
    (Inr recvs, effs @ map ReceiverStarted [length acc..<length acc + length srcs])"
  using assms
proof (induction srcs acc effs rule: makeReceivers_loop.induct)
  case (2 dialled cfg srcs acc effs)
  then obtain recv where r: "NewReceiver dialled cfg = Inr recv" by (simp add: NewReceiver_def)
  moreover obtain recvs where "makeReceivers_loop srcs (acc @ [recv]) (effs @ [ReceiverStarted (length acc)]) =
    (Inr recvs, (effs @ [ReceiverStarted (length acc)])
      @ map ReceiverStarted [length (acc @ [recv])..<length (acc @ [recv]) + length srcs])"
    using "2.IH" [OF r] "2.prems" by auto
  ultimately show ?case by (simp add: upt_rec [of "length acc"] del: upt_Suc)
qed simp

lemma run_multi_starts:
  assumes "\<forall>(rc, factory)\<in>set (mq_Sources cfg). \<exists>d. factory = PersistentFactory d"
    and "gc_Factory (mq_Destination cfg) = PersistentFactory d"
    and "mq_Sources cfg \<noteq> []" and "length (mq_TargetMailboxes cfg) = length (mq_Sources cfg)"
  shows "run_multi_main dst_net src_net events cfg =
    RunsPump (IngestStarted # map ReceiverStarted [0..<length (mq_Sources cfg)] @ [TickStarted])
      (signal_loop 0 events)"
proof -
  let ?srcs = "map (\<lambda>(i, rc, factory). (factory_NewClient factory (src_net i) (rc_Connection rc), rc))
    (enumerate 0 (mq_Sources cfg))"
  have "factory_NewClient (snd (snd x)) (src_net (fst x)) (rc_Connection (fst (snd x))) = None"
    if "x \<in> set (enumerate 0 (mq_Sources cfg))" for x
  proof -
    have "snd x \<in> set (mq_Sources cfg)" using that by (auto simp: in_set_enumerate_eq) (metis nth_mem)
    with assms(1) obtain d where "snd (snd x) = PersistentFactory d" by auto
    then show ?thesis by simp
  qed
  then have "\<forall>s\<in>set ?srcs. fst s = None" by auto
  from makeReceivers_all [OF this, of "[]" "[]"] assms(2-4) show ?thesis
    by (auto simp: run_multi_main_def NewPump_def ingest_NewClient_def makeReceivers_def)
qed

end
