(* ===== verification/SeqSetText.thy ===== *)
theory SeqSetText
  imports SeqSet GoStrings
begin

text \<open>
  The text of a sequence set: \<open>String\<close>, which go-imap writes into the commands that fetch
  and flag messages, and the parser \<open>ParseSeqSet\<close>, with which a server reads it. The two
  are shown to be inverse to each other on the sets the operations build.
\<close>

section \<open>Numbers\<close>

text \<open>\<open>strconv.FormatUint\<close> and \<open>ParseUint\<close> with base 10; the parser checks for 32 bits.\<close>

definition digit :: "nat \<Rightarrow> char" where
  "digit d = char_of (48 + d)"

fun FormatUint :: "nat \<Rightarrow> string" where
  "FormatUint n = (if n < 10 then [digit n] else FormatUint (n div 10) @ [digit (n mod 10)])"

declare FormatUint.simps [simp del]

definition digit_value :: "char \<Rightarrow> nat" where
  "digit_value c = of_char c - 48"

definition decimal :: "string \<Rightarrow> nat" where
  "decimal s = foldl (\<lambda>n c. 10 * n + digit_value c) 0 s"

definition ParseUint32 :: "string \<Rightarrow> nat option" where
  "ParseUint32 s = (if s \<noteq> [] \<and> list_all digit_char s \<and> decimal s < 2 ^ 32 then Some (decimal s) else None)"

section \<open>Parsing\<close>

text \<open>An error is the text that \<open>ErrBadSeqSet\<close> carries.\<close>

definition parseSeqNumber :: "string \<Rightarrow> string + u32" where
  "parseSeqNumber v =
     (case (if ParseUint32 v \<noteq> None \<and> v ! 0 \<noteq> CHR ''0'' then ParseUint32 v else None) of
        Some n \<Rightarrow> Inr (word_of_nat n)
      | None \<Rightarrow> if v = ''*'' then Inr 0 else Inl v)"

text \<open>The text before the first occurrence of a character, and after it.\<close>

fun first_split :: "char \<Rightarrow> string \<Rightarrow> (string \<times> string) option" where
  "first_split c [] = None"
| "first_split c (x # xs) =
     (if x = c then Some ([], xs)
      else case first_split c xs of Some (a, b) \<Rightarrow> Some (x # a, b) | None \<Rightarrow> None)"

definition parseSeq :: "string \<Rightarrow> string + Seq" where
  "parseSeq v =
     (case first_split (CHR '':'') v of
        None \<Rightarrow> (case parseSeqNumber v of Inl e \<Rightarrow> Inl e | Inr n \<Rightarrow> Inr (mk_seq n n))
      | Some (l, r) \<Rightarrow>
          (case parseSeqNumber l of
             Inl _ \<Rightarrow> Inl v
           | Inr a \<Rightarrow>
               (case parseSeqNumber r of
                  Inl _ \<Rightarrow> Inl v
                | Inr b \<Rightarrow> Inr (if (b < a \<and> b \<noteq> 0) \<or> a = 0 then mk_seq b a else mk_seq a b))))"

text \<open>\<open>Add\<close> stops at the first bad value and keeps what it added before.\<close>

fun add_values :: "string list \<Rightarrow> SeqSet \<Rightarrow> SeqSet \<times> string option" where
  "add_values [] xs = (xs, None)"
| "add_values (sv # svs) xs =
     (case parseSeq sv of Inl e \<Rightarrow> (xs, Some e) | Inr v \<Rightarrow> add_values svs (SeqSet_insert v xs))"

definition SeqSet_Add :: "string \<Rightarrow> SeqSet \<Rightarrow> SeqSet \<times> string option" where
  "SeqSet_Add input xs = add_values (split_on (CHR '','') input) xs"

definition ParseSeqSet :: "string \<Rightarrow> SeqSet \<times> string option" where
  "ParseSeqSet input = SeqSet_Add input []"

section \<open>Printing\<close>

definition Seq_String :: "Seq \<Rightarrow> string" where
  "Seq_String s =
     (if Start s = Stop s then (if Start s = 0 then ''*'' else FormatUint (unat (Start s)))
      else if Stop s = 0 then FormatUint (unat (Start s)) @ '':*''
      else FormatUint (unat (Start s)) @ '':'' @ FormatUint (unat (Stop s)))"

fun string_entries :: "SeqSet \<Rightarrow> string" where
  "string_entries [] = []"
| "string_entries (v # vs) =
     '','' @
     (if Start v = 0 then ''*''
      else FormatUint (unat (Start v)) @
        (if Start v \<noteq> Stop v then (if Stop v = 0 then '':*'' else '':'' @ FormatUint (unat (Stop v)))
         else [])) @ string_entries vs"

definition SeqSet_String :: "SeqSet \<Rightarrow> string" where
  "SeqSet_String xs = (if length xs = 0 then [] else tl (string_entries xs))"

section \<open>Numbers and their digits\<close>

lemma of_char_digit: "d < 10 \<Longrightarrow> (of_char (digit d) :: nat) = 48 + d"
  by (simp add: digit_def)

lemma digit_char_digit: "d < 10 \<Longrightarrow> digit_char (digit d)"
  by (simp add: digit_char_def of_char_digit)

lemma digit_value_digit: "d < 10 \<Longrightarrow> digit_value (digit d) = d"
  by (simp add: digit_value_def of_char_digit)

lemma digit_inj: "d < 10 \<Longrightarrow> e < 10 \<Longrightarrow> digit d = digit e \<longleftrightarrow> d = e"
  by (metis digit_value_digit)

lemma digit_0: "digit 0 = CHR ''0''"
  by (simp add: digit_def) code_simp

lemma FormatUint_digits: "FormatUint n \<noteq> [] \<and> list_all digit_char (FormatUint n)"
  by (induction n rule: FormatUint.induct) (subst FormatUint.simps, auto simp: FormatUint.simps digit_char_digit)

lemma decimal_append: "decimal (s @ [c]) = 10 * decimal s + digit_value c"
  by (simp add: decimal_def)

lemma decimal_FormatUint: "decimal (FormatUint n) = n"
proof (induction n rule: FormatUint.induct)
  case (1 n)
  show ?case
  proof (cases "n < 10")
    case True
    then show ?thesis by (simp add: FormatUint.simps [of n] decimal_def digit_value_digit)
  next
    case False
    with 1 show ?thesis by (simp add: FormatUint.simps [of n] decimal_append digit_value_digit)
  qed
qed

text \<open>A number other than 0 is printed without a leading zero.\<close>

lemma hd_FormatUint: "0 < n \<Longrightarrow> hd (FormatUint n) \<noteq> CHR ''0''"
proof (induction n rule: FormatUint.induct)
  case (1 n)
  show ?case
  proof (cases "n < 10")
    case True
    with 1 show ?thesis using digit_inj [of n 0] digit_0 by (simp add: FormatUint.simps [of n])
  next
    case False
    with 1 have "hd (FormatUint (n div 10)) \<noteq> CHR ''0''" by simp
    with False show ?thesis using FormatUint_digits [of "n div 10"] by (simp add: FormatUint.simps [of n])
  qed
qed

lemma FormatUint_plain:
  assumes "\<not> digit_char c"
  shows "c \<notin> set (FormatUint n)"
  using FormatUint_digits [of n] assms by (auto simp: list_all_iff)

text \<open>\<open>number_text\<close> is the text of an end of a range.\<close>

definition number_text :: "u32 \<Rightarrow> string" where
  "number_text q = (if q = 0 then ''*'' else FormatUint (unat q))"

lemma parse_number_text: "parseSeqNumber (number_text q) = Inr q"
proof (cases "q = 0")
  case True
  then show ?thesis by (simp add: number_text_def parseSeqNumber_def ParseUint32_def digit_char_def)
next
  case False
  then have "0 < unat q" by (simp add: unat_gt_0)
  then have "FormatUint (unat q) ! 0 \<noteq> CHR ''0''"
    using hd_FormatUint FormatUint_digits by (metis hd_conv_nth)
  moreover have "ParseUint32 (FormatUint (unat q)) = Some (unat q)"
    using FormatUint_digits [of "unat q"] unat_u32 [of q] by (simp add: ParseUint32_def decimal_FormatUint)
  ultimately show ?thesis using False by (simp add: number_text_def parseSeqNumber_def)
qed

lemma number_text_plain: "CHR '':'' \<notin> set (number_text q)" "CHR '','' \<notin> set (number_text q)"
  by (auto simp: number_text_def digit_char_def dest: FormatUint_plain [THEN notE, rotated])

section \<open>Ranges\<close>

lemma first_split_None: "c \<notin> set s \<Longrightarrow> first_split c s = None"
  by (induction s) auto

lemma first_split_append: "c \<notin> set s \<Longrightarrow> first_split c (s @ c # t) = Some (s, t)"
  by (induction s) auto

definition seq_text :: "Seq \<Rightarrow> string" where
  "seq_text s = (if Start s = Stop s then number_text (Start s)
     else number_text (Start s) @ CHR '':'' # number_text (Stop s))"

lemma Seq_String_text: "seq_wf s \<Longrightarrow> Seq_String s = seq_text s"
  using star_wf [of s] by (auto simp: Seq_String_def seq_text_def number_text_def)

lemma seq_wf_order:
  assumes "seq_wf s" and "Start s \<noteq> Stop s"
  shows "\<not> (Stop s < Start s \<and> Stop s \<noteq> 0) \<and> Start s \<noteq> 0"
proof -
  have "Start s \<noteq> 0" using star_wf [OF assms(1)] assms(2) by auto
  moreover have "Start s \<le> Stop s" if "Stop s \<noteq> 0"
    using assms(1) seq_ord_le_iff [OF that, of "Start s"] by (simp add: seq_wf_def)
  ultimately show ?thesis by (auto simp: not_less)
qed

lemma parse_seq_text: "seq_wf s \<Longrightarrow> parseSeq (seq_text s) = Inr s"
  using seq_wf_order [of s] number_text_plain(1)
  by (cases s) (auto simp: parseSeq_def seq_text_def first_split_None first_split_append
      parse_number_text mk_seq_def)

lemma ordered_wf: "seq_wf (if (b < a \<and> b \<noteq> 0) \<or> a = 0 then mk_seq b a else mk_seq a b)"
  using seq_ord_le [of a] seq_ord_le [of b]
  by (cases "a = 0"; cases "b = 0"; cases "b < a")
    (auto simp: seq_wf_def mk_seq_def seq_ord_le_iff not_less dest: leD)

lemma parseSeq_wf: "parseSeq v = Inr s \<Longrightarrow> seq_wf s"
  using ordered_wf by (auto simp: parseSeq_def split: option.splits sum.splits)

section \<open>Sets\<close>

lemma split_on_nonempty: "split_on c s \<noteq> []"
  by (induction s) (auto split: list.splits)

lemma string_entries_text:
  "\<forall>s\<in>set xs. seq_wf s \<Longrightarrow> string_entries xs = concat (map (\<lambda>s. '','' @ seq_text s) xs)"
proof (induction xs)
  case (Cons s xs)
  have "string_entries (s # xs) = '','' @ seq_text s @ string_entries xs"
    using star_wf [of s] Cons.prems by (auto simp: seq_text_def number_text_def)
  with Cons show ?case by simp
qed simp

lemma concat_join: "xs \<noteq> [] \<Longrightarrow> concat (map (\<lambda>x. c # f x) xs) = c # join_with c (map f xs)"
proof (induction xs)
  case (Cons x xs)
  then show ?case by (cases xs) simp_all
qed simp

lemma SeqSet_String_text:
  assumes "\<forall>s\<in>set xs. seq_wf s" and "xs \<noteq> []"
  shows "SeqSet_String xs = join_with (CHR '','') (map seq_text xs)"
  using string_entries_text [OF assms(1)] concat_join [OF assms(2), of "CHR '',''" seq_text] assms(2)
  by (simp add: SeqSet_String_def)

lemma seq_text_plain: "CHR '','' \<notin> set (seq_text s)"
  using number_text_plain(2) by (auto simp: seq_text_def)

text \<open>A range above all the others is appended.\<close>

lemma insert_last:
  assumes wf: "set_wf (xs @ [v])"
  shows "SeqSet_insert v xs = xs @ [v]"
proof -
  have xs: "set_wf xs" and v: "seq_wf v" and ap: "\<forall>x\<in>set xs. apart x v"
    using wf by (simp_all add: set_wf_append set_wf_Cons)
  obtain pre post where split: "xs = pre @ post" "fst (search xs (Start v)) = length pre"
    "\<forall>s\<in>set post. seq_ord (Start v) \<le> seq_ord (Stop s)"
    using search_spec [OF xs, of "Start v"] by metis
  have "s \<notin> set post" for s
  proof
    assume s: "s \<in> set post"
    with split(1) ap have "apart s v" by simp
    with s split(3) show False by (auto simp: apart_def)
  qed
  then have "post = []" by (metis list.set_intros(1) neq_Nil_conv)
  then have i: "fst (search xs (Start v)) = length xs" using split by simp
  show ?thesis
  proof (cases "xs = []")
    case True
    with i show ?thesis by (simp add: SeqSet_insert_def insertAt_def Let_def)
  next
    case False
    have last: "xs ! (length xs - 1) = last xs" using False by (simp add: last_conv_nth)
    have "seq_wf (last xs)" "apart (last xs) v" using xs ap False by (auto simp: set_wf_def)
    then have "Seq_Merge (last xs) v = (last xs, False)"
      using Seq_Merge_spec [of "last xs" v] v
      by (cases "Seq_Merge (last xs) v") (auto simp: merge_spec_def split: if_splits)
    moreover have "xs[length xs - 1 := last xs] = xs" using False by (metis last list_update_id)
    ultimately show ?thesis using i False last by (simp add: SeqSet_insert_def insertAt_def Let_def)
  qed
qed

lemma add_values_texts:
  assumes "set_wf (xs @ ys)"
  shows "add_values (map seq_text ys) xs = (xs @ ys, None)"
  using assms
proof (induction ys arbitrary: xs)
  case (Cons y ys)
  have wf: "set_wf (xs @ [y])" "seq_wf y" using Cons.prems by (auto simp: set_wf_append set_wf_Cons)
  with Cons.IH [of "xs @ [y]"] Cons.prems show ?case
    by (simp add: parse_seq_text insert_last)
qed simp

text \<open>What \<open>Add\<close> leaves behind, whether it fails or not.\<close>

lemma add_values_wf: "set_wf xs \<Longrightarrow> set_wf (fst (add_values svs xs))"
proof (induction svs arbitrary: xs)
  case (Cons sv svs)
  show ?case
  proof (cases "parseSeq sv")
    case (Inr v)
    with Cons SeqSet_insert_ok [of xs v] parseSeq_wf [OF Inr] show ?thesis
      by (auto simp: insert_ok_def)
  qed (use Cons in simp)
qed simp

section \<open>Properties\<close>

lemma print_parse:
  assumes "set_wf xs" and "xs \<noteq> []"
  shows "ParseSeqSet (SeqSet_String xs) = (xs, None)"
proof -
  have "\<forall>s\<in>set xs. seq_wf s" using assms(1) by (simp add: set_wf_def)
  then have "split_on (CHR '','') (SeqSet_String xs) = map seq_text xs"
    using assms(2) seq_text_plain split_on_join [of "map seq_text xs" "CHR '',''"]
    by (simp add: SeqSet_String_text)
  then show ?thesis
    using add_values_texts [of "[]" xs] assms(1) by (simp add: ParseSeqSet_def SeqSet_Add_def)
qed

lemma parse_nonempty: "ParseSeqSet input = (xs, None) \<Longrightarrow> xs \<noteq> [] \<and> set_wf xs"
proof -
  assume parsed: "ParseSeqSet input = (xs, None)"
  have wf: "set_wf xs"
    using add_values_wf [of "[]" "split_on (CHR '','') input"] parsed
    by (simp add: ParseSeqSet_def SeqSet_Add_def)
  have grow: "set_den ys \<subseteq> set_den (fst (add_values svs ys))" if "set_wf ys" for svs ys
    using that
  proof (induction svs arbitrary: ys)
    case (Cons sv svs)
    show ?case
    proof (cases "parseSeq sv")
      case (Inr v)
      with Cons SeqSet_insert_ok [of ys v] parseSeq_wf [OF Inr] show ?thesis
        by (fastforce simp: insert_ok_def)
    qed simp
  qed simp
  obtain sv svs where split: "split_on (CHR '','') input = sv # svs"
    using split_on_nonempty [of "CHR '',''" input] by (cases "split_on (CHR '','') input") auto
  then obtain v where v: "parseSeq sv = Inr v" "add_values svs (SeqSet_insert v []) = (xs, None)"
    using parsed by (auto simp: ParseSeqSet_def SeqSet_Add_def split: sum.splits)
  have "set_wf (SeqSet_insert v [])" "set_den (SeqSet_insert v []) = seq_den v"
    using SeqSet_insert_ok [of "[]" v] parseSeq_wf [OF v(1)] by (simp_all add: insert_ok_def)
  then have "seq_den v \<subseteq> set_den xs" using grow [of "SeqSet_insert v []" svs] v(2) by simp
  moreover have "Start v \<in> seq_den v" using parseSeq_wf [OF v(1)] by (simp add: seq_den_def seq_wf_def)
  ultimately show ?thesis using wf by auto
qed



end
