(* ===== verification/ReceiverBook.thy ===== *)
theory ReceiverBook
  imports ReceiverExample
begin

text \<open>
  What a receiver keeps track of, without pointers: an abstract book of known messages and
  of messages handed out, the laws of its three operations, and the proof that the
  handlers of \<open>receiver/receiver.go\<close> implement it.
\<close>

section \<open>The abstract book\<close>

text \<open>
  The states of the known messages, and the UIDs handed out so far, in order.
\<close>

record book =
  bk_known :: "u32 \<rightharpoonup> state"
  bk_sent :: "u32 list"

datatype book_op = BFetch fetchResult "u32 list" | BAck ackRequest | BDelete deleteResult

fun book_step :: "book_op \<Rightarrow> book \<Rightarrow> book" where
  "book_step (BFetch r order) b =
     (let new = filter (\<lambda>u. bk_known b u = None) order in
      b\<lparr>bk_known := (\<lambda>u. if u \<in> set new then Some StateUnacked else bk_known b u),
        bk_sent := bk_sent b @ new\<rparr>)"
| "book_step (BAck r) b =
     (if ar_Error r = None \<and> bk_known b (ar_UID r) = Some StateUnacked
      then b\<lparr>bk_known := (bk_known b)(ar_UID r \<mapsto> StateAcked)\<rparr> else b)"
| "book_step (BDelete r) b =
     (if dr_State r = StateDeleted then b\<lparr>bk_known := (bk_known b)(dr_UID r := None)\<rparr>
      else if bk_known b (dr_UID r) = None then b
      else b\<lparr>bk_known := (bk_known b)(dr_UID r \<mapsto> dr_State r)\<rparr>)"

definition removals :: "u32 \<Rightarrow> book_op list \<Rightarrow> nat" where
  "removals uid ops = length (filter (\<lambda>opn. case opn of
     BDelete r \<Rightarrow> dr_UID r = uid \<and> dr_State r = StateDeleted | _ \<Rightarrow> False) ops)"

text \<open>A fetch result lists each of its messages once, under the UID of the message.\<close>

fun op_ok :: "book_op \<Rightarrow> bool" where
  "op_ok (BFetch r order) = (map_iteration (fr_Messages r) order
     \<and> list_all (\<lambda>u. Uid (the (fr_Messages r u)) = u) order)"
| "op_ok _ = True"

lemma distinct_count: "distinct xs \<Longrightarrow> count_list xs x = (if x \<in> set xs then 1 else 0)"
  by (induction xs) auto

lemma book_sent_count:
  assumes "\<forall>opn\<in>set ops. op_ok opn"
  shows "count_list (bk_sent (fold book_step ops b)) uid + (if bk_known b uid = None then 0 else 1)
    \<le> count_list (bk_sent b) uid + removals uid ops
      + (if bk_known (fold book_step ops b) uid = None then 0 else 1)"
  using assms
proof (induction ops arbitrary: b)
  case (Cons opn ops)
  have "count_list (bk_sent (book_step opn b)) uid + (if bk_known b uid = None then 0 else 1)
    \<le> count_list (bk_sent b) uid + removals uid [opn]
      + (if bk_known (book_step opn b) uid = None then 0 else 1)"
  proof (cases opn)
    case (BFetch r order)
    with Cons.prems have "distinct (filter (\<lambda>u. bk_known b u = None) order)"
      by (auto simp: map_iteration_def)
    then have "count_list (filter (\<lambda>u. bk_known b u = None) order) uid =
        (if uid \<in> set order \<and> bk_known b uid = None then 1 else 0)"
      by (simp add: distinct_count)
    with BFetch show ?thesis by (auto simp: Let_def removals_def)
  qed (auto simp: removals_def)
  moreover have "removals uid (opn # ops) = removals uid [opn] + removals uid ops"
    by (simp add: removals_def)
  ultimately show ?case using Cons.IH [of "book_step opn b"] Cons.prems by simp
qed (simp add: removals_def)

text \<open>
  What a keeper of messages promises: each of its operations acts as the book says.
\<close>

locale message_book =
  fixes inv :: "'s \<Rightarrow> bool"
    and view :: "'s \<Rightarrow> book"
    and act :: "book_op \<Rightarrow> 's \<Rightarrow> 's"
  assumes keeps: "inv s \<Longrightarrow> op_ok opn \<Longrightarrow> inv (act opn s)"
    and refines: "inv s \<Longrightarrow> op_ok opn \<Longrightarrow> view (act opn s) = book_step opn (view s)"
begin

lemma run_refines:
  "inv s \<Longrightarrow> \<forall>opn\<in>set ops. op_ok opn \<Longrightarrow>
    inv (fold act ops s) \<and> view (fold act ops s) = fold book_step ops (view s)"
  by (induction ops arbitrary: s) (auto simp: keeps refines)

lemma sent_at_most:
  assumes "inv s" and "\<forall>opn\<in>set ops. op_ok opn" and "view s = \<lparr>bk_known = Map.empty, bk_sent = []\<rparr>"
  shows "count_list (bk_sent (view (fold act ops s))) uid \<le> Suc (removals uid ops)"
  using run_refines [OF assms(1,2)] book_sent_count [OF assms(2), of "view s" uid] assms(3)
  by (simp split: if_splits)

end

section \<open>The receiver keeps the book\<close>

definition recv_book :: "mailReceiver \<Rightarrow> book" where
  "recv_book mr = \<lparr>bk_known = (\<lambda>u. map_option (\<lambda>p. ms_State (heap mr ! p)) (messages mr u)),
     bk_sent = map Uid (outSent mr)\<rparr>"

fun recv_act :: "book_op \<Rightarrow> mailReceiver \<Rightarrow> mailReceiver" where
  "recv_act (BFetch r order) mr = fst (handleFetch r order mr)"
| "recv_act (BAck r) mr = fst (handleAck r mr)"
| "recv_act (BDelete r) mr = fst (handleDelete r mr)"

definition filed :: "mailReceiver \<Rightarrow> bool" where
  "filed mr \<longleftrightarrow> (\<forall>uid p. messages mr uid = Some p \<longrightarrow>
     p < length (heap mr) \<and> ms_UID (heap mr ! p) = uid)"

lemma filed_set_state: "filed mr \<Longrightarrow> filed (set_state p st mr)"
  by (auto simp: filed_def heap_set_state)

lemma book_set_state:
  assumes "filed mr" and "messages mr uid = Some p"
  shows "recv_book (set_state p st mr) =
    (recv_book mr)\<lparr>bk_known := (bk_known (recv_book mr))(uid \<mapsto> st)\<rparr>"
proof -
  have other: "q < length (heap mr) \<and> q \<noteq> p" if "messages mr u = Some q" "u \<noteq> uid" for u q
    using assms that by (auto simp: filed_def)
  have "p < length (heap mr)" using assms by (simp add: filed_def)
  with assms other show ?thesis
    by (auto simp: recv_book_def fun_eq_iff heap_set_state map_option_case split: option.splits)
qed

lemma handleFetch_loop_book:
  assumes "filed mr" and "distinct uids" and "list_all (\<lambda>u. Uid (the (fetched u)) = u) uids"
    and "handleFetch_loop fetched uids mr num = (mr', num')"
  shows "filed mr' \<and> recv_book mr' =
    (let new = filter (\<lambda>u. messages mr u = None) uids in
     (recv_book mr)\<lparr>bk_known := (\<lambda>u. if u \<in> set new then Some StateUnacked else bk_known (recv_book mr) u),
       bk_sent := bk_sent (recv_book mr) @ new\<rparr>)
    \<and> num' = num + word_of_nat (length (filter (\<lambda>u. messages mr u = None) uids))"
  using assms
proof (induction fetched uids mr num rule: handleFetch_loop.induct)
  case (1 fetched mr num)
  then show ?case by (simp add: recv_book_def)
next
  case (2 fetched uid uids mr num)
  show ?case
  proof (cases "messages mr uid = None")
    case False
    with 2 show ?thesis by (auto simp: Let_def)
  next
    case True
    define msg where "msg = the (fetched uid)"
    define mstate where "mstate = \<lparr>ms_UID = uid, ms_SeqNum = SeqNum msg, ms_Message = msg,
        ms_State = StateUnacked\<rparr>"
    define mr1 where "mr1 = mr\<lparr>messages := (messages mr)(uid \<mapsto> length (heap mr)),
        heap := heap mr @ [mstate], outSent := outSent mr @ [ms_Message mstate]\<rparr>"
    have "filed mr1"
      using "2.prems"(1) by (auto simp: filed_def mr1_def mstate_def nth_append less_Suc_eq)
    moreover have "handleFetch_loop fetched uids mr1 (num + 1) = (mr', num')"
      using "2.prems"(4) True by (simp add: Let_def mr1_def mstate_def msg_def)
    moreover have new: "filter (\<lambda>u. messages mr1 u = None) uids = filter (\<lambda>u. messages mr u = None) uids"
      using "2.prems"(2) by (auto simp: mr1_def intro!: filter_cong)
    moreover have "recv_book mr1 = (recv_book mr)\<lparr>bk_known := (bk_known (recv_book mr))(uid \<mapsto> StateUnacked),
        bk_sent := bk_sent (recv_book mr) @ [uid]\<rparr>"
      using "2.prems"(1,3) by (auto simp: recv_book_def mr1_def mstate_def msg_def fun_eq_iff
          filed_def nth_append map_option_case split: option.splits)
    ultimately show ?thesis
      using "2.IH"(1) [OF True msg_def mstate_def] "2.prems" True
      by (simp add: mr1_def [symmetric] Let_def fun_eq_iff)
  qed
qed

lemma book_known: "bk_known (recv_book mr) u = None \<longleftrightarrow> messages mr u = None"
  by (simp add: recv_book_def)

lemma recv_act_fetch:
  assumes "filed mr" and "op_ok (BFetch r order)"
  shows "filed (recv_act (BFetch r order) mr)
    \<and> recv_book (recv_act (BFetch r order) mr) = book_step (BFetch r order) (recv_book mr)"
proof -
  have o: "distinct order" "list_all (\<lambda>u. Uid (the (fr_Messages r u)) = u) order"
    using assms(2) by (auto simp: map_iteration_def)
  obtain mr' n where "handleFetch_loop (fr_Messages r) order mr 0 = (mr', n)" by fastforce
  with handleFetch_loop_book [OF assms(1) o this] show ?thesis
    by (simp add: handleFetch_def book_known Let_def)
qed

lemma recv_act_ack:
  assumes "filed mr"
  shows "filed (recv_act (BAck r) mr) \<and> recv_book (recv_act (BAck r) mr) = book_step (BAck r) (recv_book mr)"
proof (cases "messages mr (ar_UID r)")
  case None
  with assms show ?thesis by (simp add: handleAck_def recv_book_def)
next
  case (Some p)
  then have "bk_known (recv_book mr) (ar_UID r) = Some (ms_State (heap mr ! p))"
    by (simp add: recv_book_def)
  with book_set_state [OF assms Some] filed_set_state [OF assms] assms Some show ?thesis
    by (simp add: handleAck_def)
qed

lemma recv_act_delete:
  assumes "filed mr"
  shows "filed (recv_act (BDelete r) mr)
    \<and> recv_book (recv_act (BDelete r) mr) = book_step (BDelete r) (recv_book mr)"
proof (cases "dr_State r = StateDeleted")
  case True
  with assms show ?thesis by (auto simp: handleDelete_def recv_book_def fun_eq_iff filed_def)
next
  case False
  show ?thesis
  proof (cases "messages mr (dr_UID r)")
    case None
    with False assms show ?thesis by (simp add: handleDelete_def recv_book_def)
  next
    case (Some p)
    then have "bk_known (recv_book mr) (dr_UID r) = Some (ms_State (heap mr ! p))"
      by (simp add: recv_book_def)
    with book_set_state [OF assms Some] filed_set_state [OF assms] False Some show ?thesis
      by (simp add: handleDelete_def)
  qed
qed

lemma recv_act_book:
  assumes "filed mr" and "op_ok opn"
  shows "filed (recv_act opn mr) \<and> recv_book (recv_act opn mr) = book_step opn (recv_book mr)"
  using assms recv_act_fetch recv_act_ack recv_act_delete by (cases opn) metis+

interpretation receiver_book: message_book filed recv_book recv_act
  by unfold_locales (simp_all add: recv_act_book del: recv_act.simps book_step.simps op_ok.simps)

section \<open>Properties\<close>

text \<open>
  C15: the three handlers of a receiver implement the abstract book: a fetch adds the
  messages that are not known, as unacknowledged, and hands out exactly those; an
  acknowledgement without error turns an unacknowledged message into an acknowledged one
  and does nothing else; a deletion result removes a deleted message and otherwise only
  sets the state of a known one. Pointers and aliasing play no role.
\<close>

theorem handlers_implement_book:
  assumes "filed mr" and "\<forall>opn\<in>set ops. op_ok opn"
  shows "filed (fold recv_act ops mr)
    \<and> recv_book (fold recv_act ops mr) = fold book_step ops (recv_book mr)"
  using assms by (rule receiver_book.run_refines)

theorem handlers_implement_book_witness:
  "recv_book (fold recv_act [BFetch ex_result [7], BAck ex_ack] (ex_known None)) =
    \<lparr>bk_known = [7 \<mapsto> StateAcked], bk_sent = [7]\<rparr>"
proof -
  have f: "filed (ex_known None)" by (simp add: filed_def ex_known_def)
  have ops: "\<forall>opn\<in>set [BFetch ex_result [7], BAck ex_ack]. op_ok opn"
    by (simp add: map_iteration_def ex_result_def ex_msg_def)
  have "recv_book (ex_known None) = \<lparr>bk_known = Map.empty, bk_sent = []\<rparr>"
    by (simp add: recv_book_def ex_known_def)
  with handlers_implement_book [OF f ops] show ?thesis
    by (auto simp: ex_ack_def Let_def fun_eq_iff)
qed

text \<open>
  C16: a receiver hands out a message with a given UID at most once more than it was told
  that a message with that UID is deleted, whatever is fetched, acknowledged and deleted
  in whatever order: no message is handed out twice while it is on the server.
\<close>

theorem handed_out_once_per_deletion:
  assumes "NewReceiver None cfg = Inr mr" and "\<forall>opn\<in>set ops. op_ok opn"
  shows "count_list (map Uid (outSent (fold recv_act ops mr))) uid \<le> Suc (removals uid ops)"
proof -
  have "filed mr" and "recv_book mr = \<lparr>bk_known = Map.empty, bk_sent = []\<rparr>"
    using assms(1) by (auto simp: NewReceiver_def filed_def recv_book_def)
  from receiver_book.sent_at_most [OF this(1) assms(2) this(2)] show ?thesis
    by (simp add: recv_book_def)
qed

theorem handed_out_once_per_deletion_witness:
  "count_list (map Uid (outSent (fold recv_act
     [BFetch ex_result [7], BFetch ex_result [7], BAck ex_ack] (ex_known None)))) 7 \<le> 1"
proof -
  have "\<forall>opn\<in>set [BFetch ex_result [7], BFetch ex_result [7], BAck ex_ack]. op_ok opn"
    by (simp add: map_iteration_def ex_result_def ex_msg_def)
  from handed_out_once_per_deletion [OF ex_start this, of 7] show ?thesis
    by (simp add: removals_def)
qed

text \<open>
  The parameters of a new receiver are never zero: each is the configured value, or
  the default (15 messages, one minute, 20 messages, five minutes) when that is zero; a
  failed connection is returned as the error.
\<close>

theorem new_receiver_defaults:
  "(case NewReceiver dialled cfg of
      Inl err \<Rightarrow> dialled = Some err
    | Inr mr \<Rightarrow> dialled = None
        \<and> batchSize mr = (if rc_BatchSize cfg = 0 then 15 else rc_BatchSize cfg) \<and> batchSize mr \<noteq> 0
        \<and> fetchBufferSize mr = (if rc_FetchBufferSize cfg = 0 then 20 else rc_FetchBufferSize cfg)
        \<and> fetchBufferSize mr \<noteq> 0
        \<and> idleFallbackInterval mr =
            (if rc_IDLEFallbackInterval cfg = 0 then minute else rc_IDLEFallbackInterval cfg)
        \<and> idleFallbackInterval mr \<noteq> 0
        \<and> fetchMaxInterval mr =
            (if rc_FetchMaxInterval cfg = 0 then 5 * minute else rc_FetchMaxInterval cfg)
        \<and> fetchMaxInterval mr \<noteq> 0
        \<and> messages mr = Map.empty \<and> outSent mr = [])"
  by (auto simp: NewReceiver_def or_default_def split: option.splits)

end
