(* ===== verification/PersistentSafety.thy ===== *)
theory PersistentSafety
  imports PersistentSystem
begin

text \<open>
  What the persistent client promises its callers: runs of the system for the witnesses,
  what happens to the calls in flight when the client is shut down, and the properties.
\<close>

section \<open>Runs\<close>

text \<open>
  Two runs of the system that the witnesses and the findings use: one caller has passed
  the check of the shutdown flag when another logs the client out, and the goroutine gets
  as far as draining; and a call is served over a connection.
\<close>

definition draining_state :: "pc_request \<Rightarrow> persistent" where
  "draining_state q = \<lparr>ps_run = run_start, ps_place = Draining, ps_shutdown = True,
     ps_closed = False,
     ps_calls = (\<lambda>_. NotCalling)(0 := Checked q, 1 := Answered LogoutRequest (ErrAnswer None) False),
     ps_stopped = {}\<rparr>"

lemma reach_draining:
  assumes q: "q \<noteq> LogoutRequest"
  shows "persistently single mailbox maxDelay (draining_state q)"
proof -
  let ?s0 = "\<lparr>ps_run = run_start, ps_place = AtSelect, ps_shutdown = False,
     ps_closed = False, ps_calls = \<lambda>_. NotCalling, ps_stopped = {}\<rparr>"
  let ?s1 = "?s0\<lparr>ps_shutdown := False, ps_calls := (ps_calls ?s0)(0 := Checked q)\<rparr>"
  let ?s2 = "?s1\<lparr>ps_shutdown := True, ps_calls := (ps_calls ?s1)(1 := Checked LogoutRequest)\<rparr>"
  let ?s3 = "?s2\<lparr>ps_calls := (ps_calls ?s2)(1 := Offering LogoutRequest)\<rparr>"
  let ?s4 = "?s3\<lparr>ps_place := AtDone 1, ps_run := run_start,
    ps_calls := replies [] (disc_take (DiscLogout 1) (ps_calls ?s3))\<rparr>"
  let ?s5 = "?s4\<lparr>ps_place := Draining, ps_run := run_start, ps_shutdown := True,
    ps_calls := replies [(1, ErrAnswer None)] (ps_calls ?s4)\<rparr>"
  let ?run = "persistent_run single mailbox maxDelay"
  have "persistently single mailbox maxDelay ?s0"
    by (rule reach_init) (simp add: persistent_init_def persistent_NewClient_def)
  moreover have "?run ?s0 ?s1"
    by (rule persistent_step.call_sends [where q = q]) (use q in \<open>cases q; simp add: pc_methods\<close>)+
  moreover have "?run ?s1 ?s2"
    by (rule persistent_step.call_sends [where q = LogoutRequest]) (simp_all add: pc_methods)
  moreover have "?run ?s2 ?s3" by (rule persistent_step.offer) simp_all
  moreover have "?run ?s3 ?s4"
    by (rule persistent_step.disconnected) (simp_all add: run_start_def end_fake_idle_def)
  moreover have "?run ?s4 ?s5"
    by (rule persistent_step.at_done) (simp_all add: run_done_def run_start_def)
  ultimately have "persistently single mailbox maxDelay ?s5" by (meson reach_step)
  moreover have "?s5 = draining_state q" by (simp add: draining_state_def fun_eq_iff)
  ultimately show ?thesis by simp
qed

lemma reach_drained:
  assumes q: "q \<noteq> LogoutRequest"
  obtains s where "persistently single mailbox maxDelay s" and "ps_place s = Draining"
    and "ps_calls s 0 = (case drain_reply mailbox q of
      Some a \<Rightarrow> Answered q a False | None \<Rightarrow> Awaiting q)"
proof
  let ?s0 = "draining_state q"
  let ?s1 = "?s0\<lparr>ps_calls := (ps_calls ?s0)(0 := Offering q)\<rparr>"
  let ?s2 = "?s1\<lparr>ps_calls := (ps_calls ?s1)(0 := (case drain_reply mailbox q of
      Some a \<Rightarrow> reply False a (Awaiting q) | None \<Rightarrow> Awaiting q))\<rparr>"
  have "persistently single mailbox maxDelay ?s0" using q by (rule reach_draining)
  moreover have "persistent_run single mailbox maxDelay ?s0 ?s1"
    by (rule persistent_step.offer) (simp_all add: draining_state_def)
  moreover have "persistent_run single mailbox maxDelay ?s1 ?s2"
    by (rule persistent_step.drain) (simp_all add: draining_state_def)
  ultimately show "persistently single mailbox maxDelay ?s2" by (meson reach_step)
  show "ps_place ?s2 = Draining" by (simp add: draining_state_def)
  show "ps_calls ?s2 0 = (case drain_reply mailbox q of
      Some a \<Rightarrow> Answered q a False | None \<Rightarrow> Awaiting q)"
    by (simp split: option.split)
qed

text \<open>
  A fetch that is turned away while draining returns, but nobody closes its channel, which
  the receiver reads to its end before it looks at the error.
\<close>

lemma drained_fetch_leaves_channel_open:
  "\<exists>s. persistently single mailbox maxDelay s \<and> ps_calls s 0 =
    Answered (FetchRequest seqset items True) (ErrAnswer (Some PClientConnectionClosed)) False"
  using reach_drained [of "FetchRequest seqset items True" single mailbox maxDelay] by auto

text \<open>Two callers in IDLE at once make the goroutine panic when there is no connection.\<close>

lemma two_idles_panic:
  "\<exists>s. persistently False mailbox maxDelay s \<and> ps_place s = Panicked ''already in idle''"
proof -
  let ?q = "IdleRequest None None"
  let ?s0 = "\<lparr>ps_run = run_start, ps_place = AtSelect, ps_shutdown = False,
     ps_closed = False, ps_calls = \<lambda>_. NotCalling, ps_stopped = {}\<rparr>"
  let ?s1 = "?s0\<lparr>ps_shutdown := False, ps_calls := (ps_calls ?s0)(0 := Checked ?q)\<rparr>"
  let ?s2 = "?s1\<lparr>ps_shutdown := False, ps_calls := (ps_calls ?s1)(1 := Checked ?q)\<rparr>"
  let ?s3 = "?s2\<lparr>ps_calls := (ps_calls ?s2)(0 := Offering ?q)\<rparr>"
  let ?s4 = "?s3\<lparr>ps_calls := (ps_calls ?s3)(1 := Offering ?q)\<rparr>"
  let ?r = "run_start\<lparr>rn_idle := Some (0, None, None), rn_stopIdle := None\<rparr>"
  let ?s5 = "?s4\<lparr>ps_place := Connecting, ps_run := ?r,
    ps_calls := replies [] (disc_take (DiscIdle 0 None None) (ps_calls ?s4))\<rparr>"
  let ?s6 = "?s5\<lparr>ps_place := AtSelect,
    ps_run := try_connect (settled_MaxDelay maxDelay) (Some (ExtError 1)) 0 (ps_run ?s5)\<rparr>"
  let ?s7 = "?s6\<lparr>ps_place := Panicked ''already in idle''\<rparr>"
  let ?run = "persistent_run False mailbox maxDelay"
  have "persistently False mailbox maxDelay ?s0"
    by (rule reach_init) (simp add: persistent_init_def persistent_NewClient_def)
  moreover have "?run ?s0 ?s1" by (rule persistent_step.call_sends [where q = ?q]) (simp_all add: pc_methods)
  moreover have "?run ?s1 ?s2" by (rule persistent_step.call_sends [where q = ?q]) (simp_all add: pc_methods)
  moreover have "?run ?s2 ?s3" by (rule persistent_step.offer) simp_all
  moreover have "?run ?s3 ?s4" by (rule persistent_step.offer) simp_all
  moreover have "?run ?s4 ?s5" by (rule persistent_step.disconnected) (simp_all add: run_start_def)
  moreover have "?run ?s5 ?s6" by (rule persistent_step.connect) simp_all
  moreover have "?run ?s6 ?s7"
    by (rule persistent_step.panic [where ev = "DiscIdle 1 None None"])
      (simp_all add: run_start_def try_connect_def)
  ultimately have "persistently False mailbox maxDelay ?s7" by (meson reach_step)
  moreover have "ps_place ?s7 = Panicked ''already in idle''" by simp
  ultimately show ?thesis by blast
qed
section \<open>After the shutdown\<close>

text \<open>The calls still in flight, and how many steps they can take before they are drained.\<close>

definition in_flight :: "persistent \<Rightarrow> caller set" where
  "in_flight s = {i. \<exists>q. ps_calls s i = Checked q \<or> ps_calls s i = Offering q}"

lemma reply_in_flight [simp]:
  "reply closes a c = Checked q \<longleftrightarrow> c = Checked q"
  "reply closes a c = Offering q \<longleftrightarrow> c = Offering q"
  by (cases c; simp)+

lemma finite_in_flight: "persistently single mailbox maxDelay s \<Longrightarrow> finite (in_flight s)"
proof (induction rule: reachable.induct)
  case (reach_init s)
  then show ?case by (auto simp: persistent_init_def persistent_NewClient_def in_flight_def)
next
  case (reach_step s t)
  have "\<exists>A. finite A \<and> in_flight t \<subseteq> in_flight s \<union> A"
    using reach_step.hyps(2)
  proof cases
    case (disconnected ev p r as)
    then show ?thesis
      by (cases ev) (auto simp: in_flight_def dest!: end_fake_idle_cases split: if_splits)
  next
    case (connected ev p r)
    then show ?thesis by (cases ev) (auto simp: in_flight_def split: if_splits)
  next
    case (call_sends i q sh q')
    then show ?thesis by (intro exI [of _ "{i}"]) (auto simp: in_flight_def)
  qed (auto simp: in_flight_def step_defs split: if_splits option.splits)
  with reach_step.IH show ?case by (meson finite_UnI finite_subset)
qed

text \<open>
  Once the flag is set no call sends a request: a call returns at once, and the calls in
  flight become fewer.
\<close>

lemma shut_down_step:
  assumes "persistent_step single mailbox M s t" and "ps_shutdown s"
  shows "ps_shutdown t" and "in_flight t \<subseteq> in_flight s"
proof -
  have "ps_shutdown t \<and> in_flight t \<subseteq> in_flight s"
    using assms(1)
  proof cases
    case (call_sends i q sh q')
    with assms(2) pc_call_sends [OF call_sends(4)] show ?thesis by simp
  next
    case (call_returns i q sh a closes)
    with assms(2) pc_call_returns [OF call_returns(3)] show ?thesis
      by (auto simp: in_flight_def split: if_splits)
  next
    case (disconnected ev p r as)
    with assms(2) show ?thesis
      by (cases ev) (auto simp: in_flight_def dest!: end_fake_idle_cases split: if_splits)
  next
    case (connected ev p r)
    with assms(2) show ?thesis by (cases ev) (auto simp: in_flight_def split: if_splits)
  qed (use assms(2) in \<open>auto simp: in_flight_def step_defs split: if_splits option.splits\<close>)
  then show "ps_shutdown t" and "in_flight t \<subseteq> in_flight s" by simp_all
qed
lemma shut_down_steps:
  assumes "(persistent_step single mailbox M)\<^sup>*\<^sup>* s t" and "ps_shutdown s"
  shows "ps_shutdown t \<and> in_flight t \<subseteq> in_flight s"
  using assms
proof (induction rule: rtranclp_induct)
  case (step t u)
  with shut_down_step [OF step.hyps(2)] show ?case by blast
qed simp

text \<open>Draining takes the calls at the channels one by one.\<close>

lemma drain_one:
  assumes "ps_place s = Draining" and "ps_calls s i = Offering q"
  obtains t where "persistent_step single mailbox M s t" and "ps_place t = Draining"
    and "in_flight t = in_flight s - {i}"
proof
  let ?t = "s\<lparr>ps_calls := (ps_calls s)(i := (case drain_reply mailbox q of
      Some a \<Rightarrow> reply False a (Awaiting q) | None \<Rightarrow> Awaiting q))\<rparr>"
  show "persistent_step single mailbox M s ?t"
    using assms by (rule persistent_step.drain)
  show "ps_place ?t = Draining" using assms by simp
  show "in_flight ?t = in_flight s - {i}"
    by (auto simp: in_flight_def split: option.splits)
qed

lemma drain_all:
  assumes "finite (in_flight s)" and "ps_place s = Draining"
  shows "\<exists>n t. n \<le> card (in_flight s) + 1 \<and> ((persistent_step single mailbox M) ^^ n) s t
    \<and> ps_place t = Exited"
  using assms
proof (induction "card (in_flight s)" arbitrary: s rule: less_induct)
  case less
  show ?case
  proof (cases "\<exists>i q. ps_calls s i = Offering q")
    case True
    then obtain i q where i: "ps_calls s i = Offering q" by blast
    obtain t where t: "persistent_step single mailbox M s t" "ps_place t = Draining"
      "in_flight t = in_flight s - {i}"
      using drain_one [OF less.prems(2) i] by blast
    have "i \<in> in_flight s" using i by (auto simp: in_flight_def)
    then have card: "card (in_flight s) = Suc (card (in_flight t))"
      using card.remove [OF less.prems(1)] t(3) by simp
    have "finite (in_flight t)" and "card (in_flight t) < card (in_flight s)"
      using less.prems(1) t(3) card by simp_all
    then obtain n u where n: "n \<le> card (in_flight t) + 1"
      "((persistent_step single mailbox M) ^^ n) t u" "ps_place u = Exited"
      using less.hyps t(2) by blast
    have "((persistent_step single mailbox M) ^^ Suc n) s u"
      using t(1) n(2) by (rule relpowp_Suc_I2)
    with n(1,3) card show ?thesis by (intro exI [of _ "Suc n"] exI [of _ u]) simp
  next
    case False
    have "persistent_step single mailbox M s (s\<lparr>ps_place := Exited, ps_closed := True\<rparr>)"
      by (rule persistent_step.drained) (use less.prems False in auto)
    then have "((persistent_step single mailbox M) ^^ 1) s (s\<lparr>ps_place := Exited, ps_closed := True\<rparr>)"
      by (simp only: relpowp_1)
    moreover have "1 \<le> card (in_flight s) + 1" by simp
    moreover have "ps_place (s\<lparr>ps_place := Exited, ps_closed := True\<rparr>) = Exited" by simp
    ultimately show ?thesis by blast
  qed
qed

section \<open>Properties\<close>

text \<open>
  The goroutine never panics as long as its callers keep to one IDLE at a time; it holds a
  connection exactly when its state says so, serves calls only over a connection, and its
  delay stays between zero and the settled maximum.
\<close>

theorem persistent_client_state:
  assumes "persistently single mailbox maxDelay s" and "maxDelay \<le> 2 ^ 61"
  shows "(single \<longrightarrow> ps_place s \<noteq> Panicked m)
    \<and> (ps_place s = AtSelect \<longrightarrow> rn_client (ps_run s) = (rn_state (ps_run s) = ClientStateConnected))
    \<and> (ps_place s = Connecting \<longrightarrow> \<not> rn_client (ps_run s))
    \<and> (ps_place s = Serving i q \<longrightarrow> rn_client (ps_run s))
    \<and> (ps_place s = Exited \<longrightarrow> \<not> rn_client (ps_run s))
    \<and> 0 \<le> rn_nextDelay (ps_run s) \<and> rn_nextDelay (ps_run s) \<le> settled_MaxDelay maxDelay"
  using persistently_inv(1) [OF assms] by (auto simp: runner_ok_def)

theorem persistent_client_state_witness:
  "0 \<le> rn_nextDelay (ps_run (draining_state MailboxRequest))
    \<and> rn_nextDelay (ps_run (draining_state MailboxRequest)) \<le> 64000000000"
  using persistent_client_state [where maxDelay = 0, OF reach_draining [of MailboxRequest]]
  by (simp add: settled_MaxDelay_def)

text \<open>
  C26: every method returns an answer of its own kind, the caller's channel is closed when
  it returns, with one exception: a call that was turned away by the draining goroutine
  returns \<open>errConnectionClosed\<close> and leaves the channel open.
\<close>

theorem persistent_answers:
  assumes "persistently single mailbox maxDelay s" and "maxDelay \<le> 2 ^ 61"
    and "ps_calls s i = Answered q a closed"
  shows "answers q a \<and> (closed = result_channel q
    \<or> (ps_place s \<in> {Draining, Exited} \<and> a = ErrAnswer (Some PClientConnectionClosed)))"
proof -
  have "answered_at (ps_place s) (ps_calls s i)"
    using persistently_inv(4) [OF assms(1,2)] by (simp add: answered_ok_def)
  with assms(3) show ?thesis by simp
qed

theorem persistent_answers_witness:
  "answers LogoutRequest (ErrAnswer None)"
  using persistent_answers [where maxDelay = 0 and i = 1, OF reach_draining [of MailboxRequest]]
  by (simp add: draining_state_def)

text \<open>
  C23: no caller waits in vain while the goroutine lives: one that waits for its answer is
  being served, is the one whose logout ends the loop, or waits in an IDLE the goroutine
  knows of. Once the goroutine drains only a \<open>Select\<close> can be left waiting.
\<close>

theorem persistent_attends:
  assumes "persistently single mailbox maxDelay s" and "maxDelay \<le> 2 ^ 61"
    and "ps_calls s i = Awaiting q"
  shows "attended (ps_place s) (ps_run s) i = Some q
    \<or> (ps_place s \<in> {Draining, Exited} \<and> (\<exists>name readOnly. q = SelectRequest name readOnly))"
proof -
  have "waiting_at s i" using persistently_inv(3) [OF assms(1,2)] by (simp add: waiting_ok_def)
  moreover have "drain_reply [] q = None \<Longrightarrow> \<exists>name readOnly. q = SelectRequest name readOnly"
    by (cases q) auto
  ultimately show ?thesis using assms(3) by (auto simp: waiting_at_def ending_def)
qed

theorem persistent_attends_witness:
  "\<exists>s. persistently True ''INBOX'' 0 s \<and> ps_calls s 0 = Awaiting (SelectRequest ''INBOX'' True)
     \<and> ps_place s \<in> {Draining, Exited}"
proof -
  obtain s where s: "persistently True ''INBOX'' 0 s" "ps_place s = Draining"
    "ps_calls s 0 = Awaiting (SelectRequest ''INBOX'' True)"
    using reach_drained [of "SelectRequest ''INBOX'' True" True "''INBOX''" 0] by auto
  with persistent_attends [OF s(1) _ s(3)] show ?thesis by auto
qed



text \<open>
  Shutting down is not safe for every caller. A call that passed the check of the
  shutdown flag and reaches its channel after the goroutine has closed it panics, whatever
  the call.
\<close>

theorem late_calls_panic:
  assumes "q \<noteq> LogoutRequest"
  shows "\<exists>s. persistently single mailbox maxDelay s \<and> ps_calls s 0 = SendPanicked"
proof -
  let ?s0 = "draining_state q"
  let ?s1 = "?s0\<lparr>ps_place := Exited, ps_closed := True\<rparr>"
  let ?s2 = "?s1\<lparr>ps_calls := (ps_calls ?s1)(0 := SendPanicked)\<rparr>"
  have "persistently single mailbox maxDelay ?s0" using assms by (rule reach_draining)
  moreover have "persistent_run single mailbox maxDelay ?s0 ?s1"
    by (rule persistent_step.drained) (simp_all add: draining_state_def)
  moreover have "persistent_run single mailbox maxDelay ?s1 ?s2"
    by (rule persistent_step.send_on_closed [where q = q]) (simp_all add: draining_state_def)
  ultimately have "persistently single mailbox maxDelay ?s2" by (meson reach_step)
  moreover have "ps_calls ?s2 0 = SendPanicked" by simp
  ultimately show ?thesis by blast
qed

theorem late_calls_panic_witness:
  "\<exists>s. persistently True ''INBOX'' 0 s \<and> ps_calls s 0 = SendPanicked"
  using late_calls_panic [of MailboxRequest] by simp

end
