(* ===== verification/ReceiverClient.thy ===== *)
theory ReceiverClient
  imports ReceiverQuit PersistentSafety
begin

text \<open>
  A receiver on the persistent client: the goroutines of \<open>receiver/receiver.go\<close> make their
  calls in \<open>receiver/imap.go\<close> through the goroutine of \<open>imap/persistentclient\<close>, one call
  after the other, and the loop's request to quit makes the client log out beside them.
  Every run of the two together is a run of each. So the client is only ever asked for one
  IDLE at a time, which is what keeps it from panicking; but a call that the client turns
  away while it drains leaves the goroutine of the receiver reading a channel that nobody
  closes, and then the receiver never ends.
\<close>

section \<open>The calls of a goroutine\<close>

text \<open>
  The calls a goroutine of the receiver has made and what they returned, and the call it
  makes next: IDLE; the status of the mailbox and, where there is something to fetch, the
  fetch; the store, where there is something to delete, and the expunge.
\<close>

type_synonym call_log = "(pc_request \<times> answer) list"

definition idle_options :: "run_state \<Rightarrow> IdleOptions" where
  "idle_options l = \<lparr>io_LogoutTimeout = 250 * second, io_PollInterval = idleFallbackInterval (rcv l)\<rparr>"

inductive next_call :: "run_state \<Rightarrow> goroutine \<Rightarrow> call_log \<Rightarrow> pc_request \<Rightarrow> bool" for l :: run_state where
  idle_call: "next_call l (IdleRunning stop) [] (IdleRequest (Some stop) (Some (idle_options l)))"
| mailbox_call: "next_call l (FetchRunning existing) [] MailboxRequest"
| fetch_call: "mb_Messages st \<noteq> 0 \<Longrightarrow>
    seqset = buildSeqSet existing st (fetchBufferSize (rcv l)) \<Longrightarrow> \<not> SeqSet_Empty seqset \<Longrightarrow>
    next_call l (FetchRunning existing) [(MailboxRequest, StatusAnswer (Some st))]
      (FetchRequest seqset [FetchUid, FetchFlags, FetchRFC822] True)"
| store_call: "map_iteration m order \<Longrightarrow>
    collect_deletions (deref (rcv l) m) order [] [] [] = (toDelete, deleteSet, sent) \<Longrightarrow>
    toDelete \<noteq> [] \<Longrightarrow>
    next_call l (DeleteRunning m) []
      (UidStoreRequest deleteSet (FormatFlagsOp AddFlags False) [DeletedFlag] True)"
| only_expunge: "map_iteration m order \<Longrightarrow>
    collect_deletions (deref (rcv l) m) order [] [] [] = ([], deleteSet, sent) \<Longrightarrow>
    next_call l (DeleteRunning m) [] (ExpungeRequest False)"
| expunge_call: "next_call l (DeleteRunning m) [(UidStoreRequest deleteSet item fs True, a)]
    (ExpungeRequest False)"

text \<open>
  The answers of a server that fit what the calls returned. A call that was turned away
  with \<open>errConnectionClosed\<close>, which no other part of the program can produce, brought no
  messages.
\<close>

fun plays :: "server_answers \<Rightarrow> pc_request \<times> answer \<Rightarrow> bool" where
  "plays sv (MailboxRequest, StatusAnswer st) = (sv_Mailbox sv = st)"
| "plays sv (FetchRequest seqset items ch, ErrAnswer err) =
     (snd (cl_Fetch sv seqset items) = err
       \<and> (err = Some PClientConnectionClosed \<longrightarrow> fst (cl_Fetch sv seqset items) = []))"
| "plays sv (UidStoreRequest seqset item fs ch, ErrAnswer err) =
     (snd (cl_UidStore sv seqset item fs) = err
       \<and> (err = Some PClientConnectionClosed \<longrightarrow> fst (cl_UidStore sv seqset item fs) = []))"
| "plays sv (ExpungeRequest ch, ErrAnswer err) = (sv_Expunge sv = err)"
| "plays sv _ = True"

fun changes_made :: "call_log \<Rightarrow> imap_call list" where
  "changes_made [] = []"
| "changes_made ((UidStoreRequest seqset item fs ch, a) # log) = CUidStore seqset item fs # changes_made log"
| "changes_made ((ExpungeRequest ch, a) # log) = CExpunge # changes_made log"
| "changes_made (x # log) = changes_made log"

text \<open>What a goroutine goes on to when it has no call left to make.\<close>

inductive calls_over :: "run_state \<Rightarrow> call_log \<Rightarrow> goroutine \<Rightarrow> goroutine \<Rightarrow> u32 set \<Rightarrow> bool"
  for l :: run_state and log :: call_log where
  idle_over: "log \<noteq> [] \<Longrightarrow> calls_over l log (IdleRunning stop) (Finishing OperationIDLEFinish) {}"
| fetch_none: "\<forall>q. \<not> next_call l (FetchRunning existing) log q \<Longrightarrow> \<forall>x\<in>set log. plays sv x \<Longrightarrow>
    doFetch sv existing (fetchBufferSize (rcv l)) order = (b, []) \<Longrightarrow>
    calls_over l log (FetchRunning existing) (Finishing OperationFetchFinish) {}"
| fetch_some: "\<forall>q. \<not> next_call l (FetchRunning existing) log q \<Longrightarrow> \<forall>x\<in>set log. plays sv x \<Longrightarrow>
    doFetch sv existing (fetchBufferSize (rcv l)) order = (b, [r]) \<Longrightarrow>
    calls_over l log (FetchRunning existing) (FetchSending r) {}"
| delete_over: "map_iteration m order \<Longrightarrow> \<forall>x\<in>set log. plays sv x \<Longrightarrow>
    doDelete sv (deref (rcv l) m) order = (rs, changes_made log) \<Longrightarrow>
    calls_over l log (DeleteRunning m) (DeleteSending rs) (store_uids (changes_made log))"

lemma calls_over_step: "calls_over l log g g' st \<Longrightarrow> go_step l g g' st"
  by (induction rule: calls_over.induct) (auto intro: go_step.intros)

fun on_server :: "goroutine \<Rightarrow> bool" where
  "on_server (IdleRunning stop) = True"
| "on_server (FetchRunning existing) = True"
| "on_server (DeleteRunning m) = True"
| "on_server _ = False"

lemma next_call_on_server: "next_call l g log q \<Longrightarrow> on_server g"
  by (induction rule: next_call.induct) simp_all

section \<open>The system\<close>

text \<open>
  The goroutine of the receiver is the client's caller 0; it is between two calls, or inside
  one. The \<open>Close\<close> of a receiver that has quit is caller 1, and the other callers are the
  goroutines that \<open>FlagQuit\<close> started, of which \<open>cs_logouts\<close> have not called \<open>Logout\<close> yet.
\<close>

abbreviation close_caller :: caller where
  "close_caller \<equiv> Suc 0"

record client_sys =
  cs_recv :: recv_sys
  cs_client :: persistent
  cs_log :: call_log
  cs_calling :: bool
  cs_logouts :: nat

definition client_init :: "string \<Rightarrow> duration \<Rightarrow> client_sys \<Rightarrow> bool" where
  "client_init mailbox maxDelay s \<longleftrightarrow> (\<exists>cfg mr. NewReceiver None cfg = Inr mr
     \<and> cc_Mailbox (rc_Connection cfg) = mailbox
     \<and> s = \<lparr>cs_recv = recv_start mr,
          cs_client = snd (persistent_Factory_NewClient maxDelay (rc_Connection cfg)),
          cs_log = [], cs_calling = False, cs_logouts = 0\<rparr>)"

text \<open>A caller enters a method of the client.\<close>

definition enter_call :: "string \<Rightarrow> caller \<Rightarrow> pc_request \<Rightarrow> persistent \<Rightarrow> persistent" where
  "enter_call mailbox i q c =
     (let (sh, start) = pc_call mailbox (ps_shutdown c) q
      in c\<lparr>ps_shutdown := sh, ps_calls := (ps_calls c)(i :=
           (case start of Sends q' \<Rightarrow> Checked q' | Returns a closes \<Rightarrow> Answered q a closes))\<rparr>)"

text \<open>
  What the client does without being called: a caller that is not in a call stays so, and of
  the stop channels only those are closed that the receiver closed.
\<close>

definition client_moves :: "string \<Rightarrow> duration \<Rightarrow> nat set \<Rightarrow> persistent \<Rightarrow> persistent \<Rightarrow> bool" where
  "client_moves mailbox maxDelay closed c c' \<longleftrightarrow>
     persistent_step False mailbox (settled_MaxDelay maxDelay) c c'
     \<and> (\<forall>i. may_call (ps_calls c i) \<longrightarrow> ps_calls c' i = ps_calls c i)
     \<and> ps_stopped c' \<subseteq> ps_stopped c \<union> closed"

text \<open>
  What happens between two turns of the loop: the goroutine of the receiver goes on, enters
  a call, comes back from it, or is through with its calls; a logout is made; or the client
  moves.
\<close>

inductive client_act :: "string \<Rightarrow> duration \<Rightarrow> client_sys \<Rightarrow> client_sys \<Rightarrow> bool"
  for mailbox :: string and maxDelay :: duration where
  act_work: "work (cs_recv s) = [g] \<Longrightarrow> \<not> on_server g \<Longrightarrow> recv_work (cs_recv s) r \<Longrightarrow>
    client_act mailbox maxDelay s (s\<lparr>cs_recv := r\<rparr>)"
| act_enters: "work (cs_recv s) = [g] \<Longrightarrow> \<not> cs_calling s \<Longrightarrow>
    next_call (loop (cs_recv s)) g (cs_log s) q \<Longrightarrow> may_call (ps_calls (cs_client s) 0) \<Longrightarrow>
    client_act mailbox maxDelay s
      (s\<lparr>cs_client := enter_call mailbox 0 q (cs_client s), cs_calling := True\<rparr>)"
| act_returns: "cs_calling s \<Longrightarrow> ps_calls (cs_client s) 0 = Answered q a closed \<Longrightarrow>
    (result_channel q \<longrightarrow> closed) \<Longrightarrow>
    client_act mailbox maxDelay s (s\<lparr>cs_log := cs_log s @ [(q, a)], cs_calling := False\<rparr>)"
| act_over: "work (cs_recv s) = [g] \<Longrightarrow> \<not> cs_calling s \<Longrightarrow>
    calls_over (loop (cs_recv s)) (cs_log s) g g' st \<Longrightarrow>
    client_act mailbox maxDelay s
      (s\<lparr>cs_recv := (cs_recv s)\<lparr>work := [g'], stored := stored (cs_recv s) \<union> st\<rparr>, cs_log := []\<rparr>)"
| act_logout: "i \<notin> {0, close_caller} \<Longrightarrow> cs_logouts s > 0 \<Longrightarrow> may_call (ps_calls (cs_client s) i) \<Longrightarrow>
    client_act mailbox maxDelay s
      (s\<lparr>cs_client := enter_call mailbox i LogoutRequest (cs_client s), cs_logouts := cs_logouts s - 1\<rparr>)"
| act_client: "client_moves mailbox maxDelay (closed_sigs (sigs (loop (cs_recv s)))) (cs_client s) c \<Longrightarrow>
    client_act mailbox maxDelay s (s\<lparr>cs_client := c\<rparr>)"

text \<open>A turn of the loop; when it takes the request to quit, \<open>FlagQuit\<close> is called.\<close>

definition client_turn :: "loop_event \<Rightarrow> recv_sys \<Rightarrow> client_sys \<Rightarrow> client_sys" where
  "client_turn ev r s = s\<lparr>cs_recv := r,
     cs_logouts := (if ev = EvQuit \<and> pc_FlagQuit (ps_shutdown (cs_client s)) \<noteq> None
       then Suc (cs_logouts s) else cs_logouts s)\<rparr>"

text \<open>The \<open>Close\<close> of a receiver that has quit logs the client out, once.\<close>

definition client_close :: "string \<Rightarrow> client_sys \<Rightarrow> client_sys" where
  "client_close mailbox s = s\<lparr>cs_client := enter_call mailbox close_caller LogoutRequest (cs_client s)\<rparr>"

inductive client_step :: "string \<Rightarrow> duration \<Rightarrow> client_sys \<Rightarrow> client_sys \<Rightarrow> bool"
  for mailbox :: string and maxDelay :: duration where
  cs_turn: "recv_turn ev (cs_recv s) r \<Longrightarrow> client_step mailbox maxDelay s (client_turn ev r s)"
| cs_act: "client_act mailbox maxDelay s t \<Longrightarrow> client_step mailbox maxDelay s t"
| cs_close: "status (cs_recv s) = loop_status.Exited \<Longrightarrow>
    ps_calls (cs_client s) close_caller = NotCalling \<Longrightarrow>
    client_step mailbox maxDelay s (client_close mailbox s)"

inductive_cases client_stepE: "client_step mailbox maxDelay s t"

lemmas client_acts = client_act.intros [THEN cs_act]

lemma client_turn_simps [simp]:
  "cs_recv (client_turn ev r s) = r" "cs_client (client_turn ev r s) = cs_client s"
  "cs_log (client_turn ev r s) = cs_log s" "cs_calling (client_turn ev r s) = cs_calling s"
  by (simp_all add: client_turn_def)

lemma client_close_simps [simp]:
  "cs_recv (client_close mailbox s) = cs_recv s"
  "cs_client (client_close mailbox s) = enter_call mailbox close_caller LogoutRequest (cs_client s)"
  "cs_log (client_close mailbox s) = cs_log s" "cs_calling (client_close mailbox s) = cs_calling s"
  by (simp_all add: client_close_def)

section \<open>Each part runs as before\<close>

lemma enter_call_step:
  assumes "may_call (ps_calls c i)"
    and "single \<and> idle_request q \<longrightarrow> (\<forall>j. \<not> in_call idle_request (ps_calls c j))"
  shows "persistent_step single mailbox M c (enter_call mailbox i q c)"
proof -
  obtain sh start where call: "pc_call mailbox (ps_shutdown c) q = (sh, start)" by fastforce
  show ?thesis
  proof (cases start)
    case (Sends q')
    with call have "pc_call mailbox (ps_shutdown c) q = (sh, Sends q')" by simp
    from call_sends [OF assms this] show ?thesis using call Sends by (simp add: enter_call_def)
  next
    case (Returns a closes)
    with call have "pc_call mailbox (ps_shutdown c) q = (sh, Returns a closes)" by simp
    from call_returns [OF assms(1) this] show ?thesis using call Returns by (simp add: enter_call_def)
  qed
qed

lemma enter_call_in_call:
  "in_call P (ps_calls (enter_call mailbox i q c) j) \<Longrightarrow>
    j = i \<and> P q \<or> j \<noteq> i \<and> in_call P (ps_calls c j)"
  by (auto simp: enter_call_def split: prod.splits call_start.splits if_splits dest: pc_call_sends)

lemma enter_call_other: "j \<noteq> i \<Longrightarrow> ps_calls (enter_call mailbox i q c) j = ps_calls c j"
  by (simp add: enter_call_def split: prod.splits)

text \<open>The moves of the client never put a caller into a call.\<close>

lemma client_moves_step:
  assumes "client_moves mailbox maxDelay closed c c'"
  shows "persistent_step single mailbox (settled_MaxDelay maxDelay) c c'"
proof -
  have "persistent_step False mailbox (settled_MaxDelay maxDelay) c c'"
    and frame: "\<forall>i. may_call (ps_calls c i) \<longrightarrow> ps_calls c' i = ps_calls c i"
    using assms by (simp_all add: client_moves_def)
  then show ?thesis
  proof cases
    case (call_sends i q sh q')
    with frame [rule_format, of i] have "ps_calls c i = Checked q'" by simp
    with call_sends(2) show ?thesis by simp
  next
    case (served i q a)
    with persistent_step.served [OF served(2,3)] show ?thesis by simp
  qed (auto intro: persistent_step.intros)
qed

lemma client_moves_in_call:
  assumes "client_moves mailbox maxDelay closed c c'" and "in_call P (ps_calls c' i)"
  shows "in_call P (ps_calls c i)"
proof -
  have "persistent_step False mailbox (settled_MaxDelay maxDelay) c c'"
    and frame: "\<forall>i. may_call (ps_calls c i) \<longrightarrow> ps_calls c' i = ps_calls c i"
    using assms(1) by (simp_all add: client_moves_def)
  then show ?thesis
  proof cases
    case (call_sends j q sh q')
    with frame [rule_format, of j] have "ps_calls c j = Checked q'" by simp
    with call_sends(2) show ?thesis by simp
  next
    case (disconnected ev p r as)
    with assms(2) show ?thesis
      by (cases ev) (auto dest!: end_fake_idle_cases split: if_splits)
  next
    case (connected ev p r)
    with assms(2) show ?thesis by (cases ev) (auto split: if_splits)
  qed (use assms(2) in \<open>auto simp: step_defs split: if_splits option.splits\<close>)
qed

lemma client_moves_may_call:
  "client_moves mailbox maxDelay closed c c' \<Longrightarrow> may_call (ps_calls c i) \<Longrightarrow> may_call (ps_calls c' i)"
  by (simp add: client_moves_def)

text \<open>
  Both parts run as they do alone, the callers beside the receiver's goroutine never ask for
  an IDLE, and that goroutine may call whenever it is not in a call.
\<close>

definition joined_inv :: "string \<Rightarrow> duration \<Rightarrow> client_sys \<Rightarrow> bool" where
  "joined_inv mailbox maxDelay s \<longleftrightarrow> reachable recv_init recv_step (cs_recv s)
     \<and> persistently True mailbox maxDelay (cs_client s)
     \<and> (\<forall>i. i \<noteq> 0 \<longrightarrow> \<not> in_call idle_request (ps_calls (cs_client s) i))
     \<and> (\<not> cs_calling s \<longrightarrow> may_call (ps_calls (cs_client s) 0))"

lemma may_call_not_in_call: "may_call c \<Longrightarrow> \<not> in_call P c"
  by (cases c) auto

lemma joined_inv_init:
  assumes "client_init mailbox maxDelay s"
  shows "joined_inv mailbox maxDelay s"
proof -
  obtain cfg mr where s: "NewReceiver None cfg = Inr mr"
    "s = \<lparr>cs_recv = recv_start mr,
      cs_client = snd (persistent_Factory_NewClient maxDelay (rc_Connection cfg)),
      cs_log = [], cs_calling = False, cs_logouts = 0\<rparr>"
    using assms by (auto simp: client_init_def)
  then have "reachable recv_init recv_step (cs_recv s)"
    by (intro reach_init) (auto simp: recv_init_def)
  moreover have "persistently True mailbox maxDelay (cs_client s)"
    using s(2) by (intro reach_init) (auto simp: persistent_init_def persistent_Factory_NewClient_def)
  ultimately show ?thesis
    using s(2) by (simp add: joined_inv_def persistent_Factory_NewClient_def persistent_NewClient_def)
qed

lemma joined_inv_logout:
  assumes inv: "joined_inv mailbox maxDelay s" and "i \<noteq> 0" and "may_call (ps_calls (cs_client s) i)"
  shows "joined_inv mailbox maxDelay
    (s\<lparr>cs_client := enter_call mailbox i LogoutRequest (cs_client s)\<rparr>)"
proof -
  have client: "persistently True mailbox maxDelay (cs_client s)" using inv by (simp add: joined_inv_def)
  have "persistent_run True mailbox maxDelay (cs_client s) (enter_call mailbox i LogoutRequest (cs_client s))"
    using assms by (intro enter_call_step) simp_all
  with reach_step [OF client] inv assms(2) show ?thesis
    by (auto simp: joined_inv_def enter_call_other dest!: enter_call_in_call)
qed

lemma joined_inv_act:
  assumes inv: "joined_inv mailbox maxDelay s" and act: "client_act mailbox maxDelay s t"
  shows "joined_inv mailbox maxDelay t"
proof -
  have recv: "reachable recv_init recv_step (cs_recv s)"
    and client: "persistently True mailbox maxDelay (cs_client s)"
    and others: "\<And>i. i \<noteq> 0 \<Longrightarrow> \<not> in_call idle_request (ps_calls (cs_client s) i)"
    and zero: "\<not> cs_calling s \<Longrightarrow> may_call (ps_calls (cs_client s) 0)"
    using inv by (simp_all add: joined_inv_def)
  show ?thesis
    using act
  proof cases
    case (act_work g r)
    with inv reach_step [OF recv recv_work_step [OF act_work(4)]] show ?thesis
      by (simp add: joined_inv_def)
  next
    case (act_enters g q)
    have "\<forall>j. \<not> in_call idle_request (ps_calls (cs_client s) j)"
      using others may_call_not_in_call [OF act_enters(5)] by metis
    then have "persistent_run True mailbox maxDelay (cs_client s) (enter_call mailbox 0 q (cs_client s))"
      using act_enters(5) by (intro enter_call_step) simp_all
    from reach_step [OF client this] inv act_enters show ?thesis
      by (auto simp: joined_inv_def dest!: enter_call_in_call)
  next
    case (act_returns q a closed)
    with inv show ?thesis by (simp add: joined_inv_def)
  next
    case (act_over g g' st)
    have "recv_work (cs_recv s) ((cs_recv s)\<lparr>work := [] @ g' # [], stored := stored (cs_recv s) \<union> st\<rparr>)"
      using act_over calls_over_step by (intro goes_on [where g = g]) auto
    from reach_step [OF recv recv_work_step [OF this]] inv act_over show ?thesis
      by (simp add: joined_inv_def)
  next
    case (act_logout i)
    with joined_inv_logout [OF inv, of i] show ?thesis by (simp add: joined_inv_def)
  next
    case (act_client c)
    with reach_step [OF client client_moves_step [OF act_client(2)]] inv show ?thesis
      by (auto simp: joined_inv_def dest: client_moves_in_call client_moves_may_call)
  qed
qed

lemma joined_inv_step:
  assumes inv: "joined_inv mailbox maxDelay s" and step: "client_step mailbox maxDelay s t"
  shows "joined_inv mailbox maxDelay t"
  using step
proof cases
  case (cs_turn ev r)
  have recv: "reachable recv_init recv_step (cs_recv s)" using inv by (simp add: joined_inv_def)
  from reach_step [OF recv recv_turn_step [OF cs_turn(2)]] inv cs_turn(1) show ?thesis
    by (simp add: joined_inv_def)
next
  case cs_act
  with joined_inv_act [OF inv] show ?thesis by simp
next
  case cs_close
  with joined_inv_logout [OF inv, of close_caller] show ?thesis
    by (simp add: client_close_def)
qed

interpretation joined: invariant_system "client_init mailbox maxDelay" "client_step mailbox maxDelay"
  "joined_inv mailbox maxDelay" for mailbox maxDelay
  by unfold_locales (auto intro: joined_inv_init joined_inv_step)

abbreviation on_client :: "string \<Rightarrow> duration \<Rightarrow> client_sys \<Rightarrow> bool" where
  "on_client mailbox maxDelay \<equiv> reachable (client_init mailbox maxDelay) (client_step mailbox maxDelay)"

section \<open>A receiver that waits for a call\<close>

text \<open>
  While a goroutine is on the server the loop stays in its state: nothing but the goroutine's
  own finish operation ends it.
\<close>

definition waits :: "recv_sys \<Rightarrow> bool" where
  "waits r \<longleftrightarrow> (\<exists>g. work r = [g] \<and> on_server g) \<and> rs_state (loop r) \<noteq> StateNone
     \<and> set (cbuf (opChan (loop r))) \<subseteq> {OperationNone}"

lemma run_flag_place:
  "run_flag f s = Completes t \<Longrightarrow> rs_state t = rs_state s \<and> opChan t = opChan s"
  "run_flag_if b f s = Completes t \<Longrightarrow> rs_state t = rs_state s \<and> opChan t = opChan s"
  by (auto simp: run_flag_def run_flag_if_def obind_eq_Completes)

lemma schedule_place: "schedule msg s = Completes t \<Longrightarrow> rs_state t = rs_state s \<and> opChan t = opChan s"
  by (auto simp: schedule_def split: option.splits dest: run_flag_place)

lemma select_place:
  assumes "select_event ev s = Completes (opn, u)" and "set (cbuf (opChan s)) \<subseteq> {OperationNone}"
  shows "rs_state u = rs_state s" and "set (cbuf (opChan u)) \<subseteq> {OperationNone}"
    and "opn \<in> {OperationNone, OperationTimeout}"
proof -
  have "rs_state u = rs_state s \<and> set (cbuf (opChan u)) \<subseteq> {OperationNone}
    \<and> opn \<in> {OperationNone, OperationTimeout}"
    using assms
    by (cases ev) (auto simp: obind_eq_Completes chan_recv_def
        split: if_splits prod.splits list.splits dest!: run_flag_place schedule_place)
  then show "rs_state u = rs_state s" and "set (cbuf (opChan u)) \<subseteq> {OperationNone}"
    and "opn \<in> {OperationNone, OperationTimeout}" by simp_all
qed

lemma switch_stays:
  assumes "opn \<in> {OperationNone, OperationTimeout}"
  shows "switch_idle opn s = Completes n \<Longrightarrow>
      \<exists>l. n = Continue l None \<and> rs_state l = rs_state s \<and> opChan l = opChan s"
    and "switch_fetch opn s = Completes n \<Longrightarrow>
      \<exists>l. n = Continue l None \<and> rs_state l = rs_state s \<and> opChan l = opChan s"
    and "switch_delete opn s = Completes n \<Longrightarrow>
      \<exists>l. n = Continue l None \<and> rs_state l = rs_state s \<and> opChan l = opChan s"
  using assms
  by (auto simp: switch_idle_def switch_fetch_def switch_delete_def obind_eq_Completes
      dest!: run_flag_place)

lemma busy_stays:
  assumes "tick order ev s = Completes n" and "rs_state s \<noteq> StateNone"
    and "set (cbuf (opChan s)) \<subseteq> {OperationNone}"
  shows "\<exists>l. n = Continue l None \<and> rs_state l = rs_state s \<and> set (cbuf (opChan l)) \<subseteq> {OperationNone}"
proof -
  obtain opn u where sel: "select_event ev s = Completes (opn, u)"
    using assms(1) by (auto simp: tick_def obind_eq_Completes)
  note p = select_place [OF sel assms(3)]
  show ?thesis
    using assms(1,2) sel p switch_stays [OF p(3)]
    by (cases "rs_state s") (fastforce simp: tick_def)+
qed

lemma waits_turn:
  assumes "recv_turn ev r r'" and "waits r"
  shows "status r' \<noteq> loop_status.Exited \<and> waits r' \<and> work r' = work r"
proof -
  obtain ws order where st: "status r = Running" and takes: "loop_takes r ev ws"
    and r': "r' = after_turn ev ws (tick order ev (loop r)) r"
    using assms(1) by cases blast
  obtain g where g: "work r = [g]" "on_server g"
    using assms(2) by (auto simp: waits_def)
  have ws: "ws = [g]"
    using takes g by cases (auto simp: Cons_eq_append_conv append_eq_Cons_conv)
  show ?thesis
  proof (cases "tick order ev (loop r)")
    case (Completes n)
    with busy_stays [OF Completes] assms(2) r' ws g show ?thesis
      by (auto simp: waits_def turned_def spawned_work_def st)
  qed (use assms(2) r' ws g in \<open>auto simp: waits_def turned_def st\<close>)
qed

text \<open>The goroutine that is in a call belongs to a receiver that waits for it.\<close>

definition calling_inv :: "string \<Rightarrow> duration \<Rightarrow> client_sys \<Rightarrow> bool" where
  "calling_inv mailbox maxDelay s \<longleftrightarrow> joined_inv mailbox maxDelay s
     \<and> (cs_calling s \<longrightarrow> 4 * ticks (cs_recv s) < 2 ^ 64 \<longrightarrow>
          status (cs_recv s) = Running \<and> waits (cs_recv s))"

lemma on_server_waits:
  assumes "reachable recv_init recv_step r" and "4 * ticks r < 2 ^ 64"
    and "work r = [g]" and "on_server g"
  shows "status r = Running \<and> waits r"
proof -
  have "recv_ok r" using reachable_ok [OF assms(1,2)] .
  with assms(3) have "status r = Running" and ok: "running_ok r"
    by (auto simp: recv_ok_def exited_ok_def)
  moreover from ok assms(3) have "rs_state (loop r) \<noteq> StateNone"
    by (auto simp: running_ok_def phase_ok_def)
  ultimately show ?thesis using assms(3,4) ok
    by (auto simp: waits_def running_ok_def phase_ok_def)
qed

lemma calling_inv_init: "client_init mailbox maxDelay s \<Longrightarrow> calling_inv mailbox maxDelay s"
  using joined_inv_init by (auto simp: calling_inv_def client_init_def)

lemma calling_inv_step:
  assumes inv: "calling_inv mailbox maxDelay s" and step: "client_step mailbox maxDelay s t"
  shows "calling_inv mailbox maxDelay t"
proof -
  have joined: "joined_inv mailbox maxDelay s" "joined_inv mailbox maxDelay t"
    using inv joined_inv_step [OF _ step] by (simp_all add: calling_inv_def)
  then have recv: "reachable recv_init recv_step (cs_recv s)" "reachable recv_init recv_step (cs_recv t)"
    by (simp_all add: joined_inv_def)
  have "status (cs_recv t) = Running \<and> waits (cs_recv t)"
    if calling: "cs_calling t" and bound: "4 * ticks (cs_recv t) < 2 ^ 64"
    using step
  proof cases
    case (cs_turn ev r)
    with turn_ticks have "ticks r = Suc (ticks (cs_recv s))" by blast
    with cs_turn bound calling inv have "waits (cs_recv s)" by (simp add: calling_inv_def)
    from waits_turn [OF cs_turn(2) this] reachable_ok [OF recv(2) bound] cs_turn show ?thesis
      by (auto simp: recv_ok_def)
  next
    case cs_act
    then show ?thesis
    proof cases
      case (act_work g r)
      with inv calling bound show ?thesis
        by (auto simp: calling_inv_def waits_def elim!: recv_workE)
    next
      case (act_enters g q)
      with on_server_waits [OF recv(1) _ act_enters(2) next_call_on_server [OF act_enters(4)]] bound
      show ?thesis by simp
    qed (use inv calling bound in \<open>auto simp: calling_inv_def\<close>)
  next
    case cs_close
    with inv calling bound show ?thesis by (simp add: calling_inv_def)
  qed
  with joined(2) show ?thesis by (simp add: calling_inv_def)
qed

interpretation calling: invariant_system "client_init mailbox maxDelay" "client_step mailbox maxDelay"
  "calling_inv mailbox maxDelay" for mailbox maxDelay
  by unfold_locales (auto intro: calling_inv_init calling_inv_step)

end
