(* ===== verification/ClientQuit.thy ===== *)
theory ClientQuit
  imports ReceiverClient
begin

text \<open>
  Whether a receiver on the persistent client can still end once it was asked to quit. It
  can, unless its goroutine is in a call that the client has turned away, or is about to
  turn away, without closing the channel the goroutine reads, or is about to send to a
  client that is gone. The first half follows the client to the end of the calls that are
  under way, the second half shows that such a call is never over.
\<close>

section \<open>The client on its own\<close>

text \<open>
  Moves of the client that leave the callers as they are, or answer them with their channels
  closed.
\<close>

definition settled :: "call_state \<Rightarrow> call_state \<Rightarrow> bool" where
  "settled x y \<longleftrightarrow> y = x \<or> (\<exists>q a. x = Awaiting q \<and> y = Answered q a (result_channel q))"

definition kept :: "persistent \<Rightarrow> persistent \<Rightarrow> bool" where
  "kept c c' \<longleftrightarrow> ps_stopped c' = ps_stopped c \<and> (\<forall>i. settled (ps_calls c i) (ps_calls c' i))"

lemma settled_reply [simp]: "settled x (reply True a x)"
  by (cases x) (auto simp: settled_def)

lemma settled_refl [simp]: "settled x x"
  by (simp add: settled_def)

lemma settled_trans: "settled x y \<Longrightarrow> settled y z \<Longrightarrow> settled x z"
  by (auto simp: settled_def)

lemma kept_refl [simp]: "kept c c"
  by (simp add: kept_def)

lemma kept_trans: "kept c d \<Longrightarrow> kept d e \<Longrightarrow> kept c e"
  by (auto simp: kept_def intro: settled_trans)

lemma settled_may_call: "settled x y \<Longrightarrow> may_call x \<Longrightarrow> y = x"
  by (auto simp: settled_def)

lemma kept_call: "kept c d \<Longrightarrow> \<forall>q. ps_calls c i \<noteq> Awaiting q \<Longrightarrow> ps_calls d i = ps_calls c i"
  by (auto simp: kept_def settled_def)

abbreviation drifts :: "string \<Rightarrow> duration \<Rightarrow> persistent \<Rightarrow> persistent \<Rightarrow> bool" where
  "drifts mailbox maxDelay \<equiv> (client_moves mailbox maxDelay {})\<^sup>*\<^sup>*"

lemma kept_moves:
  assumes "persistent_step False mailbox (settled_MaxDelay maxDelay) c c'" and "kept c c'"
  shows "client_moves mailbox maxDelay {} c c'"
  using assms settled_may_call by (auto simp: client_moves_def kept_def)

lemma drifts_persistently:
  assumes "drifts mailbox maxDelay c c'" and "persistently True mailbox maxDelay c"
  shows "persistently True mailbox maxDelay c'"
  using assms by (induction rule: rtranclp_induct) (auto intro: reach_step client_moves_step)

text \<open>The select with a connection and without a pretended IDLE, where any call is taken.\<close>

definition ready :: "persistent \<Rightarrow> bool" where
  "ready c \<longleftrightarrow> ps_place c = AtSelect \<and> rn_state (ps_run c) = ClientStateConnected
     \<and> rn_idle (ps_run c) = None"

definition leaving :: "run_place \<Rightarrow> bool" where
  "leaving p \<longleftrightarrow> p = Draining \<or> (\<exists>i. p = AtDone i)"

definition at_work :: "run_place \<Rightarrow> bool" where
  "at_work p \<longleftrightarrow> p \<in> {AtSelect, Connecting, InIdleUpgrade} \<or> (\<exists>i q. p = Serving i q)"

lemma place_cases:
  assumes "persistently True mailbox maxDelay c" and "maxDelay \<le> 2 ^ 61"
  shows "at_work (ps_place c) \<or> leaving (ps_place c) \<or> ps_place c = run_place.Exited"
  using persistently_inv(1) [OF assms]
  by (cases "ps_place c") (auto simp: runner_ok_def at_work_def leaving_def)

lemma ready_from_idle:
  assumes "ps_place c = InIdleUpgrade" and "rn_state (ps_run c) = ClientStateConnected"
  shows "\<exists>d. drifts mailbox maxDelay c d \<and> ready d \<and> kept c d"
proof -
  obtain r as where l: "leave_idle None (ps_run c) = (r, as)" by fastforce
  let ?d = "c\<lparr>ps_place := AtSelect, ps_run := r, ps_calls := replies as (ps_calls c)\<rparr>"
  have "persistent_step False mailbox (settled_MaxDelay maxDelay) c ?d"
    by (rule idle_ends [OF assms(1) l])
  moreover have "kept c ?d" and "ready ?d"
    using l assms(2) by (auto simp: kept_def ready_def step_defs split: option.splits)
  ultimately show ?thesis using kept_moves by blast
qed

lemma ready_from_select:
  assumes "ps_place c = AtSelect" and "rn_state (ps_run c) = ClientStateConnected"
  shows "\<exists>d. drifts mailbox maxDelay c d \<and> ready d \<and> kept c d"
proof (cases "rn_idle (ps_run c) = None")
  case True
  with assms show ?thesis by (intro exI [of _ c]) (simp add: ready_def)
next
  case False
  let ?d = "c\<lparr>ps_place := InIdleUpgrade, ps_run := enter_idle (ps_run c)\<rparr>"
  have "persistent_step False mailbox (settled_MaxDelay maxDelay) c ?d"
    by (rule upgrade [OF assms False])
  moreover have d: "kept c ?d" by (simp add: kept_def)
  moreover obtain e where "drifts mailbox maxDelay ?d e" "ready e" "kept ?d e"
    using ready_from_idle [of ?d] assms(2) by (auto simp: enter_idle_def)
  ultimately show ?thesis using kept_moves kept_trans
    by (meson converse_rtranclp_into_rtranclp)
qed

lemma ready_from_connecting:
  assumes "ps_place c = Connecting"
  shows "\<exists>d. drifts mailbox maxDelay c d \<and> ready d \<and> kept c d"
proof -
  let ?d = "c\<lparr>ps_place := AtSelect, ps_run := try_connect (settled_MaxDelay maxDelay) None 0 (ps_run c)\<rparr>"
  have "persistent_step False mailbox (settled_MaxDelay maxDelay) c ?d"
    by (rule connect [OF assms]) simp
  moreover have d: "kept c ?d" by (simp add: kept_def)
  moreover obtain e where "drifts mailbox maxDelay ?d e" "ready e" "kept ?d e"
    using ready_from_select [of ?d] by (auto simp: try_connect_def)
  ultimately show ?thesis using kept_moves kept_trans
    by (meson converse_rtranclp_into_rtranclp)
qed

lemma answers_exist: "\<exists>a. answers q a"
proof (cases "answers q (ErrAnswer None) \<or> answers q (StatusAnswer None)")
  case False
  then have "answers q (SelectResponse None None)" by (cases q) auto
  then show ?thesis ..
qed auto

text \<open>A client that was not logged out gets to a connection and to the end of what it does.\<close>

lemma gets_ready:
  assumes ok: "persistently True mailbox maxDelay c" "maxDelay \<le> 2 ^ 61" and "at_work (ps_place c)"
  shows "\<exists>d. drifts mailbox maxDelay c d \<and> ready d \<and> kept c d"
proof -
  note run = persistently_inv(1) [OF ok, unfolded runner_ok_def]
  consider (select) "ps_place c = AtSelect" | (connecting) "ps_place c = Connecting"
    | (idle) "ps_place c = InIdleUpgrade" | (serving) i q where "ps_place c = Serving i q"
    using assms(3) by (auto simp: at_work_def)
  then show ?thesis
  proof cases
    case select
    show ?thesis
    proof (cases "rn_state (ps_run c)")
      case ClientStateConnected
      with select ready_from_select show ?thesis by blast
    next
      case ClientStateDisconnected
      let ?d = "c\<lparr>ps_place := Connecting, ps_run := ps_run c,
        ps_calls := replies [] (disc_take DelayOver (ps_calls c))\<rparr>"
      have "persistent_step False mailbox (settled_MaxDelay maxDelay) c ?d"
        by (rule disconnected [OF select ClientStateDisconnected, where ev = DelayOver]) simp_all
      moreover have "kept c ?d" by (simp add: kept_def)
      moreover obtain e where "drifts mailbox maxDelay ?d e" "ready e" "kept ?d e"
        using ready_from_connecting [of ?d] by auto
      ultimately show ?thesis using kept_moves kept_trans
        by (meson converse_rtranclp_into_rtranclp)
    qed
  next
    case connecting
    then show ?thesis by (rule ready_from_connecting)
  next
    case idle
    with run ready_from_idle show ?thesis by simp
  next
    case serving
    obtain a where a: "answers q a" using answers_exist by blast
    let ?d = "c\<lparr>ps_place := AtSelect, ps_calls := replies [(i, a)] (ps_calls c)\<rparr>"
    have "persistent_step False mailbox (settled_MaxDelay maxDelay) c ?d"
      by (rule served [OF serving a])
    moreover have "kept c ?d" by (simp add: kept_def)
    moreover have "ready ?d" using run serving by (simp add: ready_def)
    ultimately show ?thesis using kept_moves by blast
  qed
qed

text \<open>A call that waits at the channel of a ready client is served.\<close>

lemma ready_serves:
  assumes "ready c" and "ps_calls c i = Offering q" and "q \<noteq> LogoutRequest" and "answers q a"
  shows "drifts mailbox maxDelay c (c\<lparr>ps_calls := (ps_calls c)(i := Answered q a (result_channel q))\<rparr>)"
proof -
  let ?d = "c\<lparr>ps_place := Serving i q, ps_run := ps_run c,
    ps_calls := conn_take (ConnRequest i q) (ps_calls c)\<rparr>"
  let ?e = "?d\<lparr>ps_place := AtSelect, ps_calls := replies [(i, a)] (ps_calls ?d)\<rparr>"
  have c: "ps_place c = AtSelect" using assms(1) by (simp add: ready_def)
  have "persistent_step False mailbox (settled_MaxDelay maxDelay) c ?d"
    by (rule connected [where ev = "ConnRequest i q"]) (use assms in \<open>auto simp: ready_def\<close>)
  then have "client_moves mailbox maxDelay {} c ?d"
    using assms(2) by (auto simp: client_moves_def)
  moreover have "persistent_step False mailbox (settled_MaxDelay maxDelay) ?d ?e"
    by (rule served [OF _ assms(4)]) simp
  then have "client_moves mailbox maxDelay {} ?d ?e" by (rule kept_moves) (simp add: kept_def settled_def)
  moreover have "?e = c\<lparr>ps_calls := (ps_calls c)(i := Answered q a (result_channel q))\<rparr>"
    using c by simp
  ultimately show ?thesis by (metis converse_rtranclp_into_rtranclp r_into_rtranclp)
qed

section \<open>The call of the receiver's goroutine\<close>

fun request_of :: "call_state \<Rightarrow> pc_request option" where
  "request_of (Checked q) = Some q"
| "request_of (Offering q) = Some q"
| "request_of (Awaiting q) = Some q"
| "request_of (Answered q a closed) = Some q"
| "request_of _ = None"

text \<open>
  A call that never gives the goroutine back: it was answered with its channel left open; it
  has a channel and has not reached a client that is leaving its loop; or its client is gone.
\<close>

fun doomed_call :: "run_place \<Rightarrow> call_state \<Rightarrow> bool" where
  "doomed_call p (Checked q) = (p = run_place.Exited \<or> leaving p \<and> result_channel q)"
| "doomed_call p (Offering q) = (p = run_place.Exited \<or> leaving p \<and> result_channel q)"
| "doomed_call p (Answered q a closed) = (result_channel q \<and> \<not> closed)"
| "doomed_call p SendPanicked = True"
| "doomed_call p _ = False"

text \<open>The requests of the receiver's goroutines: the draining client answers them all.\<close>

definition receiver_request :: "pc_request \<Rightarrow> bool" where
  "receiver_request q \<longleftrightarrow> q \<noteq> LogoutRequest \<and> drain_reply [] q \<noteq> None"

lemma open_unless_exited:
  assumes "persistently True mailbox maxDelay c" and "maxDelay \<le> 2 ^ 61"
  shows "ps_closed c \<longleftrightarrow> ps_place c = run_place.Exited"
  using persistently_inv(2) [OF assms] by (simp add: flags_ok_def)

lemma offer_moves:
  assumes "ps_calls c i = Checked q" and "\<not> ps_closed c"
  shows "client_moves mailbox maxDelay {} c (c\<lparr>ps_calls := (ps_calls c)(i := Offering q)\<rparr>)"
  using offer [OF assms] assms(1) by (auto simp: client_moves_def)

lemma waits_at_work:
  assumes ok: "persistently True mailbox maxDelay c" "maxDelay \<le> 2 ^ 61"
    and "ps_calls c i = Awaiting q" and "receiver_request q"
  shows "at_work (ps_place c)"
proof -
  have "waiting_at c i" using persistently_inv(3) [OF ok] by (simp add: waiting_ok_def)
  moreover have "ending c \<longrightarrow> rn_idle (ps_run c) = None" "leaving (ps_place c) \<longrightarrow> rn_idle (ps_run c) = None"
    using persistently_inv(1) [OF ok] by (auto simp: runner_ok_def ending_def leaving_def)
  ultimately show ?thesis
    using assms(3,4) place_cases [OF ok]
    by (auto simp: waiting_at_def leaving_def receiver_request_def ending_def split: if_splits)
qed

lemma call_served:
  assumes ok: "persistently True mailbox maxDelay c" "maxDelay \<le> 2 ^ 61"
    and "at_work (ps_place c)" and x: "ps_calls c i \<in> {Checked q, Offering q}"
    and "q \<noteq> LogoutRequest" and "answers q a"
  shows "\<exists>d. drifts mailbox maxDelay c d \<and> ps_calls d i = Answered q a (result_channel q)"
proof -
  obtain d where d: "drifts mailbox maxDelay c d" "ready d" "kept c d"
    using gets_ready [OF ok assms(3)] by blast
  have same: "ps_calls d i = ps_calls c i" using kept_call [OF d(3)] x by auto
  have open_d: "\<not> ps_closed d"
    using open_unless_exited [OF drifts_persistently [OF d(1) ok(1)] ok(2)] d(2) by (simp add: ready_def)
  obtain e where e: "drifts mailbox maxDelay d e" "ready e" "ps_calls e i = Offering q"
  proof (cases "ps_calls d i = Offering q")
    case True
    with d(2) that [of d] show thesis by simp
  next
    case False
    with x same have "ps_calls d i = Checked q" by simp
    from offer_moves [OF this open_d] that [of "d\<lparr>ps_calls := (ps_calls d)(i := Offering q)\<rparr>"] d(2)
    show thesis by (auto simp: ready_def)
  qed
  from ready_serves [OF e(2,3) assms(5,6)] d(1) e(1) show ?thesis
    by (intro exI [of _ "e\<lparr>ps_calls := (ps_calls e)(i := Answered q a (result_channel q))\<rparr>"])
      (auto intro: rtranclp_trans)
qed

lemma drain_answers:
  assumes "receiver_request q"
  obtains a where "drain_reply mailbox q = Some a" and "answers q a"
  using assms drain_reply_None [of mailbox q] drain_reply_answers [of mailbox q]
  by (auto simp: receiver_request_def)

lemma call_drained:
  assumes ok: "persistently True mailbox maxDelay c" "maxDelay \<le> 2 ^ 61"
    and "ps_place c = Draining" and x: "ps_calls c i \<in> {Checked q, Offering q}"
    and "receiver_request q"
  shows "\<exists>d a. drifts mailbox maxDelay c d \<and> ps_calls d i = Answered q a False \<and> answers q a"
proof -
  obtain a where a: "drain_reply mailbox q = Some a" "answers q a" using drain_answers [OF assms(5)] .
  have drained: "\<exists>d. drifts mailbox maxDelay d' d \<and> ps_calls d i = Answered q a False"
    if "ps_place d' = Draining" "ps_calls d' i = Offering q" for d'
  proof -
    let ?d = "d'\<lparr>ps_calls := (ps_calls d')(i := (case drain_reply mailbox q of
      Some a \<Rightarrow> reply False a (Awaiting q) | None \<Rightarrow> Awaiting q))\<rparr>"
    have "persistent_step False mailbox (settled_MaxDelay maxDelay) d' ?d" using that by (rule drain)
    then have "client_moves mailbox maxDelay {} d' ?d" using that(2) by (auto simp: client_moves_def)
    moreover have "ps_calls ?d i = Answered q a False" using a(1) by simp
    ultimately show ?thesis by blast
  qed
  show ?thesis
  proof (cases "ps_calls c i = Offering q")
    case True
    with drained [OF assms(3)] a(2) show ?thesis by blast
  next
    case False
    let ?d = "c\<lparr>ps_calls := (ps_calls c)(i := Offering q)\<rparr>"
    have "client_moves mailbox maxDelay {} c ?d"
      using offer_moves x False open_unless_exited [OF ok] assms(3) by auto
    with drained [of ?d] assms(3) a(2) show ?thesis by (auto intro: converse_rtranclp_into_rtranclp)
  qed
qed

lemma starts_draining:
  assumes "leaving (ps_place c)"
  shows "\<exists>d. drifts mailbox maxDelay c d \<and> ps_place d = Draining \<and> kept c d"
proof (cases "ps_place c = Draining")
  case True
  then show ?thesis by (intro exI [of _ c]) simp
next
  case False
  with assms obtain i where i: "ps_place c = AtDone i" by (auto simp: leaving_def)
  obtain r as where r: "run_done i (ps_run c) = (r, as)" by fastforce
  let ?d = "c\<lparr>ps_place := Draining, ps_run := r, ps_shutdown := True, ps_calls := replies as (ps_calls c)\<rparr>"
  have "persistent_step False mailbox (settled_MaxDelay maxDelay) c ?d" by (rule at_done [OF i r])
  moreover have "kept c ?d" using r by (auto simp: kept_def step_defs)
  ultimately show ?thesis using kept_moves by (intro exI [of _ ?d]) auto
qed

text \<open>A call that is not doomed comes back with an answer of its kind.\<close>

lemma call_ends:
  assumes ok: "persistently True mailbox maxDelay c" "maxDelay \<le> 2 ^ 61"
    and req: "request_of (ps_calls c i) = Some q" "receiver_request q"
    and "\<not> doomed_call (ps_place c) (ps_calls c i)"
  shows "\<exists>d a closed. drifts mailbox maxDelay c d \<and> ps_calls d i = Answered q a closed
    \<and> (result_channel q \<longrightarrow> closed) \<and> answers q a"
proof -
  have logout: "q \<noteq> LogoutRequest" using req(2) by (simp add: receiver_request_def)
  consider (answered) a closed where "ps_calls c i = Answered q a closed"
    | (waiting) "ps_calls c i = Awaiting q" | (calling) "ps_calls c i \<in> {Checked q, Offering q}"
    using req(1) by (cases "ps_calls c i") auto
  then show ?thesis
  proof cases
    case answered
    have "answered_at (ps_place c) (ps_calls c i)"
      using persistently_inv(4) [OF ok] by (simp add: answered_ok_def)
    with answered assms(5) show ?thesis by (intro exI [of _ c]) auto
  next
    case waiting
    obtain d where d: "drifts mailbox maxDelay c d" "ready d" "kept c d"
      using gets_ready [OF ok waits_at_work [OF ok waiting req(2)]] by blast
    note ok' = drifts_persistently [OF d(1) ok(1)] ok(2)
    have "waiting_at d i" using persistently_inv(3) [OF ok'] by (simp add: waiting_ok_def)
    then have "awaited (ps_calls d i) = None"
      using d(2) by (auto simp: waiting_at_def ready_def ending_def)
    with d(3) waiting obtain a where a: "ps_calls d i = Answered q a (result_channel q)"
      by (auto simp: kept_def settled_def dest: spec [of _ i])
    have "answered_at (ps_place d) (ps_calls d i)"
      using persistently_inv(4) [OF ok'] by (simp add: answered_ok_def)
    with a d(1) show ?thesis by auto
  next
    case calling
    then have "ps_place c \<noteq> run_place.Exited" using assms(5) by auto
    with place_cases [OF ok] consider "at_work (ps_place c)" | (leaving) "leaving (ps_place c)" by blast
    then show ?thesis
    proof cases
      case 1
      obtain a where "answers q a" using answers_exist by blast
      with call_served [OF ok 1 calling logout] show ?thesis by blast
    next
      case leaving
      with calling assms(5) have chan: "\<not> result_channel q" by auto
      obtain d where d: "drifts mailbox maxDelay c d" "ps_place d = Draining" "kept c d"
        using starts_draining [OF leaving] by blast
      have "ps_calls d i \<in> {Checked q, Offering q}" using kept_call [OF d(3)] calling by auto
      from call_drained [OF drifts_persistently [OF d(1) ok(1)] ok(2) d(2) this req(2)] d(1) chan
      show ?thesis by (meson rtranclp_trans)
    qed
  qed
qed

section \<open>A call that never comes back\<close>

definition doomed :: "client_sys \<Rightarrow> bool" where
  "doomed s \<longleftrightarrow> cs_calling s
     \<and> doomed_call (ps_place (cs_client s)) (ps_calls (cs_client s) 0)"

lemma doomed_call_moves:
  assumes "client_moves mailbox maxDelay closed c c'" and "doomed_call (ps_place c) (ps_calls c i)"
  shows "doomed_call (ps_place c') (ps_calls c' i)"
proof (cases "may_call (ps_calls c i)")
  case True
  with assms show ?thesis
    by (cases "ps_calls c i") (auto simp: client_moves_def)
next
  case False
  have frame: "\<And>j. may_call (ps_calls c j) \<Longrightarrow> ps_calls c' j = ps_calls c j"
    and step: "persistent_step False mailbox (settled_MaxDelay maxDelay) c c'"
    using assms(1) by (simp_all add: client_moves_def)
  from step show ?thesis
  proof cases
    case (call_sends j q sh q')
    with frame [of j] have "ps_calls c j = Checked q'" by simp
    with call_sends(2) show ?thesis by simp
  next
    case (call_returns j q sh a closes)
    with frame [of j] False assms(2) show ?thesis by (auto split: if_splits)
  next
    case (drain j q)
    show ?thesis
    proof (cases "i = j")
      case True
      with drain assms(2) have "result_channel q" by (simp add: leaving_def)
      then obtain a where "drain_reply mailbox q = Some a" by (cases q) auto
      with drain True \<open>result_channel q\<close> show ?thesis by simp
    qed (use drain assms(2) in simp)
  next
    case (offer j q)
    with assms(2) show ?thesis by auto
  next
    case (send_on_closed j q)
    with assms(2) show ?thesis by auto
  next
    case (disconnected ev p r as)
    with False assms(2) have "ps_calls c i = SendPanicked"
      by (cases "ps_calls c i") (auto simp: leaving_def)
    with disconnected show ?thesis
      by (cases ev) (auto dest!: end_fake_idle_cases split: if_splits)
  next
    case (connected ev p r)
    with False assms(2) have "ps_calls c i = SendPanicked"
      by (cases "ps_calls c i") (auto simp: leaving_def)
    with connected show ?thesis by (cases ev) auto
  next
    case (at_done j r as)
    with False assms(2) show ?thesis
      by (cases "ps_calls c i") (auto simp: leaving_def step_defs)
  next
    case drained
    with False assms(2) show ?thesis by (cases "ps_calls c i") auto
  next
    case (idle_ends err r as)
    with False assms(2) show ?thesis
      by (cases "ps_calls c i") (auto simp: leaving_def step_defs split: option.splits)
  qed (use False assms(2) in \<open>cases "ps_calls c i"; auto simp: leaving_def\<close>)+
qed

definition hung :: "client_sys \<Rightarrow> bool" where
  "hung s \<longleftrightarrow> doomed s \<and> waits (cs_recv s) \<and> status (cs_recv s) \<noteq> loop_status.Exited"

lemma enter_call_place [simp]: "ps_place (enter_call mailbox i q c) = ps_place c"
  by (simp add: enter_call_def split: prod.splits)

lemma hung_act:
  assumes "hung s" and "client_act mailbox maxDelay s t"
  shows "hung t"
proof -
  have d: "cs_calling s" "doomed_call (ps_place (cs_client s)) (ps_calls (cs_client s) 0)"
    and waits: "waits (cs_recv s)"
    using assms(1) by (simp_all add: hung_def doomed_def)
  show ?thesis
    using assms(2)
  proof cases
    case (act_work g r)
    with waits show ?thesis by (auto simp: waits_def)
  next
    case (act_returns q a closed)
    with d show ?thesis by auto
  next
    case (act_logout i)
    with assms(1) show ?thesis by (simp add: hung_def doomed_def enter_call_other)
  next
    case (act_client c)
    with assms(1) doomed_call_moves [OF act_client(2) d(2)] show ?thesis
      by (simp add: hung_def doomed_def)
  qed (use d in simp_all)
qed

lemma hung_step:
  assumes "hung s" and "client_step mailbox maxDelay s t"
  shows "hung t"
  using assms(2)
proof cases
  case (cs_turn ev r)
  have "waits (cs_recv s)" using assms(1) by (simp add: hung_def)
  from waits_turn [OF cs_turn(2) this] cs_turn(1) assms(1) show ?thesis
    by (simp add: hung_def doomed_def)
next
  case cs_act
  with hung_act [OF assms(1)] show ?thesis by simp
next
  case cs_close
  with assms(1) show ?thesis by (simp add: hung_def)
qed

lemma hung_for_good:
  assumes "(client_step mailbox maxDelay)\<^sup>*\<^sup>* s t" and "hung s"
  shows "hung t"
  using assms by (induction rule: rtranclp_induct) (auto intro: hung_step)

section \<open>What the calls of a goroutine amount to\<close>

text \<open>
  The calls that can follow those a goroutine has made, whatever the state of the loop; a
  log of such calls with answers of their kind is a script of the goroutine.
\<close>

inductive next_request :: "goroutine \<Rightarrow> call_log \<Rightarrow> pc_request \<Rightarrow> bool" where
  "next_request (IdleRunning stop) [] (IdleRequest ch opts)"
| "next_request (FetchRunning existing) [] MailboxRequest"
| "next_request (FetchRunning existing) [(MailboxRequest, StatusAnswer (Some st))]
    (FetchRequest seqset items True)"
| "map_iteration m order \<Longrightarrow> m \<noteq> Map.empty \<Longrightarrow> next_request (DeleteRunning m) []
    (UidStoreRequest (AddNum order []) (FormatFlagsOp AddFlags False) [DeletedFlag] True)"
| "next_request (DeleteRunning Map.empty) [] (ExpungeRequest False)"
| "next_request (DeleteRunning m) [(UidStoreRequest seqset item fs True, a)] (ExpungeRequest False)"

inductive script :: "goroutine \<Rightarrow> call_log \<Rightarrow> bool" for g :: goroutine where
  script_nil: "script g []"
| script_snoc: "script g log \<Longrightarrow> next_request g log q \<Longrightarrow> answers q a \<Longrightarrow> script g (log @ [(q, a)])"

lemma next_request_receiver: "next_request g log q \<Longrightarrow> receiver_request q"
  by (induction rule: next_request.induct) (simp_all add: receiver_request_def)

lemma next_request_length: "next_request g log q \<Longrightarrow> length log < 2"
  by (induction rule: next_request.induct) simp_all

lemma iteration_empty: "map_iteration m order \<Longrightarrow> order = [] \<longleftrightarrow> m = Map.empty"
  using map_iterationD(2) [of m order] by (metis dom_eq_empty_conv set_empty)

lemma collected_acked:
  assumes "ptrs_ok A mr m" and "map_iteration m order"
  shows "collect_deletions (deref mr m) order [] [] [] =
    (map (\<lambda>u. (u, ms_Message (the (deref mr m u)))) order, AddNum order [], [])"
proof -
  note it = map_iterationD [OF assms(2)]
  have "filter (\<lambda>u. ms_State (the (deref mr m u)) = StateAcked) order = order"
    using acked_deref [OF assms(1) it(2)] by (simp add: acked_uids_def)
  moreover have "ms_State (the (deref mr m u)) \<noteq> StateDeleted" if "u \<in> set order" for u
    using assms(1) it(2) that by (auto simp: ptrs_ok_def deref_def)
  ultimately show ?thesis by (simp add: collect_deletions_eq filter_empty_conv)
qed

lemma next_call_request:
  assumes "next_call l g log q" and "work_ok A l g"
  shows "next_request g log q"
  using assms
proof cases
  case (store_call m order toDelete deleteSet sent)
  then have "ptrs_ok A (rcv l) m" using assms(2) by simp
  from collected_acked [OF this store_call(4)] store_call iteration_empty [OF store_call(4)]
  show ?thesis by (auto intro!: next_request.intros)
next
  case (only_expunge m order deleteSet sent)
  then have "ptrs_ok A (rcv l) m" using assms(2) by simp
  from collected_acked [OF this only_expunge(4)] only_expunge iteration_empty [OF only_expunge(4)]
  show ?thesis by (auto intro: next_request.intros)
qed (auto intro: next_request.intros)

text \<open>A server that sends no messages and otherwise answers as a log says.\<close>

definition quiet_server :: "MailboxStatus option \<Rightarrow> go_error option \<Rightarrow> go_error option \<Rightarrow> server_answers" where
  "quiet_server st err expunge =
     \<lparr>sv_Mailbox = st, sv_Fetch = \<lambda>_ _. ([], err), sv_UidStore = \<lambda>_ _ _. ([], err),
      sv_Expunge = expunge\<rparr>"

lemma quiet_server_calls [simp]:
  "cl_Fetch (quiet_server st err expunge) seqset items = ([], err)"
  "cl_UidStore (quiet_server st err expunge) seqset item fs = ([], err)"
  "sv_Mailbox (quiet_server st err expunge) = st"
  "sv_Expunge (quiet_server st err expunge) = expunge"
  by (simp_all add: quiet_server_def cl_Fetch_def cl_UidStore_def goimap_command_def)

lemma quiet_server_fetch:
  "(\<exists>b. doFetch (quiet_server st err expunge) existing n [] = (b, []))
    \<or> (\<exists>b r. doFetch (quiet_server st err expunge) existing n [] = (b, [r]))"
  by (auto simp: doFetch_def Let_def split: option.splits prod.splits)

lemma quiet_delete_calls:
  assumes "ptrs_ok A (rcv l) m" and "map_iteration m order"
  shows "doDelete (quiet_server st err expunge) (deref (rcv l) m) order =
    ([], if m = Map.empty then [CExpunge]
      else [CUidStore (AddNum order []) (FormatFlagsOp AddFlags False) [DeletedFlag], CExpunge])"
  using collected_acked [OF assms] iteration_empty [OF assms(2)]
  by (auto simp: doDelete_def Let_def)

lemma answers_kind:
  "answers MailboxRequest a \<longleftrightarrow> (\<exists>st. a = StatusAnswer st)"
  "answers (FetchRequest seqset items ch) a \<longleftrightarrow> (\<exists>err. a = ErrAnswer err)"
  "answers (UidStoreRequest seqset item fs ch) a \<longleftrightarrow> (\<exists>err. a = ErrAnswer err)"
  "answers (ExpungeRequest ch) a \<longleftrightarrow> (\<exists>err. a = ErrAnswer err)"
  by (cases a; simp)+

text \<open>A script that has come to its end.\<close>

inductive_cases script_cases: "script g log"
inductive_cases next_request_cases:
  "next_request (IdleRunning stop) log q" "next_request (FetchRunning existing) log q"
  "next_request (DeleteRunning m) log q"

lemma script_shapes:
  assumes "script g log"
  shows "log = [] \<or> (\<exists>q a. log = [(q, a)] \<and> next_request g [] q \<and> answers q a)
    \<or> (\<exists>q a q' a'. log = [(q, a), (q', a')] \<and> next_request g [] q \<and> answers q a
        \<and> next_request g [(q, a)] q' \<and> answers q' a')"
  using assms
proof induction
  case (script_snoc log q a)
  from next_request_length [OF script_snoc(2)] script_snoc show ?case by auto
qed simp

section \<open>The goroutine follows its script\<close>

definition server_work :: "recv_sys \<Rightarrow> goroutine option" where
  "server_work r = (case work r of [g] \<Rightarrow> if on_server g then Some g else None | _ \<Rightarrow> None)"

lemma server_work_Some: "server_work r = Some g \<longleftrightarrow> work r = [g] \<and> on_server g"
  by (auto simp: server_work_def split: list.splits)

definition scripted :: "client_sys \<Rightarrow> bool" where
  "scripted s \<longleftrightarrow> (case server_work (cs_recv s) of
       None \<Rightarrow> \<not> cs_calling s \<and> cs_log s = []
     | Some g \<Rightarrow> script g (cs_log s) \<and> (cs_calling s \<longrightarrow>
         (case request_of (ps_calls (cs_client s) 0) of
            None \<Rightarrow> ps_calls (cs_client s) 0 = SendPanicked
          | Some q \<Rightarrow> next_request g (cs_log s) q)))"

lemma scripted_fresh: "\<not> cs_calling s \<Longrightarrow> cs_log s = [] \<Longrightarrow> scripted s"
  by (simp add: scripted_def script_nil split: option.split)

lemma scripted_cong:
  assumes "scripted s" and "server_work (cs_recv t) = server_work (cs_recv s)"
    and "cs_calling t = cs_calling s" and "cs_log t = cs_log s"
    and "ps_calls (cs_client t) 0 = ps_calls (cs_client s) 0"
  shows "scripted t"
  using assms(1) unfolding scripted_def assms(2-5) .

lemma client_moves_request:
  assumes "client_moves mailbox maxDelay closed c c'"
  shows "request_of (ps_calls c' i) = request_of (ps_calls c i)
      \<and> (ps_calls c i = SendPanicked \<longrightarrow> ps_calls c' i = SendPanicked)
    \<or> ps_calls c' i = SendPanicked"
proof -
  have frame: "\<And>j. may_call (ps_calls c j) \<Longrightarrow> ps_calls c' j = ps_calls c j"
    and step: "persistent_step False mailbox (settled_MaxDelay maxDelay) c c'"
    using assms(1) by (simp_all add: client_moves_def)
  have reply [simp]: "request_of (reply closes a x) = request_of x" for closes a x
    by (cases x) simp_all
  from step show ?thesis
  proof cases
    case (call_sends j q sh q')
    with frame [of j] have "ps_calls c j = Checked q'" by simp
    with call_sends(2) show ?thesis by simp
  next
    case (call_returns j q sh a closes)
    with frame [of j] show ?thesis by (auto split: if_splits)
  next
    case (disconnected ev p r as)
    then show ?thesis by (cases ev) (auto dest!: end_fake_idle_cases split: if_splits)
  next
    case (connected ev p r)
    then show ?thesis by (cases ev) auto
  next
    case (drain j q)
    then show ?thesis by (auto split: option.splits)
  qed (auto simp: step_defs split: option.splits)
qed

definition quitting_inv :: "string \<Rightarrow> duration \<Rightarrow> client_sys \<Rightarrow> bool" where
  "quitting_inv mailbox maxDelay s \<longleftrightarrow> calling_inv mailbox maxDelay s
     \<and> (maxDelay \<le> 2 ^ 61 \<longrightarrow> 4 * ticks (cs_recv s) < 2 ^ 64 \<longrightarrow> scripted s)"

lemma enter_call_request [simp]: "request_of (ps_calls (enter_call mailbox i q c) i) = Some q"
  by (auto simp: enter_call_def split: prod.splits call_start.splits dest: pc_call_sends)

lemma recv_running:
  assumes "reachable recv_init recv_step r" and "4 * ticks r < 2 ^ 64" and "work r = [g]"
  shows "running_ok r" and "work_ok (acked r) (loop r) g" and "0 \<notin> acked r"
proof -
  have "recv_ok r" by (rule reachable_ok [OF assms(1,2)])
  with assms(3) show "running_ok r" and "0 \<notin> acked r" by (auto simp: recv_ok_def exited_ok_def)
  with assms(3) show "work_ok (acked r) (loop r) g" by (simp add: running_ok_def)
qed

lemma scripted_turn:
  assumes s: "scripted s" and recv: "reachable recv_init recv_step (cs_recv s)"
    and turn: "recv_turn ev (cs_recv s) r" and bound: "4 * ticks (cs_recv s) < 2 ^ 64"
  shows "scripted (client_turn ev r s)"
proof (cases "server_work (cs_recv s)")
  case None
  with s have "\<not> cs_calling s" "cs_log s = []" by (simp_all add: scripted_def)
  then show ?thesis by (intro scripted_fresh) simp_all
next
  case (Some g)
  then have "waits (cs_recv s)"
    using on_server_waits [OF recv bound] by (simp add: server_work_Some)
  from waits_turn [OF turn this] have "server_work r = server_work (cs_recv s)"
    by (simp add: server_work_def)
  then show ?thesis by (intro scripted_cong [OF s]) simp_all
qed

lemma scripted_act:
  assumes s: "scripted s" and act: "client_act mailbox maxDelay s t"
    and recv: "reachable recv_init recv_step (cs_recv s)"
    and client: "persistently True mailbox maxDelay (cs_client s)"
    and bounds: "maxDelay \<le> 2 ^ 61" "4 * ticks (cs_recv s) < 2 ^ 64"
  shows "scripted t"
  using act
proof cases
  case (act_work g r)
  then have "server_work (cs_recv s) = None" by (simp add: server_work_def)
  with s act_work show ?thesis by (intro scripted_fresh) (simp_all add: scripted_def)
next
  case (act_enters g q)
  have "next_request g (cs_log s) q"
    using next_call_request [OF act_enters(4) recv_running(2) [OF recv bounds(2) act_enters(2)]] .
  moreover have "server_work (cs_recv s) = Some g"
    using act_enters(2) next_call_on_server [OF act_enters(4)] by (simp add: server_work_Some)
  ultimately show ?thesis using s act_enters by (simp add: scripted_def)
next
  case (act_returns q a closed)
  have "answered_at (ps_place (cs_client s)) (ps_calls (cs_client s) 0)"
    using persistently_inv(4) [OF client bounds(1)] by (simp add: answered_ok_def)
  with act_returns have "answers q a" by simp
  with s act_returns show ?thesis
    by (auto simp: scripted_def intro: script_snoc split: option.splits)
next
  case (act_over g g' st)
  then show ?thesis by (intro scripted_fresh) simp_all
next
  case (act_client c)
  with s client_moves_request [OF act_client(2), of 0] show ?thesis
    by (auto simp: scripted_def split: option.splits)
next
  case (act_logout i)
  then show ?thesis by (intro scripted_cong [OF s]) (simp_all add: enter_call_other)
qed

lemma act_ticks: "client_act mailbox maxDelay s t \<Longrightarrow> ticks (cs_recv t) = ticks (cs_recv s)"
  by (cases rule: client_act.cases) (auto elim: recv_workE)

lemma quitting_inv_step:
  assumes inv: "quitting_inv mailbox maxDelay s" and step: "client_step mailbox maxDelay s t"
  shows "quitting_inv mailbox maxDelay t"
proof -
  have calling: "calling_inv mailbox maxDelay s" "calling_inv mailbox maxDelay t"
    using inv calling_inv_step [OF _ step] by (simp_all add: quitting_inv_def)
  then have parts: "reachable recv_init recv_step (cs_recv s)"
    "persistently True mailbox maxDelay (cs_client s)"
    by (simp_all add: calling_inv_def joined_inv_def)
  have "scripted t" if M: "maxDelay \<le> 2 ^ 61" and bound: "4 * ticks (cs_recv t) < 2 ^ 64"
    using step
  proof cases
    case (cs_turn ev r)
    then have "4 * ticks (cs_recv s) < 2 ^ 64" using bound turn_ticks [OF cs_turn(2)] by simp
    with scripted_turn [OF _ parts(1) cs_turn(2)] inv M cs_turn(1) show ?thesis
      by (simp add: quitting_inv_def)
  next
    case cs_act
    then have "4 * ticks (cs_recv s) < 2 ^ 64" using bound act_ticks [OF cs_act] by simp
    with scripted_act [OF _ cs_act parts M] inv M show ?thesis by (simp add: quitting_inv_def)
  next
    case cs_close
    with inv M bound have "scripted s" by (simp add: quitting_inv_def)
    then show ?thesis by (rule scripted_cong) (use cs_close in \<open>simp_all add: enter_call_other\<close>)
  qed
  with calling(2) show ?thesis by (simp add: quitting_inv_def)
qed

interpretation quitting: invariant_system "client_init mailbox maxDelay" "client_step mailbox maxDelay"
  "quitting_inv mailbox maxDelay" for mailbox maxDelay
proof unfold_locales
  fix s assume "client_init mailbox maxDelay s"
  then show "quitting_inv mailbox maxDelay s"
    using calling_inv_init [of mailbox maxDelay s] scripted_fresh [of s]
    by (auto simp: quitting_inv_def client_init_def)
qed (rule quitting_inv_step)

section \<open>Calls from beginning to end\<close>

text \<open>
  The steps a run to the end takes: what happens between two turns, and turns with quiet
  events that hand nothing out.
\<close>

inductive quiet_client_step :: "string \<Rightarrow> duration \<Rightarrow> client_sys \<Rightarrow> client_sys \<Rightarrow> bool"
  for mailbox :: string and maxDelay :: duration where
  quiet_act: "client_act mailbox maxDelay s t \<Longrightarrow> quiet_client_step mailbox maxDelay s t"
| quiet_turn: "quiet ev \<Longrightarrow> recv_turn ev (cs_recv s) r \<Longrightarrow> sent_by r = sent_by (cs_recv s) \<Longrightarrow>
    quiet_client_step mailbox maxDelay s (client_turn ev r s)"

abbreviation client_steps :: "string \<Rightarrow> duration \<Rightarrow> client_sys \<Rightarrow> client_sys \<Rightarrow> bool" where
  "client_steps mailbox maxDelay \<equiv> (quiet_client_step mailbox maxDelay)\<^sup>*\<^sup>*"

lemmas quiet_acts = client_act.intros [THEN quiet_act]

lemma quiet_client_step_runs: "quiet_client_step mailbox maxDelay s t \<Longrightarrow> client_step mailbox maxDelay s t"
  by (induction rule: quiet_client_step.induct) (rule cs_act, assumption, rule cs_turn)

lemma client_steps_run:
  "client_steps mailbox maxDelay s t \<Longrightarrow> (client_step mailbox maxDelay)\<^sup>*\<^sup>* s t"
  by (rule rtranclp_mono [THEN predicate2D]) (auto intro: quiet_client_step_runs)

text \<open>A reachable state within the bounds, and what holds of it.\<close>

definition within :: "string \<Rightarrow> duration \<Rightarrow> client_sys \<Rightarrow> bool" where
  "within mailbox maxDelay s \<longleftrightarrow> on_client mailbox maxDelay s \<and> maxDelay \<le> 2 ^ 61
     \<and> 4 * ticks (cs_recv s) < 2 ^ 64"

lemma withinD:
  assumes "within mailbox maxDelay s"
  shows "reachable recv_init recv_step (cs_recv s)"
    and "persistently True mailbox maxDelay (cs_client s)" and "maxDelay \<le> 2 ^ 61"
    and "4 * ticks (cs_recv s) < 2 ^ 64" and "scripted s"
    and "\<not> cs_calling s \<Longrightarrow> may_call (ps_calls (cs_client s) 0)"
  using assms quitting.reachable_inv [of mailbox maxDelay s]
  by (auto simp: within_def quitting_inv_def calling_inv_def joined_inv_def)

lemma within_steps:
  assumes "within mailbox maxDelay s" and "client_steps mailbox maxDelay s t"
    and "4 * ticks (cs_recv t) < 2 ^ 64"
  shows "within mailbox maxDelay t"
  using assms reachable_steps [OF _ client_steps_run [OF assms(2)]] by (auto simp: within_def)

lemma sys_moves:
  assumes "drifts mailbox maxDelay (cs_client s) c"
  shows "client_steps mailbox maxDelay s (s\<lparr>cs_client := c\<rparr>)"
  using assms
proof (induction rule: rtranclp_induct)
  case (step c d)
  have "client_moves mailbox maxDelay (closed_sigs (sigs (loop (cs_recv s)))) c d"
    using step.hyps(2) by (auto simp: client_moves_def)
  then have "quiet_client_step mailbox maxDelay (s\<lparr>cs_client := c\<rparr>) (s\<lparr>cs_client := d\<rparr>)"
    using quiet_acts(6) [of mailbox maxDelay "s\<lparr>cs_client := c\<rparr>" d] by simp
  with step.IH show ?case by (rule rtranclp.rtrancl_into_rtrancl)
qed simp

text \<open>The goroutine is back from a call, with its answer in the log.\<close>

definition back_from :: "pc_request \<Rightarrow> answer \<Rightarrow> client_sys \<Rightarrow> client_sys \<Rightarrow> bool" where
  "back_from q a s t \<longleftrightarrow> cs_recv t = cs_recv s \<and> \<not> cs_calling t \<and> cs_log t = cs_log s @ [(q, a)]"

lemma comes_back:
  assumes "drifts mailbox maxDelay (cs_client s) c" and "cs_calling s"
    and "ps_calls c 0 = Answered q a closed" and "result_channel q \<longrightarrow> closed"
  shows "\<exists>t. client_steps mailbox maxDelay s t \<and> back_from q a s t"
proof -
  let ?s = "s\<lparr>cs_client := c\<rparr>"
  let ?t = "?s\<lparr>cs_log := cs_log ?s @ [(q, a)], cs_calling := False\<rparr>"
  have "quiet_client_step mailbox maxDelay ?s ?t"
    by (rule quiet_acts(3)) (use assms in simp_all)
  with sys_moves [OF assms(1)] show ?thesis
    by (intro exI [of _ ?t]) (auto simp: back_from_def)
qed

lemma call_finishes:
  assumes s: "within mailbox maxDelay s" and "cs_calling s" and "\<not> doomed s"
    and g: "server_work (cs_recv s) = Some g"
  shows "\<exists>t q a. client_steps mailbox maxDelay s t \<and> back_from q a s t"
proof -
  have notd: "\<not> doomed_call (ps_place (cs_client s)) (ps_calls (cs_client s) 0)"
    using assms(2,3) by (simp add: doomed_def)
  then have "ps_calls (cs_client s) 0 \<noteq> SendPanicked" by auto
  with withinD(5) [OF s] assms(2) g obtain q where
    q: "request_of (ps_calls (cs_client s) 0) = Some q" "next_request g (cs_log s) q"
    by (auto simp: scripted_def split: option.splits)
  from call_ends [OF withinD(2,3) [OF s] q(1) next_request_receiver [OF q(2)] notd]
  show ?thesis using comes_back [OF _ assms(2)] by metis
qed

lemma leaving_shut_down:
  assumes ok: "persistently True mailbox maxDelay c" "maxDelay \<le> 2 ^ 61" and "\<not> ps_shutdown c"
  shows "at_work (ps_place c)"
proof -
  note flags = persistently_inv(2) [OF ok, unfolded flags_ok_def]
  have "\<forall>i. ps_place c \<noteq> AtDone i"
  proof (intro allI notI)
    fix i assume p: "ps_place c = AtDone i"
    then have "awaited (ps_calls c i) = Some LogoutRequest"
      using persistently_inv(3) [OF ok] by (auto simp: waiting_ok_def waiting_at_def ending_def)
    then have "in_call (\<lambda>q. q = LogoutRequest) (ps_calls c i)" by (simp add: awaited_Some)
    with flags assms(3) show False by blast
  qed
  with flags assms(3) place_cases [OF ok] show ?thesis by (auto simp: ending_def leaving_def)
qed

text \<open>
  A call that is made now comes back, with the answer of our choice or, from a client that
  was shut down, with the one that turns it away.
\<close>

lemma call_made:
  assumes s: "within mailbox maxDelay s" and "work (cs_recv s) = [g]" and "\<not> cs_calling s"
    and "next_call (loop (cs_recv s)) g (cs_log s) q" and "answers q a"
  shows "\<exists>t a'. client_steps mailbox maxDelay s t \<and> back_from q a' s t
    \<and> (a' = a \<or> (\<exists>closed. pc_call mailbox True q = (True, Returns a' closed)))"
proof -
  let ?c = "enter_call mailbox 0 q (cs_client s)"
  let ?s = "s\<lparr>cs_client := ?c, cs_calling := True\<rparr>"
  have enters: "quiet_client_step mailbox maxDelay s ?s"
    using assms(2-4) withinD(6) [OF s assms(3)] by (rule quiet_acts(2))
  obtain sh start where call: "pc_call mailbox (ps_shutdown (cs_client s)) q = (sh, start)" by fastforce
  have returns: "\<exists>t. client_steps mailbox maxDelay s t \<and> back_from q a' s t"
    if "drifts mailbox maxDelay ?c c" "ps_calls c 0 = Answered q a' (result_channel q)" for a' c
  proof -
    have "\<exists>t. client_steps mailbox maxDelay ?s t \<and> back_from q a' ?s t"
      by (rule comes_back [where c = c and closed = "result_channel q"]) (use that in simp_all)
    with enters show ?thesis by (auto simp: back_from_def intro: converse_rtranclp_into_rtranclp)
  qed
  show ?thesis
  proof (cases start)
    case (Returns a' closes)
    with call pc_call_returns have r: "closes = result_channel q" "ps_shutdown (cs_client s)" "sh" by blast+
    then have "ps_calls ?c 0 = Answered q a' (result_channel q)"
      using call Returns by (simp add: enter_call_def)
    with returns [of ?c a'] r call Returns show ?thesis by auto
  next
    case (Sends q')
    with call pc_call_sends have q': "q' = q" "\<not> ps_shutdown (cs_client s)" by blast+
    have "g = g \<and> work_ok (acked (cs_recv s)) (loop (cs_recv s)) g"
      using recv_running(2) [OF withinD(1,4) [OF s] assms(2)] by simp
    then have "receiver_request q" using next_call_request [OF assms(4)] next_request_receiver by blast
    then have logout: "q \<noteq> LogoutRequest" by (simp add: receiver_request_def)
    have "within mailbox maxDelay ?s"
      using within_steps [OF s r_into_rtranclp [of "quiet_client_step mailbox maxDelay", OF enters]] withinD(4) [OF s] by simp
    from withinD(2,3) [OF this] have ok: "persistently True mailbox maxDelay ?c" "maxDelay \<le> 2 ^ 61" by simp_all
    have "at_work (ps_place ?c)" using leaving_shut_down [OF withinD(2,3) [OF s] q'(2)] by simp
    moreover have "ps_calls ?c 0 \<in> {Checked q, Offering q}"
      using call Sends q' by (simp add: enter_call_def)
    ultimately obtain c where "drifts mailbox maxDelay ?c c" "ps_calls c 0 = Answered q a (result_channel q)"
      using call_served [OF ok _ _ logout assms(5)] by blast
    from returns [OF this] show ?thesis by blast
  qed
qed

section \<open>A goroutine to its end\<close>

lemma next_call_idle: "\<exists>q. next_call l (IdleRunning stop) [] q"
  by (blast intro: next_call.intros)

lemma next_call_delete:
  assumes "finite (dom m)"
  shows "\<exists>q. next_call l (DeleteRunning m) [] q"
proof -
  obtain order where order: "map_iteration m order"
    using finite_distinct_list [OF assms] by (metis map_iteration_def)
  obtain toDelete deleteSet sent where
    c: "collect_deletions (deref (rcv l) m) order [] [] [] = (toDelete, deleteSet, sent)"
    by (metis prod_cases3)
  show ?thesis
    using next_call.only_expunge [OF order] next_call.store_call [OF order c] c by blast
qed

text \<open>With all calls made the goroutine goes on, with at most one result, and that empty.\<close>

lemma script_over:
  assumes "script g log" and "on_server g" and none_left: "\<forall>q. \<not> next_call l g log q"
    and "work_ok A l g"
  shows "\<exists>g' st. calls_over l log g g' st \<and> \<not> on_server g' \<and> results_of g' \<le> 1"
proof (cases g)
  case (IdleRunning stop)
  then have "log \<noteq> []" using next_call_idle none_left by metis
  with IdleRunning show ?thesis
    using calls_over.idle_over [of log l stop] by (intro exI [of _ "Finishing OperationIDLEFinish"]) auto
next
  case (FetchRunning existing)
  have plays: "\<exists>st err. \<forall>x\<in>set log. plays (quiet_server st err None) x"
    using script_shapes [OF assms(1)] FetchRunning
    by (auto elim!: next_request_cases simp: answers_kind simp del: answers.simps)
  then obtain st err where p: "\<forall>x\<in>set log. plays (quiet_server st err None) x" by blast
  from quiet_server_fetch [of st err None existing "fetchBufferSize (rcv l)"] show ?thesis
    using calls_over.fetch_none [OF none_left [unfolded FetchRunning] p]
      calls_over.fetch_some [OF none_left [unfolded FetchRunning] p] FetchRunning
    by (metis le_refl on_server.simps(4,6) results_of.simps(1,6) zero_le_one)
next
  case (DeleteRunning m)
  then have m: "ptrs_ok A (rcv l) m" using assms(4) by simp
  then have fin: "finite (dom m)" by (simp add: ptrs_ok_def)
  then obtain order where order: "map_iteration m order"
    using finite_distinct_list by (metis map_iteration_def)
  have "log \<noteq> []" using next_call_delete [OF fin] none_left DeleteRunning by metis
  with script_shapes [OF assms(1)] DeleteRunning none_left consider
    (none) e where "m = Map.empty" "log = [(ExpungeRequest False, ErrAnswer e)]"
  | (some) ord err e where "map_iteration m ord" "m \<noteq> Map.empty"
      "log = [(UidStoreRequest (AddNum ord []) (FormatFlagsOp AddFlags False) [DeletedFlag] True,
        ErrAnswer err), (ExpungeRequest False, ErrAnswer e)]"
    by (auto elim!: next_request_cases simp: answers_kind simp del: answers.simps intro: next_call.intros)
  then show ?thesis
  proof cases
    case none
    have "calls_over l log (DeleteRunning m) (DeleteSending []) (store_uids (changes_made log))"
      by (rule calls_over.delete_over [OF order, of _ "quiet_server None None e"])
        (use none quiet_delete_calls [OF m order] in simp_all)
    with DeleteRunning show ?thesis by fastforce
  next
    case some
    have "calls_over l log (DeleteRunning m) (DeleteSending []) (store_uids (changes_made log))"
      by (rule calls_over.delete_over [OF some(1), of _ "quiet_server None err e"])
        (use some quiet_delete_calls [OF m some(1)] in simp_all)
    with DeleteRunning show ?thesis by fastforce
  qed
qed (use assms(2) in simp_all)

lemma all_calls:
  assumes "within mailbox maxDelay s" and "work (cs_recv s) = [g]" and "\<not> cs_calling s"
  shows "\<exists>t. client_steps mailbox maxDelay s t \<and> cs_recv t = cs_recv s \<and> \<not> cs_calling t
    \<and> (\<forall>q. \<not> next_call (loop (cs_recv s)) g (cs_log t) q)"
  using assms
proof (induction "2 - length (cs_log s)" arbitrary: s rule: less_induct)
  case less
  show ?case
  proof (cases "\<exists>q. next_call (loop (cs_recv s)) g (cs_log s) q")
    case False
    with less.prems show ?thesis by (intro exI [of _ s]) simp
  next
    case True
    then obtain q where q: "next_call (loop (cs_recv s)) g (cs_log s) q" by blast
    obtain a where "answers q a" using answers_exist by blast
    from call_made [OF less.prems q this] obtain t a' where
      t: "client_steps mailbox maxDelay s t" "back_from q a' s t" by blast
    have "length (cs_log s) < 2"
      using next_request_length next_call_request [OF q]
        recv_running(2) [OF withinD(1,4) [OF less.prems(1)] less.prems(2)] by blast
    then have "2 - length (cs_log t) < 2 - length (cs_log s)" using t(2) by (simp add: back_from_def)
    moreover have "within mailbox maxDelay t"
      using within_steps [OF less.prems(1) t(1)] withinD(4) [OF less.prems(1)] t(2) by (simp add: back_from_def)
    ultimately obtain u where "client_steps mailbox maxDelay t u" "cs_recv u = cs_recv t"
      "\<not> cs_calling u" "\<forall>q. \<not> next_call (loop (cs_recv t)) g (cs_log u) q"
      using less.hyps [of t] less.prems(2) t(2) by (auto simp: back_from_def)
    with t show ?thesis by (auto simp: back_from_def intro: rtranclp_trans)
  qed
qed

text \<open>The joined system with no call under way.\<close>

definition off_server :: "client_sys \<Rightarrow> bool" where
  "off_server s \<longleftrightarrow> \<not> cs_calling s \<and> cs_log s = []"

lemma goroutine_ends:
  assumes s: "within mailbox maxDelay s" and "\<not> doomed s" and g: "server_work (cs_recv s) = Some g"
  shows "\<exists>t g' st. client_steps mailbox maxDelay s t \<and> off_server t \<and> \<not> on_server g'
    \<and> results_of g' \<le> 1 \<and> cs_recv t = (cs_recv s)\<lparr>work := [g'], stored := stored (cs_recv s) \<union> st\<rparr>"
proof -
  have work: "work (cs_recv s) = [g]" "on_server g" using g by (simp_all add: server_work_Some)
  obtain t where t: "client_steps mailbox maxDelay s t" "cs_recv t = cs_recv s" "\<not> cs_calling t"
  proof (cases "cs_calling s")
    case True
    from call_finishes [OF s True assms(2) g] that show thesis by (auto simp: back_from_def)
  qed (use that [of s] in simp)
  then have "within mailbox maxDelay t" using within_steps [OF s t(1)] withinD(4) [OF s] by simp
  from all_calls [OF this _ t(3)] t(2) work obtain u where
    u: "client_steps mailbox maxDelay t u" "cs_recv u = cs_recv s" "\<not> cs_calling u"
      "\<forall>q. \<not> next_call (loop (cs_recv s)) g (cs_log u) q" by metis
  have su: "client_steps mailbox maxDelay s u" using t(1) u(1) by (rule rtranclp_trans)
  have "within mailbox maxDelay u" using within_steps [OF s su] withinD(4) [OF s] u(2) by simp
  from withinD(5) [OF this] g u(2) have "script g (cs_log u)" by (simp add: scripted_def)
  from script_over [OF this work(2) u(4) recv_running(2) [OF withinD(1,4) [OF s] work(1)]]
  obtain g' st where g': "calls_over (loop (cs_recv s)) (cs_log u) g g' st" "\<not> on_server g'" "results_of g' \<le> 1"
    by blast
  let ?v = "u\<lparr>cs_recv := (cs_recv u)\<lparr>work := [g'], stored := stored (cs_recv u) \<union> st\<rparr>, cs_log := []\<rparr>"
  have "quiet_client_step mailbox maxDelay u ?v"
    by (rule quiet_acts(4)) (use work u g'(1) in simp_all)
  with su have "client_steps mailbox maxDelay s ?v" by (rule rtranclp.rtrancl_into_rtrancl)
  with g' u(2,3) show ?thesis by (intro exI [of _ ?v]) (auto simp: off_server_def)
qed

section \<open>The way to the exit\<close>

lemma over_step:
  assumes "off_server s" and "client_steps mailbox maxDelay s u" and "cs_recv u = cs_recv s"
    and "\<not> cs_calling u" and "work (cs_recv s) = [g]"
    and "calls_over (loop (cs_recv s)) (cs_log u) g g' st"
  shows "\<exists>t. client_steps mailbox maxDelay s t \<and> off_server t
    \<and> cs_recv t = (cs_recv s)\<lparr>work := [g'], stored := stored (cs_recv s) \<union> st\<rparr>"
proof -
  let ?t = "u\<lparr>cs_recv := (cs_recv u)\<lparr>work := [g'], stored := stored (cs_recv u) \<union> st\<rparr>, cs_log := []\<rparr>"
  have "quiet_client_step mailbox maxDelay u ?t"
    by (rule quiet_acts(4)) (use assms in simp_all)
  with assms(2) have "client_steps mailbox maxDelay s ?t" by (rule rtranclp.rtrancl_into_rtrancl)
  with assms(3,4) show ?thesis by (intro exI [of _ ?t]) (simp add: off_server_def)
qed

lemma refused_kind: "pc_call mailbox True q = (True, Returns a closed) \<Longrightarrow> answers q a"
  using pc_call_returns by blast

text \<open>One call from a goroutine that has made none, and the expunge after a store.\<close>

lemma first_call:
  assumes "within mailbox maxDelay s" and "off_server s" and "work (cs_recv s) = [g]"
    and "next_call (loop (cs_recv s)) g [] q" and "answers q a"
  obtains t a' where "client_steps mailbox maxDelay s t" and "cs_recv t = cs_recv s"
    and "\<not> cs_calling t" and "cs_log t = [(q, a')]" and "answers q a'"
    and "a' = a \<or> (\<exists>closed. pc_call mailbox True q = (True, Returns a' closed))"
    and "within mailbox maxDelay t"
proof -
  have off: "\<not> cs_calling s" "cs_log s = []" using assms(2) by (simp_all add: off_server_def)
  from call_made [OF assms(1,3) off(1) _ assms(5)] assms(4) off(2) obtain t a' where
    t: "client_steps mailbox maxDelay s t" "back_from q a' s t"
      "a' = a \<or> (\<exists>closed. pc_call mailbox True q = (True, Returns a' closed))" by auto
  moreover have "answers q a'" using t(3) assms(5) refused_kind by blast
  moreover have "within mailbox maxDelay t"
    using within_steps [OF assms(1) t(1)] withinD(4) [OF assms(1)] t(2) by (simp add: back_from_def)
  ultimately show thesis using that off(2) by (auto simp: back_from_def)
qed

lemma deletion_quietly:
  assumes s: "within mailbox maxDelay s" "off_server s" and work: "work (cs_recv s) = [DeleteRunning m]"
    and order: "map_iteration m order"
    and calls: "doDelete silent_server (deref (rcv (loop (cs_recv s))) m) order = ([], calls)"
  shows "\<exists>t. client_steps mailbox maxDelay s t \<and> off_server t
    \<and> cs_recv t = (cs_recv s)\<lparr>work := [DeleteSending []], stored := stored (cs_recv s) \<union> store_uids calls\<rparr>"
proof -
  let ?l = "loop (cs_recv s)"
  have m: "ptrs_ok (acked (cs_recv s)) (rcv ?l) m"
    using recv_running(2) [OF withinD(1,4) [OF s(1)] work] by simp
  note collected = collected_acked [OF m order]
  have silent: "silent_server = quiet_server None None None"
    by (simp add: silent_server_def quiet_server_def)
  have made: "calls = (if m = Map.empty then [CExpunge]
      else [CUidStore (AddNum order []) (FormatFlagsOp AddFlags False) [DeletedFlag], CExpunge])"
    using calls quiet_delete_calls [OF m order] by (simp add: silent)
  show ?thesis
  proof (cases "m = Map.empty")
    case True
    then have "next_call ?l (DeleteRunning m) [] (ExpungeRequest False)"
      using next_call.only_expunge [OF order] collected iteration_empty [OF order] by simp
    from first_call [OF s work this] answers_kind(4) obtain t e where
      t: "client_steps mailbox maxDelay s t" "cs_recv t = cs_recv s" "\<not> cs_calling t"
        "cs_log t = [(ExpungeRequest False, ErrAnswer e)]" by metis
    have "calls_over ?l (cs_log t) (DeleteRunning m) (DeleteSending []) (store_uids (changes_made (cs_log t)))"
      by (rule calls_over.delete_over [OF order, of _ "quiet_server None None e"])
        (use t True quiet_delete_calls [OF m order] in simp_all)
    from over_step [OF s(2) t(1-3) work this] t(4) made True show ?thesis by simp
  next
    case False
    let ?store = "UidStoreRequest (AddNum order []) (FormatFlagsOp AddFlags False) [DeletedFlag] True"
    have "next_call ?l (DeleteRunning m) [] ?store"
      using next_call.store_call [OF order collected] iteration_empty [OF order] False by simp
    from first_call [OF s work this] answers_kind(3) obtain t err where
      t: "client_steps mailbox maxDelay s t" "cs_recv t = cs_recv s" "\<not> cs_calling t"
        "cs_log t = [(?store, ErrAnswer err)]" "within mailbox maxDelay t" by metis
    have "next_call (loop (cs_recv t)) (DeleteRunning m) (cs_log t) (ExpungeRequest False)"
      by (simp add: t(4) next_call.expunge_call)
    from call_made [OF t(5) _ t(3) this, of "ErrAnswer None"] work t(2) obtain u a' where
      u: "client_steps mailbox maxDelay t u" "back_from (ExpungeRequest False) a' t u"
        "a' = ErrAnswer None \<or> (\<exists>closed. pc_call mailbox True (ExpungeRequest False) = (True, Returns a' closed))"
      by auto
    have "answers (ExpungeRequest False) (ErrAnswer None)" by simp
    with u(3) refused_kind have "answers (ExpungeRequest False) a'" by blast
    then obtain e where log: "cs_log u = [(?store, ErrAnswer err), (ExpungeRequest False, ErrAnswer e)]"
      using u(2) t(4) by (auto simp: back_from_def answers_kind simp del: answers.simps)
    have "calls_over ?l (cs_log u) (DeleteRunning m) (DeleteSending []) (store_uids (changes_made (cs_log u)))"
      by (rule calls_over.delete_over [OF order, of _ "quiet_server None err e"])
        (use log False quiet_delete_calls [OF m order] in simp_all)
    moreover have "client_steps mailbox maxDelay s u" using t(1) u(1) by (rule rtranclp_trans)
    ultimately show ?thesis
      using over_step [OF s(2) _ _ _ work] u(2) t(2) log made False by (auto simp: back_from_def)
  qed
qed

text \<open>What a goroutine does quietly alone, it does quietly on the client.\<close>

lemma quiet_go_lifts:
  assumes s: "within mailbox maxDelay s" "off_server s" and work: "work (cs_recv s) = [g]"
    and "on_server g" and "quiet_go (loop (cs_recv s)) g g' st"
  shows "\<exists>t. client_steps mailbox maxDelay s t \<and> off_server t
    \<and> cs_recv t = (cs_recv s)\<lparr>work := [g'], stored := stored (cs_recv s) \<union> st\<rparr>"
  using assms(5)
proof cases
  case (quiet_idle stop)
  let ?idle = "IdleRequest (Some stop) (Some (idle_options (loop (cs_recv s))))"
  have idle: "next_call (loop (cs_recv s)) g [] ?idle" "answers ?idle (ErrAnswer None)"
    using quiet_idle next_call.idle_call by simp_all
  from first_call [OF s work idle] obtain t a where t: "client_steps mailbox maxDelay s t"
    "cs_recv t = cs_recv s" "\<not> cs_calling t" and "cs_log t = [(?idle, a)]" by blast
  then have "cs_log t \<noteq> []" by simp
  note t = t this
  from over_step [OF s(2) t(1-3) work] calls_over.idle_over [OF t(4)] quiet_idle show ?thesis by blast
next
  case (quiet_fetch existing)
  have status: "next_call (loop (cs_recv s)) g [] MailboxRequest" "answers MailboxRequest (StatusAnswer None)"
    using quiet_fetch next_call.mailbox_call by simp_all
  from first_call [OF s work status] obtain t a where
    t: "client_steps mailbox maxDelay s t" "cs_recv t = cs_recv s" "\<not> cs_calling t"
    and log: "cs_log t = [(MailboxRequest, a)]"
    and a: "a = StatusAnswer None \<or> (\<exists>closed. pc_call mailbox True MailboxRequest = (True, Returns a closed))"
    by blast
  from a have "a = StatusAnswer None \<or> a = StatusAnswer (Some (named_status mailbox))"
    by (auto simp: pc_methods)
  with log obtain st where st: "cs_log t = [(MailboxRequest, StatusAnswer st)]"
    "\<forall>mb. st = Some mb \<longrightarrow> mb_Messages mb = 0" by (auto simp: named_status_def)
  have "calls_over (loop (cs_recv s)) (cs_log t) g g' {}"
    unfolding quiet_fetch(1,2)
  proof (rule calls_over.fetch_none)
    show "\<forall>q. \<not> next_call (loop (cs_recv s)) (FetchRunning existing) (cs_log t) q"
      using st by (auto elim: next_call.cases)
    show "\<forall>x\<in>set (cs_log t). plays (quiet_server st None None) x" using st by simp
    show "doFetch (quiet_server st None None) existing (fetchBufferSize (rcv (loop (cs_recv s)))) [] = (False, [])"
      using st by (auto simp: doFetch_def split: option.splits)
  qed
  from over_step [OF s(2) t(1-3) work this] quiet_fetch show ?thesis by simp
next
  case (quiet_delete m order calls)
  with deletion_quietly [OF s] work show ?thesis by simp
qed (use assms(4) in simp)

lemma quiet_step_lifts:
  assumes s: "within mailbox maxDelay s" "off_server s" and step: "quiet_step (cs_recv s) r"
  shows "\<exists>t. client_steps mailbox maxDelay s t \<and> off_server t \<and> cs_recv t = r"
proof -
  consider (turn) ev where "quiet ev" "recv_turn ev (cs_recv s) r" "sent_by r = sent_by (cs_recv s)"
    | (move) "quiet_work (cs_recv s) r"
    using step by (auto simp: quiet_step_def)
  then show ?thesis
  proof cases
    case turn
    let ?t = "client_turn ev r s"
    have "quiet_client_step mailbox maxDelay s ?t" using turn by (rule quiet_turn)
    with s(2) show ?thesis by (intro exI [of _ ?t]) (auto simp: off_server_def)
  next
    case move
    have ok: "recv_ok (cs_recv s)" by (rule reachable_ok [OF withinD(1,4) [OF s(1)]])
    have single: "ws = [] \<and> vs = []" if "work (cs_recv s) = ws @ g # vs" for ws g vs
      using ok that by (auto simp: recv_ok_def exited_ok_def running_ok_def phase_ok_def
          append_eq_Cons_conv split: if_splits)
    have off: "\<exists>t. client_steps mailbox maxDelay s t \<and> off_server t \<and> cs_recv t = r"
      if "work (cs_recv s) = [g]" "\<not> on_server g" for g
    proof -
      have "quiet_client_step mailbox maxDelay s (s\<lparr>cs_recv := r\<rparr>)"
        by (rule quiet_acts(1) [OF that quiet_work_recv [OF move]])
      with s(2) show ?thesis by (intro exI [of _ "s\<lparr>cs_recv := r\<rparr>"]) (auto simp: off_server_def)
    qed
    from move show ?thesis
    proof cases
      case (quiet_goes_on ws g vs g' st)
      with single have e: "ws = []" "vs = []" by blast+
      show ?thesis
      proof (cases "on_server g")
        case True
        with quiet_go_lifts [OF s _ True quiet_goes_on(3)] quiet_goes_on e show ?thesis by simp
      next
        case False
        with off quiet_goes_on e show ?thesis by simp
      qed
    next
      case (quiet_finishes ws opn vs ch)
      with single have "work (cs_recv s) = [Finishing opn]" by fastforce
      with off show ?thesis by simp
    qed
  qed
qed

lemma quiet_ticks: "quiet_step r r' \<Longrightarrow> ticks r \<le> ticks r'"
  by (auto simp: quiet_step_def dest!: turn_ticks quiet_work_recv elim: recv_workE)

lemma quietly_ticks: "quietly r r' \<Longrightarrow> ticks r \<le> ticks r'"
  by (induction rule: rtranclp_induct) (auto dest: quiet_ticks)

lemma quietly_lifts:
  assumes "quietly (cs_recv s) r" and s: "within mailbox maxDelay s" "off_server s"
    and "4 * ticks r < 2 ^ 64"
  shows "\<exists>t. client_steps mailbox maxDelay s t \<and> off_server t \<and> cs_recv t = r"
  using assms(1,4)
proof (induction rule: rtranclp_induct)
  case base
  with s show ?case by (intro exI [of _ s]) simp
next
  case (step r r')
  have bound: "4 * ticks r < 2 ^ 64" using quiet_ticks [OF step.hyps(2)] step.prems by simp
  from step.IH [OF this] obtain t where
    t: "client_steps mailbox maxDelay s t" "off_server t" "cs_recv t = r" by blast
  have "within mailbox maxDelay t" using within_steps [OF s(1) t(1)] bound t(3) by simp
  from quiet_step_lifts [OF this t(2)] step.hyps(2) t show ?case
    by (metis rtranclp_trans)
qed

end
