(* ===== verification/ClientHang.thy ===== *)
theory ClientHang
  imports ClientQuit
begin

text \<open>
  When a receiver on the persistent client can end, and a run in which it hangs: the
  receiver is asked to quit between the check of the shutdown flag in \<open>Fetch\<close> and the sending
  of the request, and the client takes the logout first.
\<close>

section \<open>When a receiver on the persistent client can end\<close>

lemma doomed_hung:
  assumes s: "within mailbox maxDelay s" and "doomed s"
  shows "hung s"
proof -
  have "cs_calling s" using assms(2) by (simp add: doomed_def)
  with withinD(5) [OF s] obtain g where "server_work (cs_recv s) = Some g"
    by (auto simp: scripted_def split: option.splits)
  then have "status (cs_recv s) = Running \<and> waits (cs_recv s)"
    using on_server_waits [OF withinD(1,4) [OF s]] by (simp add: server_work_Some)
  with assms(2) show ?thesis by (simp add: hung_def)
qed

lemma off_server_exits:
  assumes s: "within mailbox maxDelay s" and "off_server s"
    and bound: "4 * (ticks (cs_recv s) + results_left (cs_recv s) + 5) < (2 :: nat) ^ 64"
    and "status (cs_recv s) = Running" and "flagged WantQuit (loop (cs_recv s))"
  shows "\<exists>t. client_steps mailbox maxDelay s t \<and> status (cs_recv t) = loop_status.Exited"
proof -
  obtain r where r: "quietly (cs_recv s) r" "status r = loop_status.Exited" "4 * ticks r < 2 ^ 64"
    using quitting_exits [OF withinD(1) [OF s] bound assms(4,5)] by blast
  from quietly_lifts [OF r(1) s assms(2) r(3)] r(2) show ?thesis by blast
qed

lemma not_doomed_exits:
  assumes s: "within mailbox maxDelay s" and "\<not> doomed s"
    and bound: "4 * (ticks (cs_recv s) + results_left (cs_recv s) + 6) < (2 :: nat) ^ 64"
    and run: "status (cs_recv s) = Running" "flagged WantQuit (loop (cs_recv s))"
  shows "\<exists>t. client_steps mailbox maxDelay s t \<and> status (cs_recv t) = loop_status.Exited"
proof (cases "server_work (cs_recv s)")
  case None
  with withinD(5) [OF s] have "off_server s" by (simp add: scripted_def off_server_def)
  from off_server_exits [OF s this _ run] bound show ?thesis by simp
next
  case (Some g)
  from goroutine_ends [OF s assms(2) Some] obtain t g' st where
    t: "client_steps mailbox maxDelay s t" "off_server t" "results_of g' \<le> 1"
      "cs_recv t = (cs_recv s)\<lparr>work := [g'], stored := stored (cs_recv s) \<union> st\<rparr>" by blast
  then have "results_left (cs_recv t) \<le> 1" by (simp add: results_left_def)
  with bound t(4) have b: "4 * (ticks (cs_recv t) + results_left (cs_recv t) + 5) < (2 :: nat) ^ 64"
    by simp
  then have "within mailbox maxDelay t" using within_steps [OF s t(1)] by simp
  from off_server_exits [OF this t(2) b] run t(4) obtain u where
    "client_steps mailbox maxDelay t u" "status (cs_recv u) = loop_status.Exited" by auto
  with t(1) show ?thesis by (meson rtranclp_trans)
qed

section \<open>A run that hangs\<close>

definition ex_calls :: "call_state \<Rightarrow> call_state \<Rightarrow> caller \<Rightarrow> call_state" where
  "ex_calls a b = (\<lambda>_. NotCalling)(0 := a, 2 := b)"

lemma ex_calls_simps [simp]:
  "ex_calls a b 0 = a" "ex_calls a b 2 = b" "ex_calls a b (Suc 0) = NotCalling"
  "(ex_calls a b)(0 := x) = ex_calls x b" "(ex_calls a b)(2 := x) = ex_calls a x"
  by (auto simp: ex_calls_def fun_eq_iff)

lemma ex_calls_frame:
  "may_call a \<longrightarrow> a' = a \<Longrightarrow> may_call b \<longrightarrow> b' = b \<Longrightarrow>
    may_call (ex_calls a b i) \<longrightarrow> ex_calls a' b' i = ex_calls a b i"
  by (simp add: ex_calls_def)

definition ex_client :: "run_place \<Rightarrow> runner \<Rightarrow> bool \<Rightarrow> call_state \<Rightarrow> call_state \<Rightarrow> persistent" where
  "ex_client p r sh a b = \<lparr>ps_run = r, ps_place = p, ps_shutdown = sh, ps_closed = False,
     ps_calls = ex_calls a b, ps_stopped = {}\<rparr>"

definition ex_joined :: "recv_sys \<Rightarrow> persistent \<Rightarrow> call_log \<Rightarrow> bool \<Rightarrow> nat \<Rightarrow> client_sys" where
  "ex_joined r c log calling n =
     \<lparr>cs_recv = r, cs_client = c, cs_log = log, cs_calling = calling, cs_logouts = n\<rparr>"

lemma ex_joined_simps [simp]:
  "cs_recv (ex_joined r c log b n) = r" "cs_client (ex_joined r c log b n) = c"
  "cs_log (ex_joined r c log b n) = log" "cs_calling (ex_joined r c log b n) = b"
  "cs_logouts (ex_joined r c log b n) = n"
  by (simp_all add: ex_joined_def)

abbreviation ex_acts :: "client_sys \<Rightarrow> client_sys \<Rightarrow> bool" where
  "ex_acts \<equiv> (client_act ''INBOX'' 0)\<^sup>*\<^sup>*"

lemma ex_act: "ex_acts s t \<Longrightarrow> client_act ''INBOX'' 0 t u \<Longrightarrow> ex_acts s u"
  by (rule rtranclp.rtrancl_into_rtrancl)

lemma ex_move:
  assumes "ex_acts s (ex_joined r (ex_client p rn sh a b) log calling n)"
    and "persistent_step False ''INBOX'' (settled_MaxDelay 0) (ex_client p rn sh a b) (ex_client p' rn' sh' a' b')"
    and "may_call a \<longrightarrow> a' = a" and "may_call b \<longrightarrow> b' = b"
  shows "ex_acts s (ex_joined r (ex_client p' rn' sh' a' b') log calling n)"
proof -
  have "client_moves ''INBOX'' 0 (closed_sigs (sigs (loop r))) (ex_client p rn sh a b) (ex_client p' rn' sh' a' b')"
    using assms(2) ex_calls_frame [OF assms(3,4)] by (simp add: client_moves_def ex_client_def)
  with client_act.act_client [of _ _ "ex_joined r (ex_client p rn sh a b) log calling n"
      "ex_client p' rn' sh' a' b'"]
  have "client_act ''INBOX'' 0 (ex_joined r (ex_client p rn sh a b) log calling n)
      (ex_joined r (ex_client p' rn' sh' a' b') log calling n)"
    by (simp add: ex_joined_def)
  with assms(1) show ?thesis by (rule ex_act)
qed

text \<open>The connection, and the two requests of the fetch.\<close>

definition ex_connected :: runner where
  "ex_connected = \<lparr>rn_state = ClientStateConnected, rn_client = True, rn_nextDelay = second,
     rn_idle = None, rn_stopIdle = None\<rparr>"

definition ex_fetch_request :: pc_request where
  "ex_fetch_request = FetchRequest [mk_seq 1 1] [FetchUid, FetchFlags, FetchRFC822] True"

definition ex_fetch_sys :: recv_sys where
  "ex_fetch_sys = ex_sys (ex_fetching None) [FetchRunning []] {} 1"

definition ex_new :: client_sys where
  "ex_new = ex_joined (recv_start (ex_known None))
     (ex_client AtSelect run_start False NotCalling NotCalling) [] False 0"

definition ex_told :: client_sys where
  "ex_told = ex_joined ex_fetch_sys (ex_client AtSelect run_start False NotCalling NotCalling) [] False 0"

lemma ex_new_init: "client_init ''INBOX'' 0 ex_new"
proof -
  have "cc_Mailbox (rc_Connection ex_config) = ''INBOX''" by (simp add: ex_config_def)
  moreover have "ex_new = \<lparr>cs_recv = recv_start (ex_known None),
      cs_client = snd (persistent_Factory_NewClient 0 (rc_Connection ex_config)),
      cs_log = [], cs_calling = False, cs_logouts = 0\<rparr>"
    by (simp add: ex_new_def ex_joined_def ex_client_def ex_calls_def
        persistent_Factory_NewClient_def persistent_NewClient_def fun_eq_iff)
  ultimately show ?thesis unfolding client_init_def using ex_start by blast
qed

lemma ex_told_turn: "recv_turn (EvUpdate (MailboxUpdate ex_status)) (recv_start (ex_known None)) ex_fetch_sys"
proof (rule recv_turnI [where order = "[]" and ws = "[]"])
  show "ex_fetch_sys = after_turn (EvUpdate (MailboxUpdate ex_status)) []
      (tick [] (EvUpdate (MailboxUpdate ex_status)) (loop (recv_start (ex_known None)))) (recv_start (ex_known None))"
    using ex_turn1 by (simp add: recv_start_def ex_sys_def ex_fetch_sys_def turned_def spawned_work_def)
  show "loop_takes (recv_start (ex_known None)) (EvUpdate (MailboxUpdate ex_status)) []"
    using loop_takes.intros(2) [of "recv_start (ex_known None)"] by (simp add: recv_start_def)
qed (simp_all add: recv_start_def ex_sys_def ex_fetch_sys_def ex_states map_iteration_def)

lemma ex_told_client: "client_turn (EvUpdate (MailboxUpdate ex_status)) ex_fetch_sys ex_new = ex_told"
  by (simp add: client_turn_def ex_new_def ex_told_def ex_joined_def)

text \<open>The client connects, answers the status, and the goroutine enters its fetch.\<close>

definition ex_entered :: client_sys where
  "ex_entered = ex_joined ex_fetch_sys
     (ex_client AtSelect ex_connected False (Checked ex_fetch_request) NotCalling)
     [(MailboxRequest, StatusAnswer (Some ex_status))] True 0"

lemma ex_enters: "ex_acts ex_told ex_entered"
proof -
  let ?C = "\<lambda>p r a. ex_client p r False a NotCalling"
  let ?J = "\<lambda>c log b. ex_joined ex_fetch_sys c log b 0"
  let ?got = "Answered MailboxRequest (StatusAnswer (Some ex_status)) False"
  let ?log = "[(MailboxRequest, StatusAnswer (Some ex_status))]"
  let ?step = "persistent_step False ''INBOX'' (settled_MaxDelay 0)"
  have l: "work ex_fetch_sys = [FetchRunning []]" "loop ex_fetch_sys = ex_fetching None"
    by (simp_all add: ex_fetch_sys_def ex_sys_def)
  have told: "ex_acts ex_told (?J (?C AtSelect run_start NotCalling) [] False)"
    by (simp add: ex_told_def)
  have "?step (?C AtSelect run_start NotCalling) (?C Connecting run_start NotCalling)"
    using persistent_step.disconnected [of "?C AtSelect run_start NotCalling" DelayOver]
    by (simp add: ex_client_def run_start_def)
  from ex_move [OF told this]
  have c: "ex_acts ex_told (?J (?C Connecting run_start NotCalling) [] False)" by simp
  have "?step (?C Connecting run_start NotCalling) (?C AtSelect ex_connected NotCalling)"
    using persistent_step.connect [of "?C Connecting run_start NotCalling" 0 _ _ _ None]
    by (simp add: ex_client_def run_start_def try_connect_def ex_connected_def)
  from ex_move [OF c this]
  have c: "ex_acts ex_told (?J (?C AtSelect ex_connected NotCalling) [] False)" by simp
  have "client_act ''INBOX'' 0 (?J (?C AtSelect ex_connected NotCalling) [] False)
      (?J (?C AtSelect ex_connected (Checked MailboxRequest)) [] True)"
    using client_act.act_enters [of "?J (?C AtSelect ex_connected NotCalling) [] False" "FetchRunning []"
        MailboxRequest] l next_call.mailbox_call
    by (simp add: ex_client_def ex_joined_def enter_call_def pc_methods)
  from ex_act [OF c this]
  have c: "ex_acts ex_told (?J (?C AtSelect ex_connected (Checked MailboxRequest)) [] True)" .
  have "?step (?C AtSelect ex_connected (Checked MailboxRequest))
      (?C AtSelect ex_connected (Offering MailboxRequest))"
    using persistent_step.offer [of "?C AtSelect ex_connected (Checked MailboxRequest)" 0 MailboxRequest]
    by (simp add: ex_client_def)
  from ex_move [OF c this]
  have c: "ex_acts ex_told (?J (?C AtSelect ex_connected (Offering MailboxRequest)) [] True)" by simp
  have "?step (?C AtSelect ex_connected (Offering MailboxRequest))
      (?C (Serving 0 MailboxRequest) ex_connected (Awaiting MailboxRequest))"
    using persistent_step.connected [of "?C AtSelect ex_connected (Offering MailboxRequest)"
        "ConnRequest 0 MailboxRequest"]
    by (simp add: ex_client_def ex_connected_def)
  from ex_move [OF c this]
  have c: "ex_acts ex_told (?J (?C (Serving 0 MailboxRequest) ex_connected (Awaiting MailboxRequest)) [] True)"
    by simp
  have "?step (?C (Serving 0 MailboxRequest) ex_connected (Awaiting MailboxRequest))
      (?C AtSelect ex_connected ?got)"
    using persistent_step.served [of "?C (Serving 0 MailboxRequest) ex_connected (Awaiting MailboxRequest)"
        0 MailboxRequest "StatusAnswer (Some ex_status)"]
    by (simp add: ex_client_def)
  from ex_move [OF c this] have c: "ex_acts ex_told (?J (?C AtSelect ex_connected ?got) [] True)" by simp
  have "client_act ''INBOX'' 0 (?J (?C AtSelect ex_connected ?got) [] True)
      (?J (?C AtSelect ex_connected ?got) ?log False)"
    using client_act.act_returns [of "?J (?C AtSelect ex_connected ?got) [] True" MailboxRequest
        "StatusAnswer (Some ex_status)" False]
    by (simp add: ex_client_def ex_joined_def)
  from ex_act [OF c this] have c: "ex_acts ex_told (?J (?C AtSelect ex_connected ?got) ?log False)" .
  have "next_call (ex_fetching None) (FetchRunning []) ?log ex_fetch_request"
    unfolding ex_fetch_request_def
    by (rule next_call.fetch_call)
      (simp_all add: ex_seqset ex_states SeqSet_Empty_def, simp add: ex_status_def)
  then have "client_act ''INBOX'' 0 (?J (?C AtSelect ex_connected ?got) ?log False)
      (?J (?C AtSelect ex_connected (Checked ex_fetch_request)) ?log True)"
    using client_act.act_enters [of "?J (?C AtSelect ex_connected ?got) ?log False" "FetchRunning []"
        ex_fetch_request] l
    by (simp add: ex_client_def ex_joined_def enter_call_def ex_fetch_request_def pc_methods)
  from ex_act [OF c this] show ?thesis by (simp add: ex_entered_def)
qed

lemma ex_entered_simps [simp]:
  "cs_recv ex_entered = ex_fetch_sys"
  "cs_client ex_entered = ex_client AtSelect ex_connected False (Checked ex_fetch_request) NotCalling"
  by (simp_all add: ex_entered_def)

abbreviation ex_on_client :: "client_sys \<Rightarrow> bool" where
  "ex_on_client \<equiv> on_client ''INBOX'' 0"

lemma ex_acts_run: "ex_acts s t \<Longrightarrow> (client_step ''INBOX'' 0)\<^sup>*\<^sup>* s t"
  by (rule rtranclp_mono [THEN predicate2D]) (auto intro: cs_act)

lemma ex_fetch_entered: "ex_on_client ex_entered"
proof -
  have new: "ex_on_client ex_new" using ex_new_init by (rule reach_init)
  have "client_step ''INBOX'' 0 ex_new ex_told"
    using cs_turn [of "EvUpdate (MailboxUpdate ex_status)" ex_new ex_fetch_sys] ex_told_turn ex_told_client
    by (simp add: ex_new_def)
  from reach_step [of "client_init ''INBOX'' 0", OF new this] ex_acts_run [OF ex_enters]
  show ?thesis by (rule reachable_steps)
qed

text \<open>The loop is asked to quit, and the client takes the logout.\<close>

lemma ex_quit_turn: "\<exists>r. recv_turn EvQuit ex_fetch_sys r \<and> status r = Running
  \<and> flagged WantQuit (loop r) \<and> ticks r = 2 \<and> results_left r = 0 \<and> sent_by r = sent_by ex_fetch_sys"
proof -
  have s: "within ''INBOX'' 0 ex_entered"
    using ex_fetch_entered by (simp add: within_def ex_fetch_sys_def ex_sys_def)
  have w: "work ex_fetch_sys = [FetchRunning []]" "ticks ex_fetch_sys = 1"
    "results_left ex_fetch_sys = 0" by (simp_all add: ex_fetch_sys_def ex_sys_def results_left_def)
  have recv: "reachable recv_init recv_step ex_fetch_sys" using withinD(1) [OF s] by simp
  have run: "status ex_fetch_sys = Running" and waits: "waits ex_fetch_sys"
    using on_server_waits [OF recv _ w(1)] w(2) by simp_all
  have ok: "running_ok ex_fetch_sys" using recv_running(1) [OF recv _ w(1)] w(2) by simp
  obtain r where r: "recv_turn EvQuit ex_fetch_sys r" "status r = loop_status.Exited \<or> status r = Running"
    "ticks r = Suc (ticks ex_fetch_sys)" "results_left r = results_left ex_fetch_sys"
    "sent_by r = sent_by ex_fetch_sys"
    using quit_turn [OF ok run] w(2) by auto
  with waits_turn [OF r(1) waits] have st: "status r = Running" by simp
  have "flagged WantQuit (loop r)" using flag_kept [OF ok _ r(1) st] w(2) by simp
  with r st w(2,3) show ?thesis by auto
qed

lemma ex_leaves:
  "\<exists>s. ex_acts (client_turn EvQuit r ex_entered) s \<and> cs_recv s = r \<and> doomed s"
proof -
  let ?log = "[(MailboxRequest, StatusAnswer (Some ex_status))]"
  let ?C = "\<lambda>p sh b. ex_client p ex_connected sh (Checked ex_fetch_request) b"
  let ?step = "persistent_step False ''INBOX'' (settled_MaxDelay 0)"
  let ?J = "\<lambda>c n. ex_joined r c ?log True n"
  let ?s = "client_turn EvQuit r ex_entered"
  have "?s = ?J (?C AtSelect False NotCalling) 1"
    by (simp add: client_turn_def ex_entered_def ex_joined_def ex_client_def pc_FlagQuit_def)
  then have c: "ex_acts ?s (?J (?C AtSelect False NotCalling) 1)" by simp
  have "client_act ''INBOX'' 0 (?J (?C AtSelect False NotCalling) 1)
      (?J (?C AtSelect True (Checked LogoutRequest)) 0)"
    using client_act.act_logout [of 2 "?J (?C AtSelect False NotCalling) 1"]
    by (simp add: ex_joined_def ex_client_def enter_call_def pc_methods)
  from ex_act [OF c this] have c: "ex_acts ?s (?J (?C AtSelect True (Checked LogoutRequest)) 0)" .
  have "?step (?C AtSelect True (Checked LogoutRequest)) (?C AtSelect True (Offering LogoutRequest))"
    using persistent_step.offer [of "?C AtSelect True (Checked LogoutRequest)" 2 LogoutRequest]
    by (simp add: ex_client_def)
  from ex_move [OF c this] have c: "ex_acts ?s (?J (?C AtSelect True (Offering LogoutRequest)) 0)" by simp
  have "?step (?C AtSelect True (Offering LogoutRequest)) (?C (AtDone 2) True (Awaiting LogoutRequest))"
    using persistent_step.connected [of "?C AtSelect True (Offering LogoutRequest)" "ConnLogoutRequest 2"]
    by (simp add: ex_client_def ex_connected_def)
  from ex_move [OF c this] have c: "ex_acts ?s (?J (?C (AtDone 2) True (Awaiting LogoutRequest)) 0)" by simp
  moreover have "doomed (?J (?C (AtDone 2) True (Awaiting LogoutRequest)) 0)"
    by (simp add: doomed_def ex_client_def leaving_def ex_fetch_request_def)
  ultimately show ?thesis
    by (intro exI [of _ "?J (?C (AtDone 2) True (Awaiting LogoutRequest)) 0"]) simp
qed

lemma ex_doomed: "\<exists>s. ex_on_client s \<and> doomed s \<and> status (cs_recv s) = Running
  \<and> flagged WantQuit (loop (cs_recv s)) \<and> ticks (cs_recv s) = 2 \<and> results_left (cs_recv s) = 0"
proof -
  obtain r where r: "recv_turn EvQuit ex_fetch_sys r" "status r = Running"
    "flagged WantQuit (loop r)" "ticks r = 2" "results_left r = 0"
    using ex_quit_turn by blast
  have "client_step ''INBOX'' 0 ex_entered (client_turn EvQuit r ex_entered)"
    by (rule cs_turn) (use r(1) in simp)
  from reach_step [of "client_init ''INBOX'' 0", OF ex_fetch_entered this]
  have turned: "ex_on_client (client_turn EvQuit r ex_entered)" .
  obtain s where s: "ex_acts (client_turn EvQuit r ex_entered) s" "cs_recv s = r" "doomed s"
    using ex_leaves by blast
  from reachable_steps [OF turned ex_acts_run [OF s(1)]] s(2,3) r(2-5) show ?thesis by auto
qed

section \<open>The characterisation\<close>

text \<open>
  A receiver on the persistent client that was asked to quit can still end if and only if
  its goroutine is not in a doomed call: a fetch or a store that the client has turned away
  while draining, or will because it is past its loop, with the channel of the call left
  open, or a call about to be sent to a client that is gone, which panics. In a doomed call
  the receiver waits for good, so its \<open>Close\<close> never returns. The bound on the iterations
  leaves room for what the receiver has to do until it exits.
\<close>

theorem quit_completes_iff:
  assumes "on_client mailbox maxDelay s" and "maxDelay \<le> 2 ^ 61"
    and "4 * (ticks (cs_recv s) + results_left (cs_recv s) + 6) < (2 :: nat) ^ 64"
    and "status (cs_recv s) = Running" and "flagged WantQuit (loop (cs_recv s))"
  shows "(\<exists>t. (client_step mailbox maxDelay)\<^sup>*\<^sup>* s t \<and> status (cs_recv t) = loop_status.Exited)
    \<longleftrightarrow> \<not> doomed s"
proof
  have s: "within mailbox maxDelay s" using assms(1-3) by (simp add: within_def)
  show "\<exists>t. (client_step mailbox maxDelay)\<^sup>*\<^sup>* s t \<and> status (cs_recv t) = loop_status.Exited"
    if "\<not> doomed s"
    using not_doomed_exits [OF s that assms(3-5)] client_steps_run by blast
  show "\<not> doomed s" if "\<exists>t. (client_step mailbox maxDelay)\<^sup>*\<^sup>* s t \<and> status (cs_recv t) = loop_status.Exited"
    using that hung_for_good doomed_hung [OF s] by (metis hung_def)
qed

theorem quit_completes_iff_witness:
  "\<exists>s. on_client ''INBOX'' 0 s \<and> flagged WantQuit (loop (cs_recv s))
    \<and> \<not> (\<exists>t. (client_step ''INBOX'' 0)\<^sup>*\<^sup>* s t \<and> status (cs_recv t) = loop_status.Exited)"
proof -
  obtain s where s: "ex_on_client s" "doomed s" "status (cs_recv s) = Running"
    "flagged WantQuit (loop (cs_recv s))" "ticks (cs_recv s) = 2" "results_left (cs_recv s) = 0"
    using ex_doomed by blast
  from quit_completes_iff [OF s(1) _ _ s(3,4)] s show ?thesis by auto
qed

end
