(* ===== verification/ProgramClient.thy ===== *)
theory ProgramClient
  imports ProgramClose ClientHang
begin

text \<open>
  The whole program with every receiver on a persistent client, the transport that a pump has
  by default: the receivers, their channels, the pump and the main goroutine as in
  \<open>Program\<close>, the calls of each receiver and its client as in \<open>ReceiverClient\<close>, joined where
  they meet. A turn of a receiver's loop is one step of both; what happens between two turns
  is a step of the receiver on its client; \<open>Close\<close> of a receiver logs the client out and
  comes back when the client has answered. Every run is a run of the program and, for every
  receiver, a run of it on its client.
\<close>

section \<open>The system\<close>

record client_program =
  cp_program :: program
  cp_clients :: "nat \<Rightarrow> client_sys"

definition client_program_init :: "(nat \<Rightarrow> string) \<Rightarrow> duration \<Rightarrow> client_program \<Rightarrow> bool" where
  "client_program_init boxes maxDelay s \<longleftrightarrow> program_init (cp_program s)
     \<and> (\<forall>i. client_init (boxes i) maxDelay (cp_clients s i)
          \<and> ru_sys (pr_units (cp_program s) i) = cs_recv (cp_clients s i))"

definition set_unit :: "nat \<Rightarrow> receiver_unit \<Rightarrow> client_sys \<Rightarrow> client_program \<Rightarrow> client_program" where
  "set_unit i u c s =
     s\<lparr>cp_program := (cp_program s)\<lparr>pr_units := (pr_units (cp_program s))(i := u)\<rparr>,
       cp_clients := (cp_clients s)(i := c)\<rparr>"

lemma set_unit_simps [simp]:
  "cp_program (set_unit i u c s) = (cp_program s)\<lparr>pr_units := (pr_units (cp_program s))(i := u)\<rparr>"
  "cp_clients (set_unit i u c s) = (cp_clients s)(i := c)"
  by (simp_all add: set_unit_def)

text \<open>
  A receiver with its channels and its client: a turn of its loop; what its goroutines,
  logouts and client do between two turns; the call of \<open>Logout\<close> in \<open>Close\<close>, and its end;
  and the moves of \<open>run\<close> and \<open>Close\<close> that neither the loop nor the client takes part in.
\<close>

inductive client_unit_step ::
  "string \<Rightarrow> duration \<Rightarrow> receiver_unit \<times> client_sys \<Rightarrow> receiver_unit \<times> client_sys \<Rightarrow> bool"
  for mailbox :: string and maxDelay :: duration where
  on_turn: "ru_outgoing u = [] \<Longrightarrow> take_event ev u = Some u' \<Longrightarrow> recv_turn ev (ru_sys u) r \<Longrightarrow>
    client_unit_step mailbox maxDelay (u, c)
      (u'\<lparr>ru_sys := r, ru_outgoing := drop (length (sent_by (ru_sys u))) (sent_by r)\<rparr>,
       client_turn ev r c)"
| on_act: "client_act mailbox maxDelay c c' \<Longrightarrow>
    client_unit_step mailbox maxDelay (u, c) (u\<lparr>ru_sys := cs_recv c'\<rparr>, c')"
| logs_out: "ru_close u = ClientLogout \<Longrightarrow> ps_calls (cs_client c) close_caller = NotCalling \<Longrightarrow>
    client_unit_step mailbox maxDelay (u, c) (u, client_close mailbox c)"
| logged_out: "ru_close u = ClientLogout \<Longrightarrow>
    ps_calls (cs_client c) close_caller = Answered q a closed \<Longrightarrow>
    client_unit_step mailbox maxDelay (u, c) (u\<lparr>ru_close := CloseReturned\<rparr>, c)"
| on_own: "unit_step u u' \<Longrightarrow> keeps_client u u' \<Longrightarrow>
    client_unit_step mailbox maxDelay (u, c) (u', c)"

text \<open>The program: its receivers on their clients, and every other step it takes.\<close>

inductive client_program_step ::
  "bool \<Rightarrow> string list \<Rightarrow> (nat \<Rightarrow> string) \<Rightarrow> duration \<Rightarrow> client_program \<Rightarrow> client_program \<Rightarrow> bool"
  for parallel :: bool and targets :: "string list" and boxes :: "nat \<Rightarrow> string" and maxDelay :: duration
where
  cp_unit: "i < length targets \<Longrightarrow>
    client_unit_step (boxes i) maxDelay (pr_units (cp_program s) i, cp_clients s i) (u, c) \<Longrightarrow>
    client_program_step parallel targets boxes maxDelay s (set_unit i u c s)"
| cp_apart: "apart_step parallel targets (cp_program s) p \<Longrightarrow>
    client_program_step parallel targets boxes maxDelay s (s\<lparr>cp_program := p\<rparr>)"

inductive_cases client_program_stepE: "client_program_step parallel targets boxes maxDelay s t"

abbreviation client_runs ::
  "bool \<Rightarrow> string list \<Rightarrow> (nat \<Rightarrow> string) \<Rightarrow> duration \<Rightarrow> client_program \<Rightarrow> bool"
where
  "client_runs parallel targets boxes maxDelay \<equiv>
     reachable (client_program_init boxes maxDelay) (client_program_step parallel targets boxes maxDelay)"

section \<open>Every part runs as before\<close>

lemma act_recv:
  assumes "client_act mailbox maxDelay c c'"
  shows "cs_recv c' = cs_recv c \<or> recv_work (cs_recv c) (cs_recv c')"
  using assms
proof cases
  case (act_over g g' st)
  have "recv_work (cs_recv c) ((cs_recv c)\<lparr>work := [] @ g' # [], stored := stored (cs_recv c) \<union> st\<rparr>)"
    using act_over calls_over_step by (intro goes_on [where g = g]) auto
  with act_over show ?thesis by simp
qed simp_all

lemma unit_alone:
  assumes "client_unit_step mailbox maxDelay (u, c) (u', c')" and "ru_sys u = cs_recv c"
  shows "u' = u \<or> unit_step u u'"
  using assms(1)
proof cases
  case (on_turn ev u'' r)
  with unit_turn [OF on_turn(3-5)] show ?thesis by simp
next
  case on_act
  with act_recv [OF on_act(2)] assms(2) unit_work [of u "cs_recv c'"] show ?thesis by (cases u) auto
next
  case (logged_out q a closed)
  with close_logs_out show ?thesis by simp
qed simp_all

lemma closing_exited:
  "unit_ok A u \<Longrightarrow> ru_close u \<in> {ClientLogout, CloseReturned} \<Longrightarrow> status (ru_sys u) = loop_status.Exited"
  by (auto simp: unit_ok_def close_ok_def)

lemma client_alone:
  assumes "client_unit_step mailbox maxDelay (u, c) (u', c')" and "ru_sys u = cs_recv c"
    and "unit_ok A u"
  shows "c' = c \<or> client_step mailbox maxDelay c c'"
  using assms(1)
proof cases
  case (on_turn ev u'' r)
  with assms(2) show ?thesis by (auto intro: cs_turn)
next
  case on_act
  then show ?thesis by (auto intro: cs_act)
next
  case logs_out
  with closing_exited [OF assms(3)] assms(2) show ?thesis by (auto intro: cs_close)
qed simp_all

lemma unit_agree:
  "client_unit_step mailbox maxDelay (u, c) (u', c') \<Longrightarrow> ru_sys u = cs_recv c \<Longrightarrow> ru_sys u' = cs_recv c'"
  by (cases rule: client_unit_step.cases) (auto simp: keeps_client_def)

text \<open>The parts agree on the state of each receiver.\<close>

definition parts_agree :: "client_program \<Rightarrow> bool" where
  "parts_agree s \<longleftrightarrow> (\<forall>i. ru_sys (pr_units (cp_program s) i) = cs_recv (cp_clients s i))"

lemma program_same_unit: "p\<lparr>pr_units := (pr_units p)(i := pr_units p i)\<rparr> = p"
  by (cases p) simp

lemma step_program:
  assumes agree: "parts_agree s"
    and step: "client_program_step parallel targets boxes maxDelay s t"
  shows "cp_program t = cp_program s \<or> program_step parallel targets (cp_program s) (cp_program t)"
  using step
proof cases
  case (cp_unit i u c)
  have "ru_sys (pr_units (cp_program s) i) = cs_recv (cp_clients s i)"
    using agree by (simp add: parts_agree_def)
  from unit_alone [OF cp_unit(3) this] consider "u = pr_units (cp_program s) i"
    | "unit_step (pr_units (cp_program s) i) u" by blast
  then show ?thesis
  proof cases
    case 1
    then have "cp_program t = cp_program s" using cp_unit(1) by (simp only: set_unit_simps program_same_unit)
    then show ?thesis ..
  next
    case 2
    with cp_unit(1,2) show ?thesis by (simp add: program_step.receiver)
  qed
next
  case (cp_apart p)
  then show ?thesis by (simp add: apart_step_def)
qed

lemma step_client:
  assumes agree: "parts_agree s" and inv: "program_inv targets (cp_program s)"
    and step: "client_program_step parallel targets boxes maxDelay s t"
  shows "cp_clients t j = cp_clients s j \<or> client_step (boxes j) maxDelay (cp_clients s j) (cp_clients t j)"
  using step
proof cases
  case (cp_unit i u c)
  have "ru_sys (pr_units (cp_program s) i) = cs_recv (cp_clients s i)"
    using agree by (simp add: parts_agree_def)
  moreover have "unit_ok (set (dl_acks (pr_pump (cp_program s)) i)) (pr_units (cp_program s) i)"
    using inv by (simp add: program_inv_def)
  ultimately show ?thesis using client_alone [OF cp_unit(3)] cp_unit(1) by auto
qed simp

lemma step_agree:
  assumes agree: "parts_agree s"
    and step: "client_program_step parallel targets boxes maxDelay s t"
  shows "parts_agree t"
  using step
proof cases
  case (cp_unit i u c)
  with agree unit_agree [OF cp_unit(3)] show ?thesis by (auto simp: parts_agree_def)
next
  case (cp_apart p)
  with agree show ?thesis by (simp add: parts_agree_def apart_step_def keeps_client_def)
qed

section \<open>The call of \<open>Close\<close>\<close>

text \<open>Caller 1 is in its call, and back from it, only when \<open>Close\<close> has got there.\<close>

definition not_called_yet :: "receiver_unit \<Rightarrow> call_state \<Rightarrow> bool" where
  "not_called_yet u x \<longleftrightarrow> (ru_close u \<notin> {ClientLogout, CloseReturned} \<longrightarrow> x = NotCalling)"

lemma act_close_caller:
  assumes "client_act mailbox maxDelay c c'" and "ps_calls (cs_client c) close_caller = NotCalling"
  shows "ps_calls (cs_client c') close_caller = NotCalling"
  using assms(1)
proof cases
  case (act_client d)
  with assms(2) show ?thesis by (auto simp: client_moves_def)
qed (use assms(2) in \<open>simp_all add: enter_call_other\<close>)

lemma not_called_step:
  assumes "client_unit_step mailbox maxDelay (u, c) (u', c')"
    and "not_called_yet u (ps_calls (cs_client c) close_caller)"
  shows "not_called_yet u' (ps_calls (cs_client c') close_caller)"
  using assms(1)
proof cases
  case (on_turn ev u'' r)
  with take_event_frame [OF on_turn(4)] assms(2) show ?thesis by (simp add: not_called_yet_def)
next
  case on_act
  with act_close_caller [OF on_act(2)] assms(2) show ?thesis by (auto simp: not_called_yet_def)
next
  case on_own
  with assms(2) unit_step_close(2) [OF on_own(2)] show ?thesis
    by (auto simp: not_called_yet_def keeps_client_def)
qed (use assms(2) in \<open>auto simp: not_called_yet_def\<close>)

lemma apart_close_returned:
  assumes "program_step parallel targets s t" and "program_inv targets s"
    and "ru_close (pr_units s i) = CloseReturned"
  shows "ru_close (pr_units t i) = CloseReturned"
  using assms(1)
proof cases
  case (receiver j u)
  with unit_step_close(2) [OF receiver(3)] assms(3) show ?thesis by auto
next
  case pump_done
  then have "i < length targets \<longrightarrow> ru_close (pr_units s i) = NotClosing"
    using assms(2) by (simp add: program_inv_def main_ok_def)
  with pump_done assms(3) show ?thesis by auto
qed (use assms(3) in auto)

definition close_calls_ok :: "client_program \<Rightarrow> bool" where
  "close_calls_ok s \<longleftrightarrow> (\<forall>i. not_called_yet (pr_units (cp_program s) i)
     (ps_calls (cs_client (cp_clients s i)) close_caller))"

lemma step_close_calls:
  assumes ok: "close_calls_ok s" and inv: "program_inv targets (cp_program s)"
    and step: "client_program_step parallel targets boxes maxDelay s t"
  shows "close_calls_ok t"
  using step
proof cases
  case (cp_unit i u c)
  with ok not_called_step [OF cp_unit(3)] show ?thesis by (simp add: close_calls_ok_def)
next
  case (cp_apart p)
  then have p: "program_step parallel targets (cp_program s) p"
    "\<And>i. keeps_client (pr_units (cp_program s) i) (pr_units p i)" by (simp_all add: apart_step_def)
  then have "not_called_yet (pr_units p i) x" if "not_called_yet (pr_units (cp_program s) i) x" for i x
    using that apart_close_returned [OF p(1) inv] by (auto simp: not_called_yet_def keeps_client_def)
  with ok cp_apart(1) show ?thesis by (simp add: close_calls_ok_def)
qed

section \<open>The invariant\<close>

definition client_program_inv ::
  "bool \<Rightarrow> string list \<Rightarrow> (nat \<Rightarrow> string) \<Rightarrow> duration \<Rightarrow> client_program \<Rightarrow> bool"
where
  "client_program_inv parallel targets boxes maxDelay s \<longleftrightarrow>
     runs parallel targets (cp_program s) \<and> parts_agree s \<and> close_calls_ok s
     \<and> (\<forall>i. on_client (boxes i) maxDelay (cp_clients s i))"

lemma client_program_inv_init:
  assumes "client_program_init boxes maxDelay s"
  shows "client_program_inv parallel targets boxes maxDelay s"
proof -
  have init: "program_init (cp_program s)" and parts: "parts_agree s"
    and each: "\<And>i. client_init (boxes i) maxDelay (cp_clients s i)"
    using assms by (simp_all add: client_program_init_def parts_agree_def)
  have "ps_calls (cs_client (cp_clients s i)) close_caller = NotCalling" for i
    using each [of i]
    by (auto simp: client_init_def persistent_Factory_NewClient_def persistent_NewClient_def)
  then have "close_calls_ok s" by (simp add: close_calls_ok_def not_called_yet_def)
  with parts reach_init [of program_init, OF init] reach_init [of "client_init (boxes i) maxDelay" for i, OF each]
  show ?thesis by (simp add: client_program_inv_def)
qed

lemma client_program_inv_step:
  assumes inv: "client_program_inv parallel targets boxes maxDelay s"
    and step: "client_program_step parallel targets boxes maxDelay s t"
  shows "client_program_inv parallel targets boxes maxDelay t"
proof -
  have run: "runs parallel targets (cp_program s)" and agree: "parts_agree s"
    and clients: "\<And>i. on_client (boxes i) maxDelay (cp_clients s i)" and close: "close_calls_ok s"
    using inv by (simp_all add: client_program_inv_def)
  have pinv: "program_inv targets (cp_program s)" by (rule program.reachable_inv [OF run])
  have "runs parallel targets (cp_program t)"
    using step_program [OF agree step] run reach_step [of program_init, OF run] by auto
  moreover have "on_client (boxes i) maxDelay (cp_clients t i)" for i
    using step_client [OF agree pinv step, of i] clients [of i]
      reach_step [of "client_init (boxes i) maxDelay", OF clients] by auto
  ultimately show ?thesis
    using step_agree [OF agree step] step_close_calls [OF close pinv step]
    by (simp add: client_program_inv_def)
qed

interpretation on_clients: invariant_system "client_program_init boxes maxDelay"
  "client_program_step parallel targets boxes maxDelay" "client_program_inv parallel targets boxes maxDelay"
  for parallel targets boxes maxDelay
  by unfold_locales (auto intro: client_program_inv_init client_program_inv_step)

section \<open>A receiver that hangs\<close>

lemma hung_stays:
  assumes "client_program_step parallel targets boxes maxDelay s t"
    and inv: "client_program_inv parallel targets boxes maxDelay s" and "hung (cp_clients s i)"
  shows "hung (cp_clients t i)"
proof -
  have "parts_agree s" "program_inv targets (cp_program s)"
    using inv program.reachable_inv by (auto simp: client_program_inv_def)
  from step_client [OF this assms(1), of i] assms(3) hung_step show ?thesis by auto
qed

lemma hung_stays_for_good:
  assumes "(client_program_step parallel targets boxes maxDelay)\<^sup>*\<^sup>* s t"
    and "client_program_inv parallel targets boxes maxDelay s" and "hung (cp_clients s i)"
  shows "hung (cp_clients t i)"
  using assms
proof (induction rule: rtranclp_induct)
  case (step y z)
  from on_clients.steps_inv [OF step.hyps(1) step.prems(1)] step show ?case
    by (blast intro: hung_stays)
qed

lemma hung_not_ended:
  assumes inv: "client_program_inv parallel targets boxes maxDelay s"
    and "hung (cp_clients s i)" and "i < length targets"
  shows "pr_main (cp_program s) \<noteq> CommandEnded"
proof
  assume ended: "pr_main (cp_program s) = CommandEnded"
  have agree: "parts_agree s" and pinv: "program_inv targets (cp_program s)"
    using inv program.reachable_inv by (auto simp: client_program_inv_def)
  then have "ru_close (pr_units (cp_program s) i) = CloseReturned"
    and "unit_ok (set (dl_acks (pr_pump (cp_program s)) i)) (pr_units (cp_program s) i)"
    using ended assms(3) by (simp_all add: program_inv_def main_ok_def)
  then have "status (ru_sys (pr_units (cp_program s) i)) = loop_status.Exited"
    using closing_exited by blast
  with agree assms(2) show False by (simp add: parts_agree_def hung_def)
qed

end
