(* ===== verification/ClientLogout.thy ===== *)
theory ClientLogout
  imports ClientQuit
begin

text \<open>
  The log-out of a persistent client that a receiver runs on. Only the call that sets the
  shutdown flag sends a request, so there is never a second one on its way, and the client is
  still in its loop when that one comes: it is always taken and answered, and the \<open>Close\<close> of
  a receiver that has quit comes back.
\<close>

section \<open>At most one request to log out\<close>

definition logout_ok :: "persistent \<Rightarrow> bool" where
  "logout_ok c \<longleftrightarrow>
     (\<forall>i j. in_call (\<lambda>q. q = LogoutRequest) (ps_calls c i) \<longrightarrow>
        in_call (\<lambda>q. q = LogoutRequest) (ps_calls c j) \<longrightarrow> i = j)
     \<and> (\<forall>i. ps_calls c i \<in> {Checked LogoutRequest, Offering LogoutRequest} \<longrightarrow> at_work (ps_place c))"

text \<open>What a step does to the calls: those under way stay, and only the flag lets one in.\<close>

lemma step_logout_calls:
  assumes "persistent_step single mailbox M c d"
    and "in_call (\<lambda>q. q = LogoutRequest) (ps_calls d i)"
  shows "in_call (\<lambda>q. q = LogoutRequest) (ps_calls c i) \<or> \<not> ps_shutdown c
    \<and> ps_place d = ps_place c \<and> (\<forall>j. j \<noteq> i \<longrightarrow> ps_calls d j = ps_calls c j)"
  using assms(1)
proof cases
  case (call_sends j q sh q')
  with assms(2) pc_call_sends [OF call_sends(4)] show ?thesis by (auto split: if_splits)
next
  case (disconnected ev p r as)
  with assms(2) show ?thesis by (cases ev) (auto dest!: end_fake_idle_cases split: if_splits)
next
  case (connected ev p r)
  with assms(2) show ?thesis by (cases ev) (auto split: if_splits)
qed (use assms(2) in \<open>auto simp: step_defs split: if_splits option.splits\<close>)

text \<open>A step that leaves the loop has taken the request; one that waits is not sent again.\<close>

lemma step_leaves:
  assumes "persistent_step single mailbox M c d" and "at_work (ps_place c)"
    and "\<not> at_work (ps_place d)" and "\<forall>m. ps_place d \<noteq> Panicked m"
  shows "\<exists>i. ps_calls c i = Offering LogoutRequest
    \<and> ps_calls d i \<notin> {Checked LogoutRequest, Offering LogoutRequest}"
  using assms(1)
proof cases
  case (disconnected ev p r as)
  have "\<exists>j. ev = DiscLogout j"
    using disconnected assms(3) by (cases ev) (auto simp: at_work_def split: if_splits)
  then obtain j where "ev = DiscLogout j" by blast
  with disconnected show ?thesis
    by (intro exI [of _ j]) (auto dest!: end_fake_idle_cases split: if_splits)
next
  case (connected ev p r)
  have "\<exists>j. ev = ConnLogoutRequest j"
    using connected assms(3) by (cases ev) (auto simp: at_work_def)
  then obtain j where "ev = ConnLogoutRequest j" by blast
  with connected show ?thesis by (intro exI [of _ j]) auto
qed (use assms(2-4) in \<open>auto simp: at_work_def\<close>)

lemma step_sent_once:
  assumes "persistent_step single mailbox M c d"
    and "ps_calls d i \<in> {Checked LogoutRequest, Offering LogoutRequest}"
  shows "ps_calls c i \<noteq> Awaiting LogoutRequest"
proof
  assume "ps_calls c i = Awaiting LogoutRequest"
  with assms show False
  proof cases
    case (disconnected ev p r as)
    with assms(2) \<open>ps_calls c i = Awaiting LogoutRequest\<close> show ?thesis
      by (cases ev) (auto dest!: end_fake_idle_cases split: if_splits)
  next
    case (connected ev p r)
    with assms(2) \<open>ps_calls c i = Awaiting LogoutRequest\<close> show ?thesis
      by (cases ev) (auto split: if_splits)
  qed (auto simp: step_defs split: if_splits option.splits)
qed

lemma logout_ok_step:
  assumes ok: "persistently True mailbox maxDelay c" "maxDelay \<le> 2 ^ 61" and inv: "logout_ok c"
    and step: "persistent_run True mailbox maxDelay c d"
  shows "logout_ok d"
proof -
  let ?logs = "\<lambda>c i. in_call (\<lambda>q. q = LogoutRequest) (ps_calls c i)"
  have flag: "?logs c i \<Longrightarrow> ps_shutdown c" for i
    using persistently_inv(2) [OF ok] by (auto simp: flags_ok_def)
  have unique: "?logs c i \<Longrightarrow> ?logs c j \<Longrightarrow> i = j" for i j using inv by (auto simp: logout_ok_def)
  have "i = j" if "?logs d i" "?logs d j" for i j
    using step_logout_calls [OF step that(1)] step_logout_calls [OF step that(2)] that unique flag by metis
  moreover have "at_work (ps_place d)"
    if i: "ps_calls d i \<in> {Checked LogoutRequest, Offering LogoutRequest}" for i
  proof (rule ccontr)
    assume left: "\<not> at_work (ps_place d)"
    have "?logs d i" using i by auto
    from step_logout_calls [OF step this] consider "?logs c i"
      | "\<not> ps_shutdown c" "ps_place d = ps_place c" by blast
    then show False
    proof cases
      case 1
      then have "ps_calls c i \<in> {Checked LogoutRequest, Offering LogoutRequest}"
        using step_sent_once [OF step i] by (cases "ps_calls c i") auto
      then have "at_work (ps_place c)" using inv by (auto simp: logout_ok_def)
      moreover have "\<forall>m. ps_place d \<noteq> Panicked m"
        using place_cases [OF reach_step [OF ok(1) step] ok(2)] by (auto simp: at_work_def leaving_def)
      ultimately obtain j where "ps_calls c j = Offering LogoutRequest"
        "ps_calls d j \<notin> {Checked LogoutRequest, Offering LogoutRequest}"
        using step_leaves [OF step _ left] by blast
      with unique [OF 1, of j] i show False by auto
    next
      case 2
      with leaving_shut_down [OF ok 2(1)] left show False by simp
    qed
  qed
  ultimately show ?thesis by (simp add: logout_ok_def)
qed

lemma persistently_logout_ok:
  assumes "persistently True mailbox maxDelay c" and "maxDelay \<le> 2 ^ 61"
  shows "logout_ok c"
  using assms(1)
proof (induction rule: reachable.induct)
  case (reach_init c)
  then show ?case
    by (auto simp: logout_ok_def persistent_init_def persistent_NewClient_def)
next
  case (reach_step c d)
  then show ?case using logout_ok_step assms(2) by blast
qed

section \<open>The call of \<open>Close\<close>\<close>

text \<open>Caller 1 only ever logs out, and never sends to a client that is gone.\<close>

definition closer_ok :: "client_sys \<Rightarrow> bool" where
  "closer_ok s \<longleftrightarrow> ps_calls (cs_client s) close_caller = NotCalling
     \<or> request_of (ps_calls (cs_client s) close_caller) = Some LogoutRequest"

lemma moves_panicked:
  assumes "client_moves mailbox maxDelay closed c d" and "ps_calls d i = SendPanicked"
  shows "ps_calls c i = SendPanicked
    \<or> (\<exists>q. ps_calls c i \<in> {Checked q, Offering q} \<and> ps_closed c)"
proof -
  have frame: "may_call (ps_calls c i) \<longrightarrow> ps_calls d i = ps_calls c i"
    and step: "persistent_step False mailbox (settled_MaxDelay maxDelay) c d"
    using assms(1) by (simp_all add: client_moves_def)
  have reply: "reply closes a x = SendPanicked \<longleftrightarrow> x = SendPanicked" for closes a x by (cases x) simp_all
  from step show ?thesis
  proof cases
    case (disconnected ev p r as)
    with assms(2) reply show ?thesis
      by (cases ev) (auto dest!: end_fake_idle_cases split: if_splits)
  next
    case (connected ev p r)
    with assms(2) show ?thesis by (cases ev) (auto split: if_splits)
  qed (use assms(2) frame reply in \<open>auto simp: step_defs split: if_splits option.splits\<close>)
qed

lemma closer_moves:
  assumes ok: "persistently True mailbox maxDelay c" "maxDelay \<le> 2 ^ 61"
    and moves: "client_moves mailbox maxDelay closed c d"
    and req: "request_of (ps_calls c i) = Some LogoutRequest"
  shows "request_of (ps_calls d i) = Some LogoutRequest"
proof -
  have "ps_calls d i \<noteq> SendPanicked"
  proof
    assume "ps_calls d i = SendPanicked"
    from moves_panicked [OF moves this] req obtain q where
      q: "ps_calls c i \<in> {Checked q, Offering q}" "ps_closed c" by auto
    with req have "ps_calls c i \<in> {Checked LogoutRequest, Offering LogoutRequest}" by auto
    then have "at_work (ps_place c)"
      using persistently_logout_ok [OF ok] by (auto simp: logout_ok_def)
    with q(2) open_unless_exited [OF ok] show False by (auto simp: at_work_def)
  qed
  with client_moves_request [OF moves, of i] req show ?thesis by auto
qed

lemma on_client_closer_ok:
  assumes "on_client mailbox maxDelay s" and M: "maxDelay \<le> 2 ^ 61"
  shows "closer_ok s"
  using assms(1)
proof (induction rule: reachable.induct)
  case (reach_init s)
  then show ?case
    by (auto simp: closer_ok_def client_init_def persistent_Factory_NewClient_def persistent_NewClient_def)
next
  case (reach_step s t)
  have client: "persistently True mailbox maxDelay (cs_client s)"
    using joined.reachable_inv [OF reach_step(1)] by (simp add: joined_inv_def)
  from reach_step(2) show ?case
  proof cases
    case cs_act
    then show ?thesis
    proof cases
      case (act_client c)
      have "ps_calls (cs_client s) close_caller = NotCalling \<Longrightarrow> ps_calls c close_caller = NotCalling"
        using act_client(2) by (auto simp: client_moves_def)
      with closer_moves [OF client M act_client(2), of close_caller] reach_step(3) act_client(1)
      show ?thesis by (auto simp: closer_ok_def)
    qed (use reach_step(3) in \<open>simp_all add: closer_ok_def enter_call_other\<close>)
  qed (use reach_step(3) in \<open>simp_all add: closer_ok_def\<close>)
qed

section \<open>It is answered\<close>

lemma logout_done:
  assumes "ps_place c = AtDone i" and "ps_calls c i = Awaiting LogoutRequest"
  shows "\<exists>d. drifts mailbox maxDelay c d \<and> ps_calls d i = Answered LogoutRequest (ErrAnswer None) False"
proof -
  let ?d = "c\<lparr>ps_place := Draining, ps_run := (ps_run c)\<lparr>rn_client := False\<rparr>, ps_shutdown := True,
    ps_calls := replies [(i, ErrAnswer None)] (ps_calls c)\<rparr>"
  have "persistent_step False mailbox (settled_MaxDelay maxDelay) c ?d"
    by (rule at_done [OF assms(1)]) (simp add: run_done_def)
  then have "client_moves mailbox maxDelay {} c ?d" by (rule kept_moves) (simp add: kept_def)
  with assms(2) show ?thesis by (intro exI [of _ ?d]) auto
qed

lemma logout_taken:
  assumes "ready c" and "ps_calls c i = Offering LogoutRequest"
  shows "\<exists>d. drifts mailbox maxDelay c d \<and> ps_calls d i = Answered LogoutRequest (ErrAnswer None) False"
proof -
  let ?d = "c\<lparr>ps_place := AtDone i, ps_run := ps_run c,
    ps_calls := conn_take (ConnLogoutRequest i) (ps_calls c)\<rparr>"
  have "persistent_step False mailbox (settled_MaxDelay maxDelay) c ?d"
    by (rule connected [where ev = "ConnLogoutRequest i"]) (use assms in \<open>auto simp: ready_def\<close>)
  then have "client_moves mailbox maxDelay {} c ?d"
    using assms(2) by (auto simp: client_moves_def)
  moreover obtain e where "drifts mailbox maxDelay ?d e"
    "ps_calls e i = Answered LogoutRequest (ErrAnswer None) False"
    using logout_done [of ?d i] by auto
  ultimately show ?thesis by (blast intro: converse_rtranclp_into_rtranclp)
qed

lemma logout_ends:
  assumes ok: "persistently True mailbox maxDelay c" "maxDelay \<le> 2 ^ 61"
    and req: "request_of (ps_calls c i) = Some LogoutRequest"
  shows "\<exists>d a closed. drifts mailbox maxDelay c d \<and> ps_calls d i = Answered LogoutRequest a closed"
proof -
  consider (answered) a closed where "ps_calls c i = Answered LogoutRequest a closed"
    | (waiting) "ps_calls c i = Awaiting LogoutRequest"
    | (calling) "ps_calls c i \<in> {Checked LogoutRequest, Offering LogoutRequest}"
    using req by (cases "ps_calls c i") auto
  then show ?thesis
  proof cases
    case waiting
    have "waiting_at c i" using persistently_inv(3) [OF ok] by (simp add: waiting_ok_def)
    with waiting have "attended (ps_place c) (ps_run c) i = Some LogoutRequest"
      by (auto simp: waiting_at_def)
    then consider "ps_place c = AtDone i" | "ps_place c = Serving i LogoutRequest"
      by (cases "ps_place c") (auto split: if_splits option.splits)
    then show ?thesis
    proof cases
      case 1
      with logout_done waiting show ?thesis by blast
    next
      case 2
      let ?d = "c\<lparr>ps_place := AtSelect, ps_calls := replies [(i, ErrAnswer None)] (ps_calls c)\<rparr>"
      have "persistent_step False mailbox (settled_MaxDelay maxDelay) c ?d"
        by (rule served [OF 2]) simp
      then have "client_moves mailbox maxDelay {} c ?d" by (rule kept_moves) (simp add: kept_def)
      with waiting show ?thesis by (intro exI [of _ ?d]) auto
    qed
  next
    case calling
    then have "at_work (ps_place c)" using persistently_logout_ok [OF ok] by (auto simp: logout_ok_def)
    from gets_ready [OF ok this] obtain d where
      d: "drifts mailbox maxDelay c d" "ready d" "kept c d" by blast
    have same: "ps_calls d i = ps_calls c i" using kept_call [OF d(3)] calling by auto
    have open_d: "\<not> ps_closed d"
      using open_unless_exited [OF drifts_persistently [OF d(1) ok(1)] ok(2)] d(2) by (simp add: ready_def)
    show ?thesis
    proof (cases "ps_calls d i = Offering LogoutRequest")
      case True
      from logout_taken [OF d(2) True] d(1) show ?thesis by (blast intro: rtranclp_trans)
    next
      case False
      with calling same have "ps_calls d i = Checked LogoutRequest" by simp
      note offered = offer_moves [OF this open_d, of mailbox maxDelay]
      have "ready (d\<lparr>ps_calls := (ps_calls d)(i := Offering LogoutRequest)\<rparr>)"
        using d(2) by (simp add: ready_def)
      from logout_taken [OF this, of i mailbox maxDelay] obtain e where
        "drifts mailbox maxDelay (d\<lparr>ps_calls := (ps_calls d)(i := Offering LogoutRequest)\<rparr>) e"
        "ps_calls e i = Answered LogoutRequest (ErrAnswer None) False" by auto
      with offered d(1) show ?thesis
        by (blast intro: rtranclp_trans converse_rtranclp_into_rtranclp)
    qed
  qed blast
qed

end
