(* ===== verification/ClientClose.thy ===== *)
theory ClientClose
  imports ProgramClient ClientLogout
begin

text \<open>
  When the program ends whose receivers run on persistent clients: the closing of one receiver
  with its client, of all of them, and of the ingest client; and the states from which the end
  is never reached.
\<close>

section \<open>A receiver that is being closed\<close>

abbreviation unit_steps ::
  "string \<Rightarrow> duration \<Rightarrow> receiver_unit \<times> client_sys \<Rightarrow> receiver_unit \<times> client_sys \<Rightarrow> bool"
where
  "unit_steps mailbox maxDelay \<equiv> (client_unit_step mailbox maxDelay)\<^sup>*\<^sup>*"

definition unit_inv ::
  "(u32 \<times> go_error option) set \<Rightarrow> string \<Rightarrow> duration \<Rightarrow> receiver_unit \<times> client_sys \<Rightarrow> bool"
where
  "unit_inv A mailbox maxDelay x \<longleftrightarrow> unit_ok A (fst x) \<and> asked (fst x)
     \<and> ru_sys (fst x) = cs_recv (snd x) \<and> on_client mailbox maxDelay (snd x)"

lemma unit_inv_step:
  assumes "unit_inv A mailbox maxDelay x" and step: "client_unit_step mailbox maxDelay x y"
  shows "unit_inv A mailbox maxDelay y"
proof -
  obtain u c u' c' where e: "x = (u, c)" "y = (u', c')" by (cases x, cases y) blast
  have u: "unit_ok A u" "asked u" "ru_sys u = cs_recv c" and c: "on_client mailbox maxDelay c"
    using assms(1) e by (simp_all add: unit_inv_def)
  note step = step [unfolded e]
  have "unit_ok A u' \<and> asked u'"
    using unit_alone [OF step u(3)] u unit_step_ok unit_step_asked by blast
  moreover have "on_client mailbox maxDelay c'"
    using client_alone [OF step u(3,1)] c reach_step [of "client_init mailbox maxDelay", OF c] by auto
  ultimately show ?thesis using unit_agree [OF step u(3)] e by (simp add: unit_inv_def)
qed

lemma unit_inv_steps:
  assumes "unit_steps mailbox maxDelay x y" and "unit_inv A mailbox maxDelay x"
  shows "unit_inv A mailbox maxDelay y"
  using assms by (induction rule: rtranclp_induct) (auto intro: unit_inv_step)

lemma same_sys: "ru_sys u = r \<Longrightarrow> u\<lparr>ru_sys := r\<rparr> = u"
  by (cases u) simp

lemma quiet_client_unit:
  assumes "quiet_client_step mailbox maxDelay c c'" and "ru_sys u = cs_recv c" and "ru_outgoing u = []"
  shows "client_unit_step mailbox maxDelay (u, c) (u\<lparr>ru_sys := cs_recv c'\<rparr>, c')"
  using assms(1)
proof cases
  case quiet_act
  then show ?thesis by (rule on_act)
next
  case (quiet_turn ev r)
  have "take_event ev u = Some u" using quiet_turn(2) by (cases ev) (simp_all add: take_event_def)
  from on_turn [OF assms(3) this, of r mailbox maxDelay c] quiet_turn assms(2,3)
    nothing_out [of "u\<lparr>ru_sys := r\<rparr>"] show ?thesis by simp
qed

lemma client_steps_unit:
  assumes "client_steps mailbox maxDelay c c'" and "ru_sys u = cs_recv c" and "ru_outgoing u = []"
  shows "unit_steps mailbox maxDelay (u, c) (u\<lparr>ru_sys := cs_recv c'\<rparr>, c')"
  using assms(1)
proof (induction rule: rtranclp_induct)
  case base
  with same_sys [OF assms(2)] show ?case by simp
next
  case (step d e)
  have "client_unit_step mailbox maxDelay (u\<lparr>ru_sys := cs_recv d\<rparr>, d) (u\<lparr>ru_sys := cs_recv e\<rparr>, e)"
    using quiet_client_unit [OF step.hyps(2), of "u\<lparr>ru_sys := cs_recv d\<rparr>"] assms(3) by simp
  with step.IH show ?case by (rule rtranclp.rtrancl_into_rtrancl)
qed

text \<open>The bound leaves room for what the receiver has to do until it exits.\<close>

definition far_on_client :: "client_sys \<Rightarrow> bool" where
  "far_on_client c \<longleftrightarrow> 4 * (ticks (cs_recv c) + results_left (cs_recv c) + 7) < (2 :: nat) ^ 64"

lemma flagged_exits_on_client:
  assumes "on_client mailbox maxDelay c" and "maxDelay \<le> 2 ^ 61" and "\<not> doomed c"
    and "4 * (ticks (cs_recv c) + results_left (cs_recv c) + 6) < (2 :: nat) ^ 64"
    and "status (cs_recv c) = Running" and "flagged WantQuit (loop (cs_recv c))"
    and "ru_sys u = cs_recv c" and "ru_outgoing u = []"
  shows "\<exists>u' c'. unit_steps mailbox maxDelay (u, c) (u', c') \<and> status (cs_recv c') = loop_status.Exited
    \<and> ru_close u' = ru_close u \<and> ru_outgoing u' = []"
proof -
  have "within mailbox maxDelay c" using assms(1,2,4) by (simp add: within_def)
  from not_doomed_exits [OF this assms(3-6)] obtain c' where
    c': "client_steps mailbox maxDelay c c'" "status (cs_recv c') = loop_status.Exited" by blast
  from client_steps_unit [OF c'(1) assms(7,8)] c'(2) assms(8) show ?thesis
    by (intro exI [of _ "u\<lparr>ru_sys := cs_recv c'\<rparr>"] exI [of _ c']) simp
qed

lemma exits_on_client:
  assumes inv: "unit_inv A mailbox maxDelay (u, c)" and M: "maxDelay \<le> 2 ^ 61" and "\<not> doomed c"
    and close: "ru_close u = AwaitingQuit" and far: "far_on_client c" and out: "ru_outgoing u = []"
  shows "\<exists>u' c'. unit_steps mailbox maxDelay (u, c) (u', c') \<and> status (cs_recv c') = loop_status.Exited
    \<and> ru_close u' = AwaitingQuit \<and> ru_outgoing u' = []"
proof (cases "status (cs_recv c) = Running")
  case True
  have u: "asked u" "ru_sys u = cs_recv c" and c: "on_client mailbox maxDelay c"
    using inv by (simp_all add: unit_inv_def)
  have reach: "recv_reachable (cs_recv c)" using u by (simp add: asked_def)
  have bound: "4 * Suc (ticks (cs_recv c)) < (2 :: nat) ^ 64" using far by (simp add: far_on_client_def)
  have running: "running_ok (cs_recv c)"
    using reachable_ok [OF reach] bound True by (auto simp: recv_ok_def)
  show ?thesis
  proof (cases "flagged WantQuit (loop (cs_recv c))")
    case flagged: True
    from flagged_exits_on_client [OF c M assms(3) _ True flagged u(2) out] far close show ?thesis
      by (simp add: far_on_client_def)
  next
    case False
    then have "cbuf (ru_wantQuit u) \<noteq> []" using u True bound close by (auto simp: asked_def)
    then obtain ch where ch: "take_event EvQuit u = Some (u\<lparr>ru_wantQuit := ch\<rparr>)"
      by (cases "cbuf (ru_wantQuit u)") (auto simp: take_event_def chan_recv_def)
    obtain r where r: "recv_turn EvQuit (cs_recv c) r" "status r = loop_status.Exited \<or> status r = Running"
      "ticks r = Suc (ticks (cs_recv c))" "results_left r = results_left (cs_recv c)"
      "sent_by r = sent_by (cs_recv c)"
      using quit_turn [OF running True] far by (auto simp: far_on_client_def)
    let ?u = "u\<lparr>ru_wantQuit := ch, ru_sys := r\<rparr>" and ?c = "client_turn EvQuit r c"
    have step: "client_unit_step mailbox maxDelay (u, c) (?u, ?c)"
      using on_turn [OF out ch, of r mailbox maxDelay c] r(1,5) u(2) nothing_out [of ?u] out by simp
    show ?thesis
    proof (cases "status r = loop_status.Exited")
      case True
      with step close out show ?thesis by (intro exI [of _ ?u] exI [of _ ?c]) auto
    next
      case False
      then have run: "status r = Running" using r(2) by simp
      have flag: "flagged WantQuit (loop r)" using flag_kept [OF running bound r(1) run] by simp
      have "on_client mailbox maxDelay ?c"
        using unit_inv_step [OF inv step] by (simp add: unit_inv_def)
      moreover have "\<not> doomed ?c" using assms(3) by (simp add: doomed_def)
      moreover have "4 * (ticks (cs_recv ?c) + results_left (cs_recv ?c) + 6) < (2 :: nat) ^ 64"
        using far r(3,4) by (simp add: far_on_client_def)
      ultimately obtain u' c' where "unit_steps mailbox maxDelay (?u, ?c) (u', c')"
        "status (cs_recv c') = loop_status.Exited" "ru_close u' = ru_close ?u" "ru_outgoing u' = []"
        using flagged_exits_on_client [of mailbox maxDelay ?c ?u] M run flag out by auto
      with converse_rtranclp_into_rtranclp [of "client_unit_step mailbox maxDelay", OF step] close show ?thesis by auto
    qed
  qed
next
  case False
  have "recv_reachable (cs_recv c)" using inv by (auto simp: unit_inv_def asked_def)
  moreover have "4 * ticks (cs_recv c) < (2 :: nat) ^ 64" using far by (simp add: far_on_client_def)
  ultimately have "status (cs_recv c) = loop_status.Exited"
    using reachable_ok [of "cs_recv c"] False by (auto simp: recv_ok_def)
  with close out show ?thesis by (intro exI [of _ u] exI [of _ c]) simp
qed

text \<open>The last call of \<open>Close\<close>.\<close>

lemma logs_out_on_client:
  assumes inv: "unit_inv A mailbox maxDelay (u, c)" and M: "maxDelay \<le> 2 ^ 61"
    and close: "ru_close u = ClientLogout" and out: "ru_outgoing u = []"
  shows "\<exists>u' c'. unit_steps mailbox maxDelay (u, c) (u', c') \<and> ru_close u' = CloseReturned"
proof -
  obtain d where d: "unit_steps mailbox maxDelay (u, c) (u, d)"
    "request_of (ps_calls (cs_client d) close_caller) = Some LogoutRequest"
  proof (cases "ps_calls (cs_client c) close_caller = NotCalling")
    case True
    from logs_out [OF close True] that [of "client_close mailbox c"] show thesis by auto
  next
    case False
    have "closer_ok c" using on_client_closer_ok [OF _ M] inv by (auto simp: unit_inv_def)
    with False that [of c] show thesis by (simp add: closer_ok_def)
  qed
  have inv': "unit_inv A mailbox maxDelay (u, d)" by (rule unit_inv_steps [OF d(1) inv])
  then have "persistently True mailbox maxDelay (cs_client d)"
    using joined.reachable_inv by (auto simp: unit_inv_def joined_inv_def)
  from logout_ends [OF this M d(2)] obtain e a closed where
    e: "drifts mailbox maxDelay (cs_client d) e" "ps_calls e close_caller = Answered LogoutRequest a closed"
    by blast
  let ?e = "d\<lparr>cs_client := e\<rparr>"
  have sys: "ru_sys u = cs_recv d" using inv' by (simp add: unit_inv_def)
  have "unit_steps mailbox maxDelay (u, d) (u, ?e)"
    using client_steps_unit [OF sys_moves [OF e(1)] sys out] same_sys [OF sys] by simp
  moreover have "client_unit_step mailbox maxDelay (u, ?e) (u\<lparr>ru_close := CloseReturned\<rparr>, ?e)"
    by (rule logged_out [OF close]) (use e(2) in simp)
  ultimately have "unit_steps mailbox maxDelay (u, c) (u\<lparr>ru_close := CloseReturned\<rparr>, ?e)"
    using d(1) by (meson rtranclp.rtrancl_into_rtrancl rtranclp_trans)
  then show ?thesis by (intro exI conjI) (assumption, simp)
qed

lemma closes_once_exited:
  assumes inv: "unit_inv A mailbox maxDelay (u, c)" and M: "maxDelay \<le> 2 ^ 61"
    and close: "ru_close u = AwaitingQuit" and out: "ru_outgoing u = []"
    and st: "status (cs_recv c) = loop_status.Exited"
  shows "\<exists>u' c'. unit_steps mailbox maxDelay (u, c) (u', c') \<and> ru_close u' = CloseReturned"
proof -
  have hq: "ccap (ru_hasQuit u) = 1" "\<not> cclosed (ru_hasQuit u)"
    "cbuf (ru_hasQuit u) = (if ru_returned u then [()] else [])" and sys: "ru_sys u = cs_recv c"
    using inv close by (auto simp: unit_inv_def unit_ok_def close_ok_def)
  obtain x where x: "unit_steps mailbox maxDelay (u, c) (x, c)" "cbuf (ru_hasQuit x) = [()]"
    "ru_close x = AwaitingQuit" "ru_outgoing x = []"
  proof (cases "ru_returned u")
    case True
    with hq(3) close out that [of u] show thesis by simp
  next
    case False
    with hq(3) have "cbuf (ru_hasQuit u) = []" by simp
    from run_returns [OF _ False chan_one_send [OF hq(1,2) this]] st sys
    have "client_unit_step mailbox maxDelay (u, c)
        (u\<lparr>ru_hasQuit := (ru_hasQuit u)\<lparr>cbuf := [()]\<rparr>, ru_returned := True\<rparr>, c)"
      by (intro on_own) (simp_all add: keeps_client_def)
    with that [of "u\<lparr>ru_hasQuit := (ru_hasQuit u)\<lparr>cbuf := [()]\<rparr>, ru_returned := True\<rparr>"] close out
    show thesis by auto
  qed
  then obtain ch where "chan_recv (ru_hasQuit x) = Completes (Some (), ch)"
    by (simp add: chan_recv_def)
  from close_reads [OF x(3) this]
  have "client_unit_step mailbox maxDelay (x, c) (x\<lparr>ru_hasQuit := ch, ru_close := ClientLogout\<rparr>, c)"
    using x(3) by (intro on_own) (simp_all add: keeps_client_def)
  with x(1) have steps: "unit_steps mailbox maxDelay (u, c) (x\<lparr>ru_hasQuit := ch, ru_close := ClientLogout\<rparr>, c)"
    by (rule rtranclp.rtrancl_into_rtrancl)
  from logs_out_on_client [OF unit_inv_steps [OF steps inv] M] x(4) steps show ?thesis
    by (auto intro: rtranclp_trans)
qed

lemma closes_on_client:
  assumes inv: "unit_inv A mailbox maxDelay (u, c)" and M: "maxDelay \<le> 2 ^ 61" and "\<not> doomed c"
    and close: "ru_close u \<noteq> NotClosing" and far: "far_on_client c" and out: "ru_outgoing u = []"
  shows "\<exists>u' c'. unit_steps mailbox maxDelay (u, c) (u', c') \<and> ru_close u' = CloseReturned"
proof -
  have awaiting: "\<exists>u' c'. unit_steps mailbox maxDelay (v, c) (u', c') \<and> ru_close u' = CloseReturned"
    if v: "unit_inv A mailbox maxDelay (v, c)" "ru_close v = AwaitingQuit" "ru_outgoing v = []" for v
  proof -
    from exits_on_client [OF v(1) M assms(3) v(2) far v(3)] obtain w d where
      w: "unit_steps mailbox maxDelay (v, c) (w, d)" "status (cs_recv d) = loop_status.Exited"
      "ru_close w = AwaitingQuit" "ru_outgoing w = []" by blast
    from closes_once_exited [OF unit_inv_steps [OF w(1) v(1)] M w(3,4,2)] w(1) show ?thesis
      by (meson rtranclp_trans)
  qed
  show ?thesis
  proof (cases "ru_close u")
    case WritingQuit
    then have "ccap (ru_wantQuit u) = 1" "\<not> cclosed (ru_wantQuit u)" "cbuf (ru_wantQuit u) = []"
      using inv by (auto simp: unit_inv_def unit_ok_def close_ok_def)
    from close_writes [OF WritingQuit chan_one_send [OF this]] obtain ch where
      "unit_step u (u\<lparr>ru_wantQuit := ch, ru_close := AwaitingQuit\<rparr>)" by blast
    then have step: "client_unit_step mailbox maxDelay (u, c) (u\<lparr>ru_wantQuit := ch, ru_close := AwaitingQuit\<rparr>, c)"
      using WritingQuit by (intro on_own) (simp_all add: keeps_client_def)
    from awaiting [OF unit_inv_step [OF inv step]] out show ?thesis
      by (auto intro: converse_rtranclp_into_rtranclp [of "client_unit_step mailbox maxDelay", OF step])
  next
    case AwaitingQuit
    with awaiting inv out show ?thesis by blast
  next
    case ClientLogout
    from logs_out_on_client [OF inv M this out] show ?thesis .
  next
    case CloseReturned
    then show ?thesis by blast
  qed (use close in simp)
qed

section \<open>Closing the receivers of the program\<close>

abbreviation client_program_steps ::
  "bool \<Rightarrow> string list \<Rightarrow> (nat \<Rightarrow> string) \<Rightarrow> duration \<Rightarrow> client_program \<Rightarrow> client_program \<Rightarrow> bool"
where
  "client_program_steps parallel targets boxes maxDelay \<equiv>
     (client_program_step parallel targets boxes maxDelay)\<^sup>*\<^sup>*"

lemma set_same_unit: "set_unit i (pr_units (cp_program s) i) (cp_clients s i) s = s"
  by (cases s) (simp add: set_unit_def program_same_unit)

lemma set_unit_twice: "set_unit i u c (set_unit i u' c' s) = set_unit i u c s"
  by (simp add: set_unit_def)

lemma unit_steps_program:
  assumes "unit_steps (boxes i) maxDelay (pr_units (cp_program s) i, cp_clients s i) x"
    and "i < length targets"
  shows "client_program_steps parallel targets boxes maxDelay s (set_unit i (fst x) (snd x) s)"
  using assms(1)
proof (induction rule: rtranclp_induct)
  case base
  show ?case by (simp add: set_same_unit)
next
  case (step y z)
  let ?s = "set_unit i (fst y) (snd y) s"
  have "client_program_step parallel targets boxes maxDelay ?s (set_unit i (fst z) (snd z) ?s)"
    by (rule cp_unit [OF assms(2)]) (use step.hyps(2) in simp)
  with step.IH show ?case by (simp add: set_unit_twice)
qed

lemma apart_steps_program:
  assumes "apart_steps parallel targets (cp_program s) p"
  shows "client_program_steps parallel targets boxes maxDelay s (s\<lparr>cp_program := p\<rparr>)"
  using assms
proof (induction rule: rtranclp_induct)
  case (step p q)
  have "client_program_step parallel targets boxes maxDelay (s\<lparr>cp_program := p\<rparr>)
      (s\<lparr>cp_program := p\<rparr>\<lparr>cp_program := q\<rparr>)"
    by (rule cp_apart) (use step.hyps(2) in simp)
  with step.IH show ?case by simp
qed simp

lemma client_invD:
  assumes "client_program_inv parallel targets boxes maxDelay s"
  shows "runs parallel targets (cp_program s)" and "parts_agree s"
    and "program_inv targets (cp_program s)" and "closing_inv targets (cp_program s)"
    and "unit_inv (set (dl_acks (pr_pump (cp_program s)) i)) (boxes i) maxDelay
      (pr_units (cp_program s) i, cp_clients s i)"
proof -
  show run: "runs parallel targets (cp_program s)" and agree: "parts_agree s"
    using assms by (simp_all add: client_program_inv_def)
  show pinv: "program_inv targets (cp_program s)" by (rule program.reachable_inv [OF run])
  show closing: "closing_inv targets (cp_program s)" by (rule closing.reachable_inv [OF run])
  show "unit_inv (set (dl_acks (pr_pump (cp_program s)) i)) (boxes i) maxDelay
      (pr_units (cp_program s) i, cp_clients s i)"
    using assms agree pinv closing
    by (simp add: unit_inv_def client_program_inv_def parts_agree_def closing_inv_def program_inv_def)
qed

text \<open>Nothing but unit \<open>i\<close>, its channel and its client changes.\<close>

definition only_on_client :: "nat \<Rightarrow> client_program \<Rightarrow> client_program \<Rightarrow> bool" where
  "only_on_client i s t \<longleftrightarrow> only i (cp_program s) (cp_program t)
     \<and> (\<forall>j. j \<noteq> i \<longrightarrow> cp_clients t j = cp_clients s j)"

lemma receiver_closes_on_client:
  assumes inv: "client_program_inv parallel targets boxes maxDelay s" and M: "maxDelay \<le> 2 ^ 61"
    and main: "pr_main (cp_program s) = InClose" and i: "i < length targets"
    and free: "receiver_free (cp_program s) i" and ok: "\<not> doomed (cp_clients s i)"
    and far: "far_on_client (cp_clients s i)"
  shows "\<exists>t. client_program_steps parallel targets boxes maxDelay s t \<and> only_on_client i s t
    \<and> ru_close (pr_units (cp_program t) i) = CloseReturned"
proof -
  obtain p where p: "apart_steps parallel targets (cp_program s) p" "only i (cp_program s) p"
    "pr_units p i = (pr_units (cp_program s) i)\<lparr>ru_outgoing := []\<rparr>"
    using hands_all_out [OF i free] by blast
  let ?t = "s\<lparr>cp_program := p\<rparr>"
  have st: "client_program_steps parallel targets boxes maxDelay s ?t"
    by (rule apart_steps_program [OF p(1)])
  note t = client_invD [OF on_clients.steps_inv [OF st inv]]
  have "ru_close (pr_units p i) \<noteq> NotClosing"
    using t(3) p(2) main i by (auto simp: program_inv_def main_ok_def only_def)
  with closes_on_client [OF t(5) [of i, simplified] M] ok far p(3) obtain u c where
    u: "unit_steps (boxes i) maxDelay (pr_units p i, cp_clients s i) (u, c)" "ru_close u = CloseReturned"
    by auto
  have "client_program_steps parallel targets boxes maxDelay ?t (set_unit i u c ?t)"
    using unit_steps_program [of boxes i maxDelay ?t "(u, c)"] u(1) i by simp
  with st have "client_program_steps parallel targets boxes maxDelay s (set_unit i u c ?t)"
    by (rule rtranclp_trans)
  moreover have "only_on_client i s (set_unit i u c ?t)"
    using p(2) by (simp add: only_on_client_def only_def)
  ultimately show ?thesis using u(2) by (intro exI [of _ "set_unit i u c ?t"]) simp
qed

lemma receivers_close_on_client:
  assumes inv: "client_program_inv parallel targets boxes maxDelay s" and M: "maxDelay \<le> 2 ^ 61"
    and main: "pr_main (cp_program s) = InClose"
    and each: "\<forall>i < length targets. receiver_free (cp_program s) i \<and> \<not> doomed (cp_clients s i)
      \<and> far_on_client (cp_clients s i)"
    and "k \<le> length targets"
  shows "\<exists>t. client_program_steps parallel targets boxes maxDelay s t \<and> pr_main (cp_program t) = InClose
    \<and> dl_pump (pr_pump (cp_program t)) = dl_pump (pr_pump (cp_program s))
    \<and> dl_ig (pr_pump (cp_program t)) = dl_ig (pr_pump (cp_program s))
    \<and> dl_responses (pr_pump (cp_program t)) = dl_responses (pr_pump (cp_program s))
    \<and> (\<forall>i < k. ru_close (pr_units (cp_program t) i) = CloseReturned)
    \<and> (\<forall>i \<ge> k. cp_clients t i = cp_clients s i \<and> pr_units (cp_program t) i = pr_units (cp_program s) i
         \<and> dl_incoming (pr_pump (cp_program t)) i = dl_incoming (pr_pump (cp_program s)) i)"
  using assms(5)
proof (induction k)
  case 0
  with main show ?case by blast
next
  case (Suc k)
  then obtain t where t: "client_program_steps parallel targets boxes maxDelay s t"
    "pr_main (cp_program t) = InClose"
    "dl_pump (pr_pump (cp_program t)) = dl_pump (pr_pump (cp_program s))"
    "dl_ig (pr_pump (cp_program t)) = dl_ig (pr_pump (cp_program s))"
    "dl_responses (pr_pump (cp_program t)) = dl_responses (pr_pump (cp_program s))"
    "\<forall>i < k. ru_close (pr_units (cp_program t) i) = CloseReturned"
    "\<forall>i \<ge> k. cp_clients t i = cp_clients s i \<and> pr_units (cp_program t) i = pr_units (cp_program s) i
      \<and> dl_incoming (pr_pump (cp_program t)) i = dl_incoming (pr_pump (cp_program s)) i"
    by auto
  have k: "k < length targets" "receiver_free (cp_program t) k" "\<not> doomed (cp_clients t k)"
    "far_on_client (cp_clients t k)"
    using Suc.prems each t(7) by (simp_all add: receiver_free_def)
  obtain u where u: "client_program_steps parallel targets boxes maxDelay t u" "only_on_client k t u"
    "ru_close (pr_units (cp_program u) k) = CloseReturned"
    using receiver_closes_on_client [OF on_clients.steps_inv [OF t(1) inv] M t(2) k] by blast
  have only: "only k (cp_program t) (cp_program u)" "\<And>j. j \<noteq> k \<Longrightarrow> cp_clients u j = cp_clients t j"
    using u(2) by (simp_all add: only_on_client_def)
  have "\<forall>i < Suc k. ru_close (pr_units (cp_program u) i) = CloseReturned"
    using only(1) u(3) t(6) by (auto simp: only_def less_Suc_eq)
  moreover have "client_program_steps parallel targets boxes maxDelay s u"
    using t(1) u(1) by (rule rtranclp_trans)
  moreover have "\<forall>i \<ge> Suc k. cp_clients u i = cp_clients s i
    \<and> pr_units (cp_program u) i = pr_units (cp_program s) i
    \<and> dl_incoming (pr_pump (cp_program u)) i = dl_incoming (pr_pump (cp_program s)) i"
    using only t(7) by (simp add: only_def)
  ultimately show ?case using only(1) t(2-5) by (intro exI [of _ u]) (simp add: only_def)
qed

section \<open>The end, and what never ends\<close>

lemma close_completes_on_client:
  assumes inv: "client_program_inv parallel targets boxes maxDelay s" and M: "maxDelay \<le> 2 ^ 61"
    and main: "pr_main (cp_program s) = InClose"
    and each: "\<forall>i < length targets. receiver_free (cp_program s) i \<and> \<not> doomed (cp_clients s i)
      \<and> far_on_client (cp_clients s i)"
    and free: "ingest_free (pr_pump (cp_program s))"
  shows "\<exists>t. client_program_steps parallel targets boxes maxDelay s t \<and> pr_main (cp_program t) = CommandEnded"
proof -
  obtain t where t: "client_program_steps parallel targets boxes maxDelay s t"
    "pr_main (cp_program t) = InClose"
    "dl_pump (pr_pump (cp_program t)) = dl_pump (pr_pump (cp_program s))"
    "dl_ig (pr_pump (cp_program t)) = dl_ig (pr_pump (cp_program s))"
    "dl_responses (pr_pump (cp_program t)) = dl_responses (pr_pump (cp_program s))"
    and closed: "\<forall>i < length targets. ru_close (pr_units (cp_program t) i) = CloseReturned"
    using receivers_close_on_client [OF inv M main each order_refl] by blast
  have pump: "dl_pump (pr_pump (cp_program s)) = Returned"
    using client_invD(3) [OF inv] main by (simp add: program_inv_def main_ok_def)
  let ?p = "(cp_program t)\<lparr>pr_ingest_quit := True\<rparr>"
  have "program_step parallel targets (cp_program t) ?p"
    by (rule ingest_close) (use t(2) closed in simp_all)
  then have 1: "apart_step parallel targets (cp_program t) ?p" by (simp add: apart_step_def)
  have "ProgramClose.ending (ig_phase (dl_ig (pr_pump ?p))) ?p" using t pump by (simp add: ProgramClose.ending_def)
  moreover have "ingest_free (pr_pump ?p)"
    using free ingest_free_cong [of "pr_pump (cp_program t)" "pr_pump (cp_program s)"] t(4,5) by simp
  ultimately have "ends parallel targets ?p" by (rule ingest_ends)
  then obtain v where v: "apart_steps parallel targets ?p v" "ProgramClose.ending Finished v" "pr_units v = pr_units ?p"
    by (auto simp: ends_def)
  have "program_step parallel targets v (v\<lparr>pr_main := CommandEnded\<rparr>)"
    by (rule close_returns) (use v(2,3) closed in \<open>simp_all add: ProgramClose.ending_def\<close>)
  then have "apart_step parallel targets v (v\<lparr>pr_main := CommandEnded\<rparr>)" by (simp add: apart_step_def)
  with v(1) 1 have "apart_steps parallel targets (cp_program t) (v\<lparr>pr_main := CommandEnded\<rparr>)"
    by (meson converse_rtranclp_into_rtranclp rtranclp.rtrancl_into_rtrancl)
  from rtranclp_trans [OF t(1) apart_steps_program [OF this]] show ?thesis
    by (intro exI conjI) (assumption, simp)
qed

lemma steps_of_program:
  assumes "client_program_steps parallel targets boxes maxDelay s t"
    and "client_program_inv parallel targets boxes maxDelay s"
  shows "(program_step parallel targets)\<^sup>*\<^sup>* (cp_program s) (cp_program t)"
  using assms
proof (induction rule: rtranclp_induct)
  case (step y z)
  from on_clients.steps_inv [OF step.hyps(1) step.prems] have "parts_agree y"
    by (rule client_invD(2))
  from step_program [OF this step.hyps(2)] step show ?case
    by (auto intro: rtranclp.rtrancl_into_rtrancl)
qed simp

lemma ended_was_free:
  assumes inv: "client_program_inv parallel targets boxes maxDelay s"
    and main: "pr_main (cp_program s) = InClose"
    and "client_program_steps parallel targets boxes maxDelay s t"
    and "pr_main (cp_program t) = CommandEnded"
  shows "ingest_free (pr_pump (cp_program s)) \<and> (\<forall>i < length targets. receiver_free (cp_program s) i)"
proof -
  note s = client_invD(3,4) [OF inv]
  have run: "(program_step parallel targets)\<^sup>*\<^sup>* (cp_program s) (cp_program t)"
    by (rule steps_of_program [OF assms(3) inv])
  have "dl_pump (pr_pump (cp_program s)) = Returned"
    using s(1) main by (simp add: program_inv_def main_ok_def)
  moreover have "\<not> stuck_somewhere targets (cp_program s)"
    using stuck_steps [OF run s(2)] stuck_not_ended [OF closing.steps_inv [OF run s(2)]] assms(4) by blast
  ultimately show ?thesis by (auto simp: stuck_somewhere_def)
qed

end
