(* ===== verification/ProgramHang.thy ===== *)
theory ProgramHang
  imports ClientClose
begin

text \<open>
  The properties of the whole program on persistent clients, and a run of it that never ends:
  the program is told to stop while a receiver is about to send a fetch to its client.
\<close>

section \<open>A run that never ends\<close>

abbreviation ex_client_runs :: "client_program \<Rightarrow> bool" where
  "ex_client_runs \<equiv> client_runs True [''INBOX''] (\<lambda>_. ''INBOX'') 0"

definition ex_joint :: "program \<Rightarrow> client_sys \<Rightarrow> client_program" where
  "ex_joint p c = \<lparr>cp_program = p, cp_clients = (\<lambda>_. ex_new)(0 := c)\<rparr>"

lemma ex_joint_simps [simp]:
  "cp_program (ex_joint p c) = p" "cp_clients (ex_joint p c) = (\<lambda>_. ex_new)(0 := c)"
  by (simp_all add: ex_joint_def)

lemma ex_joint_unit:
  assumes "ex_client_runs (ex_joint p c)" and "unit_steps ''INBOX'' 0 (pr_units p 0, c) (u, c')"
  shows "ex_client_runs (ex_joint (p\<lparr>pr_units := (pr_units p)(0 := u)\<rparr>) c')"
proof -
  have "client_program_steps True [''INBOX''] (\<lambda>_. ''INBOX'') 0 (ex_joint p c)
      (set_unit 0 u c' (ex_joint p c))"
    using unit_steps_program [of "\<lambda>_. ''INBOX''" 0 0 "ex_joint p c" "(u, c')" "[''INBOX'']"] assms(2) by simp
  from reachable_steps [OF assms(1) this] show ?thesis by (simp add: set_unit_def ex_joint_def)
qed

lemma ex_joint_apart:
  assumes "ex_client_runs (ex_joint p c)" and "apart_steps True [''INBOX''] p q"
  shows "ex_client_runs (ex_joint q c)"
proof -
  have "client_program_steps True [''INBOX''] (\<lambda>_. ''INBOX'') 0 (ex_joint p c)
      ((ex_joint p c)\<lparr>cp_program := q\<rparr>)"
    by (rule apart_steps_program) (use assms(2) in simp)
  from reachable_steps [OF assms(1) this] show ?thesis by (simp add: ex_joint_def)
qed

lemma ex_acts_unit:
  assumes "ex_acts c c'" and "ru_sys u = cs_recv c" and "ru_outgoing u = []"
  shows "unit_steps ''INBOX'' 0 (u, c) (u\<lparr>ru_sys := cs_recv c'\<rparr>, c')"
proof -
  have "client_steps ''INBOX'' 0 c c'"
    using assms(1) by (rule rtranclp_mono [THEN predicate2D, rotated]) (auto intro: quiet_act)
  from client_steps_unit [OF this assms(2,3)] show ?thesis .
qed

text \<open>The receiver is told of a message, and its goroutine enters the fetch.\<close>

abbreviation ex_idle_pump :: delivery where
  "ex_idle_pump \<equiv> ex_delivery Selecting Waiting [] [] [] [] []"

lemma ex_joint_start:
  "ex_client_runs (ex_joint (ex_program (ex_unit (recv_start (ex_known None)) [] []) ex_idle_pump) ex_new)"
proof (rule reach_init)
  have "cs_recv ex_new = recv_start (ex_known None)" by (simp add: ex_new_def)
  with ex_program_init ex_new_init
  show "client_program_init (\<lambda>_. ''INBOX'') 0
      (ex_joint (ex_program (ex_unit (recv_start (ex_known None)) [] []) ex_idle_pump) ex_new)"
    by (simp add: client_program_init_def ex_program_def new_unit_def)
qed

lemma ex_joint_entered:
  "ex_client_runs (ex_joint (ex_program (ex_unit ex_fetch_sys [] []) ex_idle_pump) ex_entered)"
proof -
  let ?u = "ex_unit (recv_start (ex_known None)) [] []" and ?v = "ex_unit ex_fetch_sys [] []"
  have "take_event (EvUpdate (MailboxUpdate ex_status)) ?u = Some ?u" by (simp add: take_event_def)
  from on_turn [OF _ this, of ex_fetch_sys "''INBOX''" 0 ex_new] ex_told_turn
  have "client_unit_step ''INBOX'' 0 (?u, ex_new)
      (?u\<lparr>ru_sys := ex_fetch_sys, ru_outgoing := drop 0 (sent_by ex_fetch_sys)\<rparr>, ex_told)"
    by (simp add: ex_told_client ex_unit_def sent_by_def recv_start_def ex_states)
  moreover have "sent_by ex_fetch_sys = []"
    by (simp add: sent_by_def ex_fetch_sys_def ex_sys_def ex_states)
  ultimately have "client_unit_step ''INBOX'' 0 (?u, ex_new) (?v, ex_told)" by (simp add: ex_unit_def)
  moreover have "ru_sys ?v = cs_recv ex_told" by (simp add: ex_told_def)
  from ex_acts_unit [OF ex_enters this] have "unit_steps ''INBOX'' 0 (?v, ex_told) (?v, ex_entered)"
    by (simp add: ex_unit_def)
  ultimately have "unit_steps ''INBOX'' 0 (?u, ex_new) (?v, ex_entered)"
    by (rule converse_rtranclp_into_rtranclp)
  with ex_joint_unit [OF ex_joint_start, of ?v ex_entered] show ?thesis
    by (simp add: ex_program_def)
qed

text \<open>
  The pump returns and the parts are closed; the loop takes the request to quit, and the client
  takes the logout before the fetch.
\<close>

lemma ex_close_doomed:
  obtains s where "ex_client_runs s" and "pr_main (cp_program s) = InClose"
    and "doomed (cp_clients s 0)" and "ticks (cs_recv (cp_clients s 0)) = 2"
    and "results_left (cs_recv (cp_clients s 0)) = 0"
proof -
  let ?u = "ex_unit ex_fetch_sys [] []" and ?p = "ex_closing [''INBOX''] (ex_unit ex_fetch_sys [] []) ex_idle_pump"
  let ?w = "?u\<lparr>ru_close := WritingQuit\<rparr>"
  have closing: "ex_client_runs (ex_joint ?p ex_entered)"
    by (rule ex_joint_apart [OF ex_joint_entered ex_closing_steps]) (simp_all add: ex_unit_def)
  have w: "pr_units ?p 0 = ?w" by (simp add: ex_closing_def ex_program_def)
  let ?x = "?w\<lparr>ru_wantQuit := \<lparr>cbuf = [()], ccap = 1, cclosed = False\<rparr>, ru_close := AwaitingQuit\<rparr>"
  have "unit_step ?w ?x"
    by (rule close_writes) (simp_all add: ex_unit_def make_chan_def chan_send_def)
  then have 1: "client_unit_step ''INBOX'' 0 (?w, ex_entered) (?x, ex_entered)"
    by (rule on_own) (simp add: keeps_client_def)
  obtain r where r: "recv_turn EvQuit ex_fetch_sys r" "ticks r = 2" "results_left r = 0"
    "sent_by r = sent_by ex_fetch_sys"
    using ex_quit_turn by blast
  let ?y = "?x\<lparr>ru_wantQuit := make_chan 1, ru_sys := r, ru_outgoing := []\<rparr>"
  have "take_event EvQuit ?x = Some (?x\<lparr>ru_wantQuit := make_chan 1\<rparr>)"
    by (simp add: take_event_def chan_recv_def make_chan_def)
  from on_turn [OF _ this, of r "''INBOX''" 0 ex_entered] r(1,4)
  have 2: "client_unit_step ''INBOX'' 0 (?x, ex_entered) (?y, client_turn EvQuit r ex_entered)" by simp
  obtain c where c: "ex_acts (client_turn EvQuit r ex_entered) c" "cs_recv c = r" "doomed c"
    using ex_leaves by blast
  from ex_acts_unit [OF c(1), of ?y]
  have "unit_steps ''INBOX'' 0 (?y, client_turn EvQuit r ex_entered) (?y\<lparr>ru_sys := cs_recv c\<rparr>, c)" by simp
  with 1 2 have "unit_steps ''INBOX'' 0 (pr_units ?p 0, ex_entered) (?y\<lparr>ru_sys := cs_recv c\<rparr>, c)"
    unfolding w by (meson converse_rtranclp_into_rtranclp)
  from ex_joint_unit [OF closing this] show thesis
    by (rule that) (use c(2,3) r(2,3) in \<open>simp_all add: ex_closing_def\<close>)
qed

section \<open>Properties\<close>

text \<open>
  C11: the whole program with its receivers on persistent clients refines its parts: whatever the
  order of their steps, its run is one of the program, so all that is proved of that holds
  with the transport a pump has by default; and each receiver, and the client it calls, runs
  as it does alone. The goroutine of the client never panics, because its callers ask for one
  IDLE at a time.
\<close>

theorem program_on_clients_refines:
  assumes "client_runs parallel targets boxes maxDelay s" and "maxDelay \<le> 2 ^ 61"
  shows "runs parallel targets (cp_program s)
    \<and> ru_sys (pr_units (cp_program s) i) = cs_recv (cp_clients s i)
    \<and> recv_reachable (cs_recv (cp_clients s i))
    \<and> persistently True (boxes i) maxDelay (cs_client (cp_clients s i))
    \<and> ps_place (cs_client (cp_clients s i)) \<noteq> Panicked m"
proof -
  have inv: "client_program_inv parallel targets boxes maxDelay s"
    by (rule on_clients.reachable_inv [OF assms(1)])
  then have "on_client (boxes i) maxDelay (cp_clients s i)" by (simp add: client_program_inv_def)
  then have c: "recv_reachable (cs_recv (cp_clients s i))"
    "persistently True (boxes i) maxDelay (cs_client (cp_clients s i))"
    using joined.reachable_inv by (auto simp: joined_inv_def)
  moreover have "ps_place (cs_client (cp_clients s i)) \<noteq> Panicked m"
    using persistently_inv(1) [OF c(2) assms(2)] by (auto simp: runner_ok_def)
  ultimately show ?thesis using client_invD(1,2) [OF inv] by (simp add: parts_agree_def)
qed

theorem program_on_clients_refines_witness:
  "runs True [''INBOX''] (ex_program (ex_unit ex_fetch_sys [] []) ex_idle_pump)
    \<and> recv_reachable ex_fetch_sys"
  using program_on_clients_refines [OF ex_joint_entered, of 0] by simp

text \<open>
  C8: with receivers on persistent clients, once the parts are being closed, the command can end
  if and only if every receiver has room for the messages it still hands out, the ingest
  client for its last response, and no goroutine of a receiver is in a doomed call: one that
  its client turned away, or will because it is past its loop, without closing the channel
  the goroutine reads, or one about to be sent to a client that is gone, which panics. The
  bound on the iterations leaves room for what the receivers have to do until they exit.
\<close>

theorem close_on_clients_completes_iff:
  assumes "client_runs parallel targets boxes maxDelay s" and "maxDelay \<le> 2 ^ 61"
    and "pr_main (cp_program s) = InClose"
    and "\<forall>i < length targets. 4 * (ticks (cs_recv (cp_clients s i))
      + results_left (cs_recv (cp_clients s i)) + 7) < (2 :: nat) ^ 64"
  shows "(\<exists>t. (client_program_step parallel targets boxes maxDelay)\<^sup>*\<^sup>* s t
      \<and> pr_main (cp_program t) = CommandEnded)
    \<longleftrightarrow> ingest_free (pr_pump (cp_program s))
      \<and> (\<forall>i < length targets. receiver_free (cp_program s) i \<and> \<not> doomed (cp_clients s i))"
proof
  have inv: "client_program_inv parallel targets boxes maxDelay s"
    by (rule on_clients.reachable_inv [OF assms(1)])
  show "\<exists>t. client_program_steps parallel targets boxes maxDelay s t \<and> pr_main (cp_program t) = CommandEnded"
    if "ingest_free (pr_pump (cp_program s))
      \<and> (\<forall>i < length targets. receiver_free (cp_program s) i \<and> \<not> doomed (cp_clients s i))"
    using close_completes_on_client [OF inv assms(2,3)] that assms(4) by (simp add: far_on_client_def)
  assume "\<exists>t. client_program_steps parallel targets boxes maxDelay s t \<and> pr_main (cp_program t) = CommandEnded"
  then obtain t where t: "client_program_steps parallel targets boxes maxDelay s t"
    "pr_main (cp_program t) = CommandEnded" by blast
  have "\<not> doomed (cp_clients s i)" if i: "i < length targets" for i
  proof
    assume "doomed (cp_clients s i)"
    moreover have "within (boxes i) maxDelay (cp_clients s i)"
      using inv assms(2,4) i by (auto simp: within_def client_program_inv_def)
    ultimately have "hung (cp_clients s i)" using doomed_hung by blast
    from hung_not_ended [OF on_clients.steps_inv [OF t(1) inv] hung_stays_for_good [OF t(1) inv this] i] t(2)
    show False by simp
  qed
  with ended_was_free [OF inv assms(3) t] show "ingest_free (pr_pump (cp_program s))
      \<and> (\<forall>i < length targets. receiver_free (cp_program s) i \<and> \<not> doomed (cp_clients s i))" by simp
qed

theorem close_on_clients_completes_iff_witness:
  "\<exists>s. client_runs True [''INBOX''] (\<lambda>_. ''INBOX'') 0 s \<and> pr_main (cp_program s) = InClose
    \<and> \<not> (\<exists>t. (client_program_step True [''INBOX''] (\<lambda>_. ''INBOX'') 0)\<^sup>*\<^sup>* s t
          \<and> pr_main (cp_program t) = CommandEnded)"
proof -
  obtain s where s: "ex_client_runs s" "pr_main (cp_program s) = InClose" "doomed (cp_clients s 0)"
    "ticks (cs_recv (cp_clients s 0)) = 2" "results_left (cs_recv (cp_clients s 0)) = 0"
    by (rule ex_close_doomed)
  from close_on_clients_completes_iff [OF s(1) _ s(2)] s show ?thesis by auto
qed

end
