(* ===== verification/ShutdownClient.thy ===== *)
theory ShutdownClient
  imports PersistentSafety ReceiverImap
begin

text \<open>
  The contract of a client that the receiver relies on, with the two clients that keep it,
  and the receiver's work on a persistent client that is shut down. Quitting makes the receiver
  call \<open>FlagQuit\<close>, which for this client is a logout running beside it, while the receiver
  still starts the deletions that wait.
\<close>

section \<open>The contract of a client\<close>

text \<open>
  What the receiver's goroutines rely on: a method that returns has an answer of its kind,
  and has closed the channel it was given, which \<open>doFetch\<close> and \<open>doDelete\<close> read to its end
  before they look at the error. \<open>serves q a closed\<close> says that a call may return so.
\<close>

locale imap_client =
  fixes serves :: "pc_request \<Rightarrow> answer \<Rightarrow> bool \<Rightarrow> bool"
  assumes serves_answers: "serves q a closed \<Longrightarrow> answers q a"
    and serves_closes: "serves q a closed \<Longrightarrow> result_channel q \<Longrightarrow> closed"
begin

lemma fetch_released:
  "serves (FetchRequest seqset items True) a closed \<Longrightarrow> closed \<and> (\<exists>err. a = ErrAnswer err)"
  using serves_answers [of "FetchRequest seqset items True" a closed]
    serves_closes [of "FetchRequest seqset items True" a closed]
  by (cases a) auto

lemma store_released:
  "serves (UidStoreRequest seqset item vals True) a closed \<Longrightarrow> closed \<and> (\<exists>err. a = ErrAnswer err)"
  using serves_answers [of "UidStoreRequest seqset item vals True" a closed]
    serves_closes [of "UidStoreRequest seqset item vals True" a closed]
  by (cases a) auto

end

text \<open>The plain client hands the call to go-imap, whose methods close the channel on return.\<close>

definition plain_serves :: "pc_request \<Rightarrow> answer \<Rightarrow> bool \<Rightarrow> bool" where
  "plain_serves q a closed \<longleftrightarrow> answers q a \<and> closed = result_channel q"

interpretation plain_client: imap_client plain_serves
  by unfold_locales (simp_all add: plain_serves_def)

text \<open>The persistent client keeps the contract until its goroutine drains.\<close>

definition persistent_serves :: "bool \<Rightarrow> string \<Rightarrow> pc_request \<Rightarrow> answer \<Rightarrow> bool \<Rightarrow> bool" where
  "persistent_serves single mailbox q a closed \<longleftrightarrow>
     (\<exists>s i. persistently single mailbox 0 s \<and> ps_calls s i = Answered q a closed
        \<and> ps_place s \<notin> {Draining, Exited})"

lemma persistent_serves_answered:
  assumes "persistent_serves single mailbox q a closed"
  shows "answers q a \<and> closed = result_channel q"
proof -
  obtain s i where s: "persistently single mailbox 0 s" "ps_calls s i = Answered q a closed"
    "ps_place s \<notin> {Draining, Exited}"
    using assms by (auto simp: persistent_serves_def)
  have "answered_at (ps_place s) (ps_calls s i)"
    using persistently_inv(4) [OF s(1)] by (simp add: answered_ok_def)
  with s(2,3) show ?thesis by simp
qed

interpretation persistent_client: imap_client "persistent_serves single mailbox" for single mailbox
  by unfold_locales (auto dest: persistent_serves_answered)

text \<open>So a reader of either client's channel is released, as long as none drains.\<close>

lemmas readers_released = plain_client.fetch_released plain_client.store_released
  persistent_client.fetch_released persistent_client.store_released

section \<open>A client that is shut down\<close>

text \<open>What the methods of the client answer once its shutdown flag is set.\<close>

definition error_of :: "call_start \<Rightarrow> go_error option" where
  "error_of c = (case c of Returns (ErrAnswer e) _ \<Rightarrow> e | _ \<Rightarrow> None)"

definition shut_down_answers :: "string \<Rightarrow> server_answers" where
  "shut_down_answers mailbox =
     \<lparr>sv_Mailbox = (case pc_Mailbox mailbox True of Returns (StatusAnswer st) _ \<Rightarrow> st | _ \<Rightarrow> None),
      sv_Fetch = (\<lambda>seqset items. ([], error_of (pc_Fetch True seqset items True))),
      sv_UidStore = (\<lambda>seqset item vals. ([], error_of (pc_UidStore True seqset item vals True))),
      sv_Expunge = error_of (pc_Expunge True False)\<rparr>"

lemma collect_acked:
  assumes "\<forall>uid\<in>set order. ms_State (the (toProcess uid)) = StateAcked"
  shows "snd (snd (collect_deletions toProcess order toDelete deleteSet sent)) = sent"
  using assms by (induction order arbitrary: toDelete deleteSet) (simp_all add: Let_def)

lemma no_answers: "fst (goimap_command uid seqset ([], err)) = []"
  by (simp add: goimap_command_def)



end
