(* ===== verification/Spec2Isabelle.thy ===== *)
theory Spec2Isabelle
  imports ProgramDeadlock Startup SeqSetText ReceiverBook ProgramHang ShutdownClient
begin

text \<open>
  MailPump watches mailboxes over IMAP, appends every message it finds to a mailbox of
  another server, and deletes the originals once they have been delivered. This library
  models the program and proves what keeps mail from being lost, and where it can be
  delivered twice, to the wrong place, or not at all.

  Parts and their interaction. A receiver (\<open>receiver/\<close>) watches one source: its main loop
  \<open>run\<close> starts one goroutine at a time to IDLE, fetch or delete, hands the messages it
  fetched to its outgoing channel, and deletes them after they were acknowledged. The pump
  (\<open>pump/\<close> for one source, \<open>multipump/\<close> for several) takes messages from the receivers,
  passes each to the ingest client (\<open>ingest/\<close>), which appends it on the destination, and
  acknowledges it to its receiver with the outcome. Receivers and ingest talk to their
  servers through a client of the interface \<open>imap.Client\<close>, either the plain one
  (\<open>imap/client/\<close>) or the one that reconnects (\<open>imap/persistentclient/\<close>), with an
  authenticator (\<open>imap/authenticator.go\<close>). The commands (\<open>cmd/run\<close>, \<open>cmd/run-multi\<close>,
  \<open>cmd/oauthlogin\<close>) build all this from flags and files (\<open>cmd/config\<close>).

  Theories.
  \<^item> \<open>Prelude\<close>: machine types, Go errors, outcomes of statements (completion, panic,
    blocking), channels, iteration over maps, and the locale \<open>invariant_system\<close> through
    which every transition system below gets its invariant.
  \<^item> \<open>SeqSet\<close>: the sequence sets of the vendored go-imap, with their binary search and
    merging insertion, as finite sets of numbers.
  \<^item> \<open>FlagCounter\<close>: \<open>receiver/flagcounter.go\<close>, a counter with a channel that is closed when
    it is first raised.
  \<^item> \<open>Imap\<close>: messages, the server's answers, authenticators, and \<open>client.NewClient\<close>.
  \<^item> \<open>ReceiverImap\<close>: \<open>receiver/imap.go\<close> and \<open>util.go\<close>, what the fetch and delete goroutines
    compute from what a server sends.
  \<^item> \<open>Receiver\<close>: \<open>receiver.go\<close>, the constructor, the handlers and every state of the loop;
    \<open>tick\<close> is one iteration. \<open>ReceiverLoop\<close>: what an iteration keeps. \<open>ReceiverSystem\<close>: the
    loop with its goroutines and channels as a transition system, \<open>recv_step\<close>.
    \<open>ReceiverExample\<close>: a run of it, for witnesses. \<open>ReceiverSafety\<close>: its properties.
    \<open>ReceiverBook\<close>: the abstract bookkeeping of messages that the handlers implement, as the
    locale \<open>message_book\<close>.
  \<^item> \<open>Ingest\<close> and \<open>Pump\<close>: \<open>ingest/\<close>, \<open>pump/\<close> and \<open>multipump/\<close>, with the table of select cases.
    \<open>Delivery\<close>: the loop, the ingest goroutine and their channels as a system, \<open>deliver_step\<close>.
  \<^item> \<open>PersistentClient\<close>: the methods of the persistent client, connecting, and the delays
    between attempts. \<open>PersistentSystem\<close>: its goroutine select by select, and the system of
    that goroutine and its callers, \<open>persistent_step\<close>. \<open>PersistentSafety\<close>: its properties.
    \<open>ShutdownClient\<close>: the contract the receiver relies on, as the locale \<open>imap_client\<close> with
    both clients as instances, and the receiver's work on a client that is shut down.
  \<^item> \<open>ReceiverClient\<close>: \<open>client_step\<close>, a receiver on the persistent client: the calls its
    goroutines make in \<open>receiver/imap.go\<close>, one after the other, and the logouts that
    \<open>FlagQuit\<close> and \<open>Close\<close> start beside them. \<open>ClientQuit\<close>: which calls come back and which
    never do, and the receiver's way out on the client. \<open>ClientHang\<close>: when it can end, and a
    run in which the receiver hangs. \<open>ClientLogout\<close>: the logout is taken and answered.
  \<^item> \<open>GoStrings\<close>: what the configuration uses of Go's string, address and path functions.
    \<open>Config\<close>: defaults, URLs, credentials, and the resolution of a connection. \<open>Flags\<close>: the
    flags and what the flag library does with them. \<open>Commands\<close>: the configuration of the
    many-to-one pump, the main loops, and the login helper. \<open>Startup\<close>: \<open>cmd/main.go\<close>, the
    registration of the commands, the set-up of the log, the factories and the start.
  \<^item> \<open>SeqSetText\<close>: the text of sequence sets, as go-imap writes and reads it.
  \<^item> \<open>Composition\<close>: \<open>mailpump_step\<close>, the specification of the whole, in which receivers and
    pump are joined only by what was handed out and acknowledged. \<open>ReceiverQuit\<close>: the steps
    of a receiver split by who makes them, what each turn hands out, and its way out.
    \<open>Program\<close>: \<open>program_step\<close>, receivers and pump with the channels between them, the main
    goroutine, and \<open>Close\<close> (\<open>multipump/util.go\<close>, the end of \<open>receiver.go\<close>); it refines
    \<open>mailpump_step\<close>. \<open>ProgramSafety\<close>: runs of it, for witnesses. \<open>ProgramClose\<close>: when \<open>Close\<close>
    comes back. \<open>ProgramDeadlock\<close>: runs in which the channels fill up.
  \<^item> \<open>ProgramClient\<close>: \<open>client_program_step\<close>, the program with every receiver on a persistent
    client, which refines \<open>program_step\<close> and, receiver by receiver, \<open>client_step\<close>.
    \<open>ClientClose\<close>: the closing of its parts. \<open>ProgramHang\<close>: its properties, and a run of it
    whose \<open>Close\<close> never comes back.
  \<^item> This theory: the properties of the whole program.

  State and code. The structs are records with the fields of the code (\<open>mailReceiver\<close>,
  \<open>ingestClient\<close>, \<open>multiPump\<close>, \<open>runner\<close> for \<open>PersistentIMAPClient\<close> and the locals of its
  \<open>run\<close>), enumerations are datatypes, pointers into the receiver's heap are indices, and
  local variables of a loop are a record of their own (\<open>run_state\<close>). A method is a function
  on these; a goroutine is a datatype of the places it can be at, and its steps are rules of
  an inductive relation, so that theorems about reachable states hold for every
  interleaving. Errors are values of \<open>go_error\<close>, a panic or a blocked send is an \<open>outcome\<close>.

  What the properties show. For the whole program, that a message is flagged as deleted only
  after a message with its UID was appended to its target mailbox, that the program with its
  channels refines the specification without, exactly when \<open>Close\<close> comes back and what is
  left then, and that the default capacities of the channels let it deadlock, running or
  closing. For the receiver: the loop never panics or blocks on its own channel, stores the
  flag only for acknowledged messages, hands each message out once per deletion, wakes its
  IDLE, stops starting work on quit and can always reach its exit, and what happens to
  failed stores. For the pump: messages are conserved, dispatch
  matches the table, the single pump is the other one with one source, an orderly close is
  safe, and the deadlock of its two goroutines. For
  the persistent client: every waiting caller is attended to, answers fit their calls, the
  back-off doubles up to its cap, and a logout ends the client. For the program with its
  receivers on persistent clients: its parts run as they do alone, so what is proved of the
  program holds with the transport it has by default, and exactly when its \<open>Close\<close> can come
  back: not when a fetch or a store of a receiver is turned away with its channel left
  open. For the configuration: what
  a resolved connection contains, the round trip of addresses, how the program comes up,
  and which flags and settings have no or the wrong effect. For sequence sets: the round
  trip of their text.

  Bounds. Sequence numbers and UIDs are 32-bit words, sizes and the flag counters 64-bit
  words; durations are signed 64-bit numbers of nanoseconds with their wrap-around written
  out. Properties of the receiver assume fewer than \<open>2^62\<close> iterations of its loop, since a
  flag counter that is raised \<open>2^64\<close> times wraps and panics; an iteration raises a flag at
  most four times; \<open>far_from_wrapping\<close> adds the iterations a receiver needs to exit, one per
  result it has left and six more, seven with its client. Channels have the capacities of the code: 20 messages, 10
  responses, as many acknowledgements as a fetch holds. The back-off is exact for maximal
  delays up to \<open>2^61\<close> nanoseconds; the
  program uses 64 seconds. No fuel is used: loops are structural or have a measure, and
  loops of goroutines are steps of a relation.

  Not modelled. Log lines other than the record \<open>run\<close> starts with, and what is computed only
  for them (the URL of the persistent client), and \<open>makeSourceName\<close>, which nothing calls; the
  generated mocks and the
  test server of \<open>internal/\<close>. IMAP on the wire, TLS, the exchange of OAuth2
  tokens, JSON, URL parsing, files, the environment and the command-line library are
  arguments: what they answer is
  arbitrary in every property. Strings are ASCII, so letter case and white space beyond
  ASCII are left out; paths are those of Unix. In \<open>program_step\<close> a call to a server comes
  back, with any answer, whenever it likes. In \<open>client_program_step\<close> the receivers make their
  calls through persistent clients, whose servers answer likewise; the ingest client's
  appends stay calls that come back with any answer, the updates of a mailbox come whenever
  they like, a process that panicked on a closed channel is a call that never comes back,
  and a store is one call whose results follow its end. The second signal, which ends the
  process by force, is in \<open>signal_loop\<close> and not in \<open>program_step\<close>.
\<close>

section \<open>Delivery\<close>

text \<open>
  C1: mail is not lost: whatever the servers answer and however receivers, pump, ingest
  client and shutdown interleave, a message is flagged as deleted on source \<open>i\<close> only if a
  message with its UID, handed out by receiver \<open>i\<close>, was appended to the target mailbox of
  source \<open>i\<close> on the destination.
\<close>

theorem deleted_only_when_delivered:
  assumes "runs parallel targets s"
    and "4 * ticks (ru_sys (pr_units s i)) < (2 :: nat) ^ 64"
    and "uid \<in> stored (ru_sys (pr_units s i))"
  shows "\<exists>req\<in>set (dl_appended (pr_pump s)). rq_ch req = i \<and> rq_Mailbox req = targets ! i
    \<and> rq_Message req \<in> set (dl_handed (pr_pump s) i) \<and> Uid (rq_Message req) = uid"
  using deleted_only_after_delivery [OF program_reachable_abs [OF assms(1)], of i uid] assms(2,3)
  by (simp add: abs_program_def)

theorem deleted_only_when_delivered_witness:
  "\<exists>s. runs True [''INBOX''] s \<and> stored (ru_sys (pr_units s 0)) = {7}
    \<and> (\<exists>req\<in>set (dl_appended (pr_pump s)). rq_Mailbox req = ''INBOX'' \<and> Uid (rq_Message req) = 7)"
proof -
  obtain d where d: "runs True [''INBOX''] (ex_program (ex_unit ex_deleted [] []) d)"
    using ex_deleted_run [of True "''INBOX''" "[]"] by blast
  let ?s = "ex_program (ex_unit ex_deleted [] []) d"
  have s: "ru_sys (pr_units ?s 0) = ex_deleted" by (simp add: ex_program_def)
  have e: "stored ex_deleted = {7}" "4 * ticks ex_deleted < (2 :: nat) ^ 64"
    by (simp_all add: ex_deleted_def ex_sys_def)
  have "4 * ticks (ru_sys (pr_units ?s 0)) < (2 :: nat) ^ 64" "7 \<in> stored (ru_sys (pr_units ?s 0))"
    by (simp_all only: s e, simp)
  from deleted_only_when_delivered [OF d this] d s e(1) show ?thesis
    by (intro exI [of _ ?s]) auto
qed

text \<open>
  C10: the program with its channels, its handing out of messages one by one and its
  shutdown refines the specification in which receivers and pump are joined only by what
  was handed out and acknowledged: every run is a run of the specification, step by step.
\<close>

theorem program_refines_specification:
  assumes "runs parallel targets s" and "program_step parallel targets s t"
  shows "reachable mailpump_init (mailpump_step targets) (abs_program s)
    \<and> (abs_program t = abs_program s \<or> mailpump_step targets (abs_program s) (abs_program t))"
  using program_reachable_abs [OF assms(1)]
    program_step_abs [OF program.reachable_inv [OF assms(1)] assms(2)] by blast

theorem program_refines_specification_witness:
  "\<exists>s t. runs True [''INBOX''] s \<and> program_step True [''INBOX''] s t \<and> abs_program t \<noteq> abs_program s
    \<and> mailpump_step [''INBOX''] (abs_program s) (abs_program t)"
proof -
  let ?d = "ex_delivery Selecting Waiting [] [] [] [] []"
  let ?s = "ex_program (ex_unit (ex_sys (ex_fetching None) [FetchSending ex_result] {} 1) [] []) ?d"
  let ?t = "ex_program (ex_unit (ex_sys (ex_fetching (Some StateUnacked))
      [Finishing OperationFetchFinish] {} 2) [ex_msg] []) ?d"
  have run: "runs True [''INBOX''] ?s" by (rule ex_fetched_run)
  have "unit_step (ex_unit (ex_sys (ex_fetching None) [FetchSending ex_result] {} 1) [] [])
      (ex_unit (ex_sys (ex_fetching (Some StateUnacked)) [Finishing OperationFetchFinish] {} 2) [ex_msg] [])"
    using ex_fetched_turn .
  then have step: "program_step True [''INBOX''] ?s ?t" by (rule ex_receiver_step)
  have "sys_recv (abs_program ?t) 0 \<noteq> sys_recv (abs_program ?s) 0"
    by (simp add: abs_program_def ex_program_def) (simp add: ex_sys_def)
  then have "abs_program ?t \<noteq> abs_program ?s" by metis
  with program_refines_specification [OF run step] run step show ?thesis by blast
qed

section \<open>The end of the program\<close>

text \<open>
  C7: when the command ends by itself. Once the loop of the pump has returned and the parts
  are being closed, whatever the receivers are doing on their servers, \<open>Close\<close> can come back
  if and only if every receiver has room in its outgoing channel for the messages it has
  still to hand out, and the ingest client has room for the response of the request it is
  at; otherwise the program hangs for good. Nothing else can stop it: no state of the
  receivers, and no moment the signal comes at.
\<close>

theorem close_completes_iff:
  assumes "runs parallel targets s" and "pr_main s = InClose"
    and "\<forall>i < length targets. far_from_wrapping (pr_units s i)"
  shows "(\<exists>t. (program_step parallel targets)\<^sup>*\<^sup>* s t \<and> pr_main t = CommandEnded)
    \<longleftrightarrow> (\<forall>i < length targets. receiver_free s i) \<and> ingest_free (pr_pump s)"
proof -
  have inv: "closing_inv targets s" by (rule closing.reachable_inv [OF assms(1)])
  have pump: "dl_pump (pr_pump s) = Returned"
    using inv assms(2) by (simp add: closing_inv_def program_inv_def main_ok_def)
  show ?thesis
  proof
    assume "\<exists>t. (program_step parallel targets)\<^sup>*\<^sup>* s t \<and> pr_main t = CommandEnded"
    then obtain t where t: "(program_step parallel targets)\<^sup>*\<^sup>* s t" "pr_main t = CommandEnded" by blast
    have "\<not> stuck_somewhere targets s"
      using stuck_not_ended [OF closing.steps_inv [OF t(1) inv]] stuck_steps [OF t(1) inv] t(2) by blast
    with pump show "(\<forall>i < length targets. receiver_free s i) \<and> ingest_free (pr_pump s)"
      by (auto simp: stuck_somewhere_def)
  next
    assume "(\<forall>i < length targets. receiver_free s i) \<and> ingest_free (pr_pump s)"
    with close_completes [OF inv assms(2)] assms(3)
    show "\<exists>t. (program_step parallel targets)\<^sup>*\<^sup>* s t \<and> pr_main t = CommandEnded" by blast
  qed
qed

theorem close_completes_iff_witness:
  "\<exists>s t. runs True [''INBOX''] s \<and> pr_main s = InClose \<and> ru_outgoing (pr_units s 0) = [ex_msg]
    \<and> work (ru_sys (pr_units s 0)) = [Finishing OperationFetchFinish]
    \<and> (program_step True [''INBOX''])\<^sup>*\<^sup>* s t \<and> pr_main t = CommandEnded"
proof -
  let ?u = "ex_unit (ex_sys (ex_fetching (Some StateUnacked)) [Finishing OperationFetchFinish] {} 2) [ex_msg] []"
  let ?s = "ex_closing [''INBOX''] ?u (ex_delivery Selecting Waiting [] [] [] [] [])"
  have run: "runs True [''INBOX''] ?s" by (rule ex_closing_run [OF ex_handed_run]) simp_all
  have main: "pr_main ?s = InClose" by (simp add: ex_closing_def)
  have unit: "pr_units ?s 0 = ?u\<lparr>ru_close := WritingQuit\<rparr>" by (simp add: ex_closing_def ex_program_def)
  have "\<forall>i < length [''INBOX'']. far_from_wrapping (pr_units ?s i)" using unit ex_handed_far by simp
  note iff = close_completes_iff [OF run main this]
  have "(\<forall>i < length [''INBOX'']. receiver_free ?s i) \<and> ingest_free (pr_pump ?s)"
    by (simp add: receiver_free_def ingest_free_def ex_closing_def ex_program_def)
  with iff obtain t where t: "(program_step True [''INBOX''])\<^sup>*\<^sup>* ?s t" "pr_main t = CommandEnded" by blast
  have "ru_outgoing (pr_units ?s 0) = [ex_msg]"
    "work (ru_sys (pr_units ?s 0)) = [Finishing OperationFetchFinish]"
    unfolding unit by (simp_all add: ex_sys_def)
  with run main t show ?thesis by blast
qed



section \<open>Where it stands still\<close>




end
